(* ===== verification/Prelude.thy ===== *)
theory Prelude
  imports Main "HOL-Library.Word" "HOL-Library.List_Lexorder" "HOL-Library.Sublist"
    "HOL-Library.AList" "HOL-Library.Multiset"
begin

text \<open>
  Shared vocabulary of the FerrisKV development: the machine integers and byte strings of the
  Rust sources, the parts of the Rust standard library they use (little- and big-endian
  conversions, saturating and checked arithmetic, UTF-8 validation, sub-slices), the contents of a
  \<open>DashMap\<close> as an association list with distinct keys, the interfaces of the codecs as locales,
  and the generic lemmas on these that the component theories share.

  Integer types keep their width: \<open>u8\<close>, \<open>u16\<close>, \<open>u32\<close>, \<open>u64\<close> are words, an \<open>i64\<close> is
  a 64-bit word read with \<^const>\<open>sint\<close>, and \<open>+\<close>, \<open>-\<close> wrap as they do in the release
  profile of \<open>Cargo.toml\<close>, which does not turn overflow checks on. A \<open>usize\<close> is a \<open>nat\<close>:
  it only ever counts bytes or elements in memory; the target is 64-bit, so \<open>checked_add\<close>
  fails from \<open>2 ^ 64\<close> on.
\<close>

unbundle bit_operations_syntax

section \<open>Types and collections of lemmas\<close>

type_synonym u8 = "8 word"
type_synonym u16 = "16 word"
type_synonym u32 = "32 word"
type_synonym u64 = "64 word"
type_synonym i64 = "64 word"
type_synonym usize = nat
type_synonym bytes = "u8 list"
text \<open>A Rust \<open>str\<close>: a byte string on which \<open>utf8_valid\<close> below holds.\<close>
type_synonym str = bytes
type_synonym ('k, 'v) dashmap = "('k \<times> 'v) list"

named_theorems codec_simps \<open>round trips and lengths of the byte codecs\<close>
named_theorems dashmap_simps \<open>lookup after insert, remove and iteration of a DashMap\<close>

section \<open>Definitions\<close>

subsection \<open>Slices and integer conversions\<close>

text \<open>\<open>&xs[a..b]\<close>, for bounds the caller has checked.\<close>

definition slice :: "usize \<Rightarrow> usize \<Rightarrow> 'a list \<Rightarrow> 'a list" where
  "slice a b xs = take (b - a) (drop a xs)"

definition to_le_bytes :: "'a::len word \<Rightarrow> bytes" where
  "to_le_bytes w = map (\<lambda>i. ucast (drop_bit (8 * i) w)) [0..<LENGTH('a) div 8]"

definition to_be_bytes :: "'a::len word \<Rightarrow> bytes" where
  "to_be_bytes w = rev (to_le_bytes w)"

fun from_le_bytes :: "bytes \<Rightarrow> 'a::len word" where
  "from_le_bytes [] = 0"
| "from_le_bytes (b # bs) = ucast b OR push_bit 8 (from_le_bytes bs)"

definition from_be_bytes :: "bytes \<Rightarrow> 'a::len word" where
  "from_be_bytes bs = from_le_bytes (rev bs)"

text \<open>
  \<open>buf[a..b].try_into().ok().map(uN::from_le_bytes)\<close>: the conversion of a slice to an array fails
  on a wrong length.
\<close>

definition read_le :: "usize \<Rightarrow> usize \<Rightarrow> bytes \<Rightarrow> 'a::len word option" where
  "read_le a b buf =
     (let s = slice a b buf
      in if length s = LENGTH('a) div 8 then Some (from_le_bytes s) else None)"

subsection \<open>Saturating and checked arithmetic\<close>

definition saturating_add :: "'a::len word \<Rightarrow> 'a word \<Rightarrow> 'a word" where
  "saturating_add a b = (if a \<le> a + b then a + b else - 1)"

definition saturating_sub :: "'a::len word \<Rightarrow> 'a word \<Rightarrow> 'a word" where
  "saturating_sub a b = (if b \<le> a then a - b else 0)"

definition checked_add :: "usize \<Rightarrow> usize \<Rightarrow> usize option" where
  "checked_add a b = (if a + b < 2 ^ 64 then Some (a + b) else None)"

text \<open>\<open>i64::unsigned_abs\<close>\<close>

definition unsigned_abs :: "i64 \<Rightarrow> u64" where
  "unsigned_abs d = (if sint d < 0 then - d else d)"

subsection \<open>Text\<close>

text \<open>Decimal rendering of an unsigned integer, as \<open>format!\<close> does it.\<close>

fun dec :: "nat \<Rightarrow> string" where
  "dec n = (if n < 10 then [char_of (48 + n)] else dec (n div 10) @ [char_of (48 + n mod 10)])"

declare dec.simps [simp del]

text \<open>The bytes of a literal, and a \<open>str\<close> as text.\<close>

definition lit :: "string \<Rightarrow> bytes" where
  "lit s = map (\<lambda>c. word_of_nat (of_char c)) s"

definition chars :: "str \<Rightarrow> string" where
  "chars t = map (\<lambda>b. char_of (unat b)) t"

definition cont_byte :: "u8 \<Rightarrow> bool" where
  "cont_byte b \<longleftrightarrow> 0x80 \<le> b \<and> b \<le> 0xBF"

text \<open>
  \<open>core::str::from_utf8\<close> succeeds exactly on well-formed UTF-8: no stray continuation byte, no
  overlong form, no surrogate, nothing above U+10FFFF.
\<close>

fun utf8_valid :: "bytes \<Rightarrow> bool" where
  "utf8_valid [] = True"
| "utf8_valid (a # r) =
     (if a < 0x80 then utf8_valid r
      else if 0xC2 \<le> a \<and> a \<le> 0xDF then
        (case r of b # r' \<Rightarrow> cont_byte b \<and> utf8_valid r' | _ \<Rightarrow> False)
      else if 0xE0 \<le> a \<and> a \<le> 0xEF then
        (case r of b # c # r' \<Rightarrow>
           (if a = 0xE0 then 0xA0 else 0x80) \<le> b \<and> b \<le> (if a = 0xED then 0x9F else 0xBF)
           \<and> cont_byte c \<and> utf8_valid r'
         | _ \<Rightarrow> False)
      else if 0xF0 \<le> a \<and> a \<le> 0xF4 then
        (case r of b # c # d # r' \<Rightarrow>
           (if a = 0xF0 then 0x90 else 0x80) \<le> b \<and> b \<le> (if a = 0xF4 then 0x8F else 0xBF)
           \<and> cont_byte c \<and> cont_byte d \<and> utf8_valid r'
         | _ \<Rightarrow> False)
      else False)"

subsection \<open>DashMap\<close>

text \<open>
  A \<open>DashMap\<close> holds at most one value per key. Its iteration order is unspecified; the model's
  list order stands for it, and no property below depends on it.
\<close>

definition dm_get :: "('k, 'v) dashmap \<Rightarrow> 'k \<Rightarrow> 'v option" where
  "dm_get m k = map_of m k"

definition dm_insert :: "'k \<Rightarrow> 'v \<Rightarrow> ('k, 'v) dashmap \<Rightarrow> ('k, 'v) dashmap" where
  "dm_insert k v m = AList.update k v m"

definition dm_remove :: "'k \<Rightarrow> ('k, 'v) dashmap \<Rightarrow> ('k, 'v) dashmap" where
  "dm_remove k m = AList.delete k m"

definition dm_contains :: "('k, 'v) dashmap \<Rightarrow> 'k \<Rightarrow> bool" where
  "dm_contains m k = (dm_get m k \<noteq> None)"

definition dm_wf :: "('k, 'v) dashmap \<Rightarrow> bool" where
  "dm_wf m \<longleftrightarrow> distinct (map fst m)"

subsection \<open>Results of a scan\<close>

text \<open>
  What a scan returns: entries by strictly increasing key.
\<close>

definition ordered_entries :: "('k::linorder \<times> 'v) list \<Rightarrow> bool" where
  "ordered_entries xs \<longleftrightarrow> sorted (map fst xs) \<and> distinct (map fst xs)"

text \<open>The total of a weight over the entries of a map.\<close>

definition map_total :: "('k \<Rightarrow> 'v \<Rightarrow> nat) \<Rightarrow> ('k \<rightharpoonup> 'v) \<Rightarrow> nat" where
  "map_total f m = (\<Sum>k\<in>dom m. f k (the (m k)))"

section \<open>Interfaces of the codecs\<close>

text \<open>
  A codec of whole byte strings: decoding succeeds exactly on the encodings of the values that are
  in order, and gives the value back.
\<close>

locale codec =
  fixes enc :: "'a \<Rightarrow> 'b"
    and dec :: "'b \<Rightarrow> 'e + 'a"
    and ok :: "'a \<Rightarrow> bool"
  assumes dec_iff: "dec b = Inr a \<longleftrightarrow> ok a \<and> b = enc a"
begin

lemma enc_inject: "ok a \<Longrightarrow> ok a' \<Longrightarrow> enc a = enc a' \<longleftrightarrow> a = a'"
  using dec_iff [of "enc a" a] dec_iff [of "enc a" a'] by auto

lemma dec_accepts_iff: "\<not> isl (dec b) \<longleftrightarrow> b \<in> enc ` Collect ok"
  using dec_iff [of b] by (cases "dec b") auto

end

text \<open>
  A codec of frames in a stream: parsing takes an encoding off the front and says how long it was.
\<close>

locale frame_codec =
  fixes enc :: "'a \<Rightarrow> 'b list"
    and parse :: "'b list \<Rightarrow> ('a \<times> nat) option"
    and ok :: "'a \<Rightarrow> bool"
  assumes parse_iff: "parse buf = Some (a, n) \<longleftrightarrow> ok a \<and> n = length (enc a) \<and> prefix (enc a) buf"
begin

text \<open>No frame begins with another one, so a frame that was cut short never parses.\<close>

lemma prefix_free: "ok a \<Longrightarrow> ok a' \<Longrightarrow> prefix (enc a) (enc a') \<Longrightarrow> a = a'"
  using parse_iff [of "enc a'" a "length (enc a)"] parse_iff [of "enc a'" a' "length (enc a')"] by auto

lemma torn:
  assumes "ok a" and "n < length (enc a)"
  shows "parse (take n (enc a)) = None"
proof (cases "parse (take n (enc a))")
  case (Some p)
  then obtain a' m where p: "parse (take n (enc a)) = Some (a', m)" by (cases p) auto
  then have a': "ok a'" "prefix (enc a') (take n (enc a))" by (simp_all add: parse_iff)
  then have "prefix (enc a') (enc a)" using take_is_prefix prefix_order.trans by blast
  then have "a' = a" using prefix_free a'(1) assms(1) by blast
  with a'(2) assms(2) show ?thesis by (auto dest: prefix_length_le)
qed

end

section \<open>Lemmas\<close>

subsection \<open>Bytes of a word\<close>

lemma length_to_le_bytes [codec_simps, simp]:
  "length (to_le_bytes (w :: 'a::len word)) = LENGTH('a) div 8"
  by (simp add: to_le_bytes_def)

lemma length_to_be_bytes [codec_simps, simp]:
  "length (to_be_bytes (w :: 'a::len word)) = LENGTH('a) div 8"
  by (simp add: to_be_bytes_def)

lemma bit_from_le_bytes:
  "bit (from_le_bytes bs :: 'a::len word) n \<longleftrightarrow>
     n < LENGTH('a) \<and> n div 8 < length bs \<and> bit (bs ! (n div 8)) (n mod 8)"
proof (induction bs arbitrary: n)
  case Nil
  then show ?case by simp
next
  case (Cons b bs)
  show ?case
  proof (cases "n < 8")
    case True
    then show ?thesis
      by (auto simp: bit_or_iff bit_push_bit_iff bit_ucast_iff)
  next
    case False
    then have 1: "n div 8 = Suc ((n - 8) div 8)" and 2: "n mod 8 = (n - 8) mod 8"
      by (simp_all add: le_div_geq le_mod_geq)
    from False have "\<not> bit b n"
      using bit_imp_le_length [of b n] by auto
    with False Cons.IH [of "n - 8"] show ?thesis
      by (auto simp: bit_or_iff bit_push_bit_iff bit_ucast_iff 1 2)
  qed
qed

lemma to_le_bytes_nth:
  "i < LENGTH('a) div 8 \<Longrightarrow> to_le_bytes (w :: 'a::len word) ! i = ucast (drop_bit (8 * i) w)"
  by (simp add: to_le_bytes_def)

lemma from_to_le_bytes [codec_simps]:
  assumes "8 dvd LENGTH('a)"
  shows "from_le_bytes (to_le_bytes w) = (w :: 'a::len word)"
proof (rule bit_eqI)
  fix n
  assume "possible_bit TYPE('a word) n"
  then have n: "n < LENGTH('a)" by simp
  with assms have d: "n div 8 < LENGTH('a) div 8" by auto
  have e: "8 * (n div 8) + n mod 8 = n" by presburger
  show "bit (from_le_bytes (to_le_bytes w) :: 'a word) n = bit w n"
    using n d e by (simp add: bit_from_le_bytes to_le_bytes_nth bit_ucast_iff bit_drop_bit_eq)
qed

lemma to_from_le_bytes [codec_simps]:
  assumes "8 dvd LENGTH('a)" and "length bs = LENGTH('a) div 8"
  shows "to_le_bytes (from_le_bytes bs :: 'a::len word) = bs"
proof (rule nth_equalityI)
  show "length (to_le_bytes (from_le_bytes bs :: 'a word)) = length bs"
    using assms by simp
next
  fix i
  assume "i < length (to_le_bytes (from_le_bytes bs :: 'a word))"
  then have i: "i < LENGTH('a) div 8" by simp
  have *: "8 * i + n < LENGTH('a)" if "n < 8" for n :: nat
    using i that assms(1) by auto
  show "to_le_bytes (from_le_bytes bs :: 'a word) ! i = bs ! i"
    by (rule bit_eqI)
      (use i assms in \<open>auto simp: to_le_bytes_nth bit_ucast_iff bit_drop_bit_eq bit_from_le_bytes *\<close>)
qed

lemma from_to_be_bytes [codec_simps]:
  "8 dvd LENGTH('a) \<Longrightarrow> from_be_bytes (to_be_bytes w) = (w :: 'a::len word)"
  by (simp add: from_be_bytes_def to_be_bytes_def from_to_le_bytes)

lemma to_from_be_bytes [codec_simps]:
  "8 dvd LENGTH('a) \<Longrightarrow> length bs = LENGTH('a) div 8 \<Longrightarrow>
     to_be_bytes (from_be_bytes bs :: 'a::len word) = bs"
  by (simp add: from_be_bytes_def to_be_bytes_def to_from_le_bytes)

lemma slice_append_mid [codec_simps]:
  "a = length xs \<Longrightarrow> b = length xs + length ys \<Longrightarrow> slice a b (xs @ ys @ zs) = ys"
  by (simp add: slice_def)

lemma slice_append_head: "b = length xs \<Longrightarrow> slice 0 b (xs @ ys) = xs"
  by (simp add: slice_def)

lemma length_slice [simp]: "b \<le> length xs \<Longrightarrow> length (slice a b xs) = b - a"
  by (simp add: slice_def)

lemma slice_take [simp]: "b \<le> n \<Longrightarrow> slice a b (take n xs) = slice a b xs"
  by (simp add: slice_def drop_take min_def)

lemma slice_append_left [simp]: "b \<le> length xs \<Longrightarrow> slice a b (xs @ ys) = slice a b xs"
  by (simp add: slice_def)

lemma take_slice_append: "a \<le> b \<Longrightarrow> take a xs @ slice a b xs = take b xs"
  by (metis le_add_diff_inverse slice_def take_add)

lemma read_le_in_range:
  "b \<le> length buf \<Longrightarrow> b - a = LENGTH('a) div 8 \<Longrightarrow>
     read_le a b buf = Some (from_le_bytes (slice a b buf) :: 'a::len word)"
  by (simp add: read_le_def)

lemma read_le_SomeD:
  "read_le a b buf = Some w \<Longrightarrow> 8 dvd LENGTH('a) \<Longrightarrow> slice a b buf = to_le_bytes (w :: 'a::len word)"
  by (auto simp: read_le_def to_from_le_bytes Let_def split: if_splits)

lemma read_le_u32_SomeD: "read_le a b buf = Some w \<Longrightarrow> slice a b buf = to_le_bytes (w :: u32)"
  by (rule read_le_SomeD) simp_all

lemma read_le_u64_SomeD: "read_le a b buf = Some w \<Longrightarrow> slice a b buf = to_le_bytes (w :: u64)"
  by (rule read_le_SomeD) simp_all

lemma read_le_take [simp]:
  "b \<le> n \<Longrightarrow> read_le a b (take n buf) = (read_le a b buf :: 'a::len word option)"
  by (simp add: read_le_def)

lemma read_le_append_left [simp]:
  "b \<le> length xs \<Longrightarrow> read_le a b (xs @ ys) = (read_le a b xs :: 'a::len word option)"
  by (simp add: read_le_def)

lemma read_le_append_mid [codec_simps]:
  "a = length xs \<Longrightarrow> b = a + LENGTH('a) div 8 \<Longrightarrow> 8 dvd LENGTH('a) \<Longrightarrow>
     read_le a b (xs @ to_le_bytes w @ zs) = Some (w :: 'a::len word)"
  by (simp add: read_le_def slice_append_mid from_to_le_bytes)

subsection \<open>Arithmetic\<close>

lemma unat_u8_less: "unat (b :: u8) < 256"
  using unsigned_less [of b, where ?'a = nat] by simp

lemma unat_u32_less: "unat (w :: u32) < 4294967296"
  using unsigned_less [of w, where ?'a = nat] by simp

lemma unat_u64_less: "unat (w :: u64) < 18446744073709551616"
  using unsigned_less [of w, where ?'a = nat] by simp

lemma saturating_add_no_overflow:
  "unat a + unat b < 2 ^ LENGTH('a) \<Longrightarrow> saturating_add a b = a + (b :: 'a::len word)"
  by (simp add: saturating_add_def no_olen_add_nat)

lemma unat_saturating_add:
  "unat (saturating_add a (b :: 'a::len word)) = min (unat a + unat b) (2 ^ LENGTH('a) - 1)"
proof (cases "unat a + unat b < 2 ^ LENGTH('a)")
  case True
  then show ?thesis by (simp add: saturating_add_def no_olen_add_nat unat_word_ariths)
next
  case False
  then show ?thesis by (simp add: saturating_add_def no_olen_add_nat unsigned_minus_1_eq_mask mask_eq_exp_minus_1)
qed

lemma saturating_add_le [simp]: "a \<le> saturating_add a (b :: 'a::len word)"
proof -
  have "unat a < 2 ^ LENGTH('a)" by simp
  then have "unat a \<le> 2 ^ LENGTH('a) - 1" by arith
  then show ?thesis by (simp add: word_le_nat_alt unat_saturating_add)
qed

lemma unat_u32_of_nat: "n < 2 ^ 32 \<Longrightarrow> unat (word_of_nat n :: u32) = n"
  by (simp add: unsigned_of_nat take_bit_nat_eq_self_iff)

lemma unat_u64_of_nat: "n < 2 ^ 64 \<Longrightarrow> unat (word_of_nat n :: u64) = n"
  by (simp add: unsigned_of_nat take_bit_nat_eq_self_iff)

lemma word_of_nat_unat_u64: "word_of_nat (unat w) = (w :: u64)"
  by simp

lemma word_of_nat_u64_eq_0_iff: "n < 2 ^ 64 \<Longrightarrow> (word_of_nat n :: u64) = 0 \<longleftrightarrow> n = 0"
  by (auto simp: word_of_nat_eq_0_iff dest: nat_dvd_not_less)

lemma unat_saturating_sub:
  "unat (saturating_sub a (b :: 'a::len word)) = unat a - unat b"
  by (auto simp: saturating_sub_def unat_sub word_le_nat_alt)

lemma checked_add_Some [simp]: "checked_add a b = Some c \<longleftrightarrow> c = a + b \<and> a + b < 2 ^ 64"
  by (auto simp: checked_add_def)

subsection \<open>Lexicographic order of byte strings\<close>

lemma append_less_append [simp]: "a @ x < a @ y \<longleftrightarrow> x < (y :: 'a::linorder list)"
  by (induction a) auto

lemma append_le_append [simp]: "a @ x \<le> a @ y \<longleftrightarrow> x \<le> (y :: 'a::linorder list)"
  by (induction a) auto

lemma le_append [simp]: "a \<le> a @ (x :: 'a::linorder list)"
  by (induction a) auto

lemma prefix_imp_le: "prefix p k \<Longrightarrow> p \<le> (k :: 'a::linorder list)"
  by (auto simp: prefix_def)

lemma between_common_prefix:
  fixes h :: "'a::linorder list"
  assumes "h @ p \<le> x" and "x \<le> h @ q"
  shows "\<exists>r. x = h @ r"
  using assms
proof (induction h arbitrary: x)
  case (Cons a h)
  then obtain b y where "x = b # y" by (cases x) auto
  with Cons show ?case by fastforce
qed simp

text \<open>
  A byte string with the prefix \<open>p @ [b]\<close> lies between \<open>p @ [b]\<close> and \<open>p @ [c]\<close>, where \<open>c\<close> is
  the byte after \<open>b\<close>, and only such strings do.
\<close>

lemma between_successor_iff:
  fixes b c :: "'a::linorder"
  assumes "b < c" and "\<And>x. b < x \<Longrightarrow> c \<le> x"
  shows "p @ [b] \<le> k \<and> k < p @ [c] \<longleftrightarrow> prefix (p @ [b]) k"
proof (induction p arbitrary: k)
  case Nil
  show ?case
  proof (cases k)
    case Nil
    then show ?thesis by simp
  next
    case (Cons x xs)
    then show ?thesis using assms by (fastforce simp: not_less)
  qed
next
  case (Cons a p)
  show ?case
  proof (cases k)
    case Nil
    then show ?thesis by simp
  next
    case (Cons x xs)
    then show ?thesis using Cons.IH [of xs] by auto
  qed
qed

subsection \<open>UTF-8\<close>

lemma utf8_valid_ascii: "\<forall>b\<in>set bs. b < 0x80 \<Longrightarrow> utf8_valid bs"
  by (induction bs) auto

subsection \<open>DashMap\<close>

lemma dm_get_insert [dashmap_simps]: "dm_get (dm_insert k v m) = (dm_get m)(k \<mapsto> v)"
  by (auto simp: dm_get_def dm_insert_def update_conv' fun_eq_iff)

lemma dm_get_remove [dashmap_simps]: "dm_get (dm_remove k m) = (dm_get m)(k := None)"
  by (auto simp: dm_get_def dm_remove_def delete_conv' fun_eq_iff)

lemma dm_get_Nil [dashmap_simps]: "dm_get [] = Map.empty"
  by (simp add: dm_get_def fun_eq_iff)

lemma dm_wf_Nil [dashmap_simps, simp]: "dm_wf []"
  by (simp add: dm_wf_def)

lemma dm_wf_insert [dashmap_simps]: "dm_wf m \<Longrightarrow> dm_wf (dm_insert k v m)"
  by (simp add: dm_wf_def dm_insert_def distinct_update)

lemma dm_wf_remove [dashmap_simps]: "dm_wf m \<Longrightarrow> dm_wf (dm_remove k m)"
  by (simp add: dm_wf_def dm_remove_def distinct_delete)

lemma dom_dm_get: "dom (dm_get m) = fst ` set m"
  by (simp add: dm_get_def [abs_def] dom_map_of_conv_image_fst)

lemma finite_dom_dm_get [simp]: "finite (dom (dm_get m))"
  by (simp add: dom_dm_get)

lemma dm_get_Some_iff: "dm_wf m \<Longrightarrow> dm_get m k = Some v \<longleftrightarrow> (k, v) \<in> set m"
  by (simp add: dm_get_def dm_wf_def)

subsection \<open>Sorted association lists\<close>

text \<open>
  An ordered list is determined by the map it stands for, so the order in which a backend found
  the entries is immaterial.
\<close>

lemma distinct_map_sort_key: "distinct (map f (sort_key f xs)) = distinct (map f xs)"
  by (induction xs) (auto simp: distinct_insort_key)

lemma ordered_entries_sort_key: "dm_wf xs \<Longrightarrow> ordered_entries (sort_key fst xs)"
  by (simp add: ordered_entries_def dm_wf_def distinct_map_sort_key)

lemma ordered_entries_filter: "ordered_entries xs \<Longrightarrow> ordered_entries (filter P xs)"
  by (auto simp: ordered_entries_def distinct_map_filter intro: sorted_filter)

lemma map_fst_map_of_eq:
  "map fst xs = map fst ys \<Longrightarrow> distinct (map fst xs) \<Longrightarrow> map_of xs = map_of ys \<Longrightarrow> xs = ys"
proof (rule nth_equalityI)
  assume k: "map fst xs = map fst ys" and d: "distinct (map fst xs)" and m: "map_of xs = map_of ys"
  from k show len: "length xs = length ys" by (metis length_map)
  fix i
  assume i: "i < length xs"
  from k i len have f: "fst (xs ! i) = fst (ys ! i)" by (metis nth_map)
  have "map_of xs (fst (xs ! i)) = Some (snd (xs ! i))"
    using d i by simp
  moreover have "map_of ys (fst (ys ! i)) = Some (snd (ys ! i))"
    using d k i len by simp
  ultimately show "xs ! i = ys ! i"
    using f m by (simp add: prod_eq_iff)
qed

lemma ordered_entries_unique:
  assumes "ordered_entries xs" and "ordered_entries ys" and "set xs = set ys"
  shows "xs = ys"
proof -
  have "map fst xs = map fst ys"
    using assms sorted_distinct_set_unique [of "map fst xs" "map fst ys"]
    by (simp add: ordered_entries_def)
  moreover have "map_of xs = map_of ys"
    using assms by (simp add: ordered_entries_def map_of_inject_set)
  ultimately show ?thesis
    using assms(1,2) map_fst_map_of_eq [of xs ys] by (simp add: ordered_entries_def)
qed

subsection \<open>Totals over a map\<close>

lemma map_total_empty [simp]: "map_total f Map.empty = 0"
  by (simp add: map_total_def)

lemma map_total_remove:
  assumes "finite (dom m)"
  shows "map_total f (m(k := None)) + (case m k of None \<Rightarrow> 0 | Some v \<Rightarrow> f k v) = map_total f m"
proof (cases "m k")
  case None
  then have "m(k := None) = m" by auto
  with None show ?thesis by simp
next
  case (Some v)
  have "map_total f (m(k := None)) = (\<Sum>x\<in>dom m - {k}. f x (the (m x)))"
    by (simp add: map_total_def)
  moreover have "map_total f m = f k v + (\<Sum>x\<in>dom m - {k}. f x (the (m x)))"
    using assms Some by (simp add: map_total_def sum.remove [of "dom m" k] domI)
  ultimately show ?thesis using Some by simp
qed

lemma map_total_update:
  assumes "finite (dom m)"
  shows "map_total f (m(k \<mapsto> v)) + (case m k of None \<Rightarrow> 0 | Some u \<Rightarrow> f k u) = map_total f m + f k v"
  using map_total_remove [of "m(k \<mapsto> v)" f k] map_total_remove [OF assms, of f k] assms by simp

lemma map_total_entry_le: "finite (dom m) \<Longrightarrow> m k = Some v \<Longrightarrow> f k v \<le> map_total f m"
  using map_total_remove [of m f k] by simp

lemma map_total_list:
  assumes "distinct (map fst xs)" and "set xs = {(k, v). m k = Some v}"
  shows "map_total f m = (\<Sum>(k, v)\<leftarrow>xs. f k v)"
proof -
  have "dom m = fst ` set xs" using assms(2) by force
  moreover have "inj_on fst (set xs)" using assms(1) by (simp add: distinct_map)
  ultimately have "map_total f m = (\<Sum>e\<in>set xs. f (fst e) (the (m (fst e))))"
    by (simp add: map_total_def sum.reindex)
  also have "\<dots> = (\<Sum>e\<in>set xs. case e of (k, v) \<Rightarrow> f k v)"
    using assms(2) by (intro sum.cong) auto
  also have "\<dots> = (\<Sum>(k, v)\<leftarrow>xs. f k v)"
    using assms(1) by (simp add: sum_list_distinct_conv_sum_set distinct_map)
  finally show ?thesis .
qed

end
