(* ===== verification/Core_Types.thy ===== *)
theory Core_Types
  imports Prelude
begin

text \<open>
  The types every crate shares: the error enum of \<open>ferriskv-core/src/error.rs\<close>, the clock of
  \<open>clock.rs\<close> and the request limits of \<open>limits.rs\<close>.

  The payload of an error that another crate or the operating system produced (\<open>fjall::Error\<close>,
  \<open>std::io::Error\<close>) is opaque to this code, which only displays it; it is kept as text. System time
  is an input of every operation that reads it: an \<open>int\<close> of milliseconds since the Unix epoch,
  negative before it. The shared counter behind \<open>Clock::Manual\<close> is a field of the clock.
\<close>

section \<open>Definitions\<close>

subsection \<open>Errors\<close>

type_synonym fjall_error = string
type_synonym io_error = string

datatype error =
    NotFound bytes
  | Storage fjall_error
  | NotLeader str
  | UnknownTenant str
  | NotOwner u16
  | Corrupt string
  | Io io_error
  | Config string
  | QuotaExceeded str u64 u64
  | RateLimited str u32

type_synonym 'a result = "error + 'a"

subsection \<open>Clock\<close>

type_synonym system_time = int

datatype clock = System | Manual u64

definition system :: clock where
  "system = System"

definition manual :: "u64 \<Rightarrow> clock" where
  "manual initial_ms = Manual initial_ms"

definition clock_default :: clock where
  "clock_default = system"

text \<open>\<open>duration_since(UNIX_EPOCH)\<close> fails before the epoch; \<open>as_millis() as u64\<close> truncates.\<close>

fun now_ms :: "system_time \<Rightarrow> clock \<Rightarrow> u64" where
  "now_ms t System = (if t < 0 then 0 else word_of_int t)"
| "now_ms t (Manual c) = c"

fun advance :: "clock \<Rightarrow> u64 \<Rightarrow> clock" where
  "advance (Manual c) by_ms = Manual (c + by_ms)"
| "advance System by_ms = System"

subsection \<open>Limits\<close>

record limits =
  max_key_size :: usize
  max_value_size :: usize
  max_batch_ops :: usize
  max_scan_limit :: u32

definition default_max_key_size :: usize where
  "default_max_key_size = 4 * 1024"

definition default_max_value_size :: usize where
  "default_max_value_size = 10 * 1024 * 1024"

definition default_max_batch_ops :: usize where
  "default_max_batch_ops = 1000"

definition default_max_scan_limit :: u32 where
  "default_max_scan_limit = 10000"

definition limits_default :: limits where
  "limits_default = \<lparr>max_key_size = default_max_key_size, max_value_size = default_max_value_size,
     max_batch_ops = default_max_batch_ops, max_scan_limit = default_max_scan_limit\<rparr>"

definition limits_validate :: "limits \<Rightarrow> string + unit" where
  "limits_validate l =
     (if max_key_size l = 0 then Inl ''limits.max_key_size must be > 0''
      else if max_value_size l = 0 then Inl ''limits.max_value_size must be > 0''
      else if max_batch_ops l = 0 then Inl ''limits.max_batch_ops must be > 0''
      else if max_scan_limit l = 0 then Inl ''limits.max_scan_limit must be > 0''
      else Inr ())"

section \<open>Lemmas\<close>

lemma limits_validate_Inr_iff:
  "limits_validate l = Inr u \<longleftrightarrow>
     max_key_size l \<noteq> 0 \<and> max_value_size l \<noteq> 0 \<and> max_batch_ops l \<noteq> 0 \<and> max_scan_limit l \<noteq> 0"
  by (simp add: limits_validate_def)

lemma limits_default_valid: "limits_validate limits_default = Inr ()"
  by (simp add: limits_validate_Inr_iff limits_default_def default_max_key_size_def
      default_max_value_size_def default_max_batch_ops_def default_max_scan_limit_def)

lemma now_ms_manual [simp]: "now_ms t (manual c) = c"
  by (simp add: manual_def)

text \<open>The manual clock runs forward until it wraps at \<open>2 ^ 64\<close> milliseconds.\<close>

lemma advance_monotone:
  "unat (now_ms t (Manual c)) + unat by_ms < 2 ^ 64 \<Longrightarrow>
     now_ms t (Manual c) \<le> now_ms t (advance (Manual c) by_ms)"
  by (simp add: word_le_nat_alt unat_word_ariths)

end
