(* ===== verification/Key_Codec.thy ===== *)
theory Key_Codec
  imports Core_Types
begin

text \<open>
  The tenant-prefixed key encoding of \<open>ferriskv-core/src/key.rs\<close>, the scan bound computed from it
  in \<open>ferriskv-node/src/grpc.rs\<close> (\<open>next_prefix_bound\<close>), and the two fuzz targets over it.

  An encoded key is the tenant's length in one byte, the tenant, one subspace byte, and the
  caller's payload. Shown here: the codec is a bijection between its arguments and the keys
  \<open>decode\<close> accepts, the keys of different tenants never overlap, order inside a subspace is the
  order of the payloads, and the half-open range a prefix scan uses holds exactly the keys with
  that prefix.
\<close>

section \<open>Definitions\<close>

datatype subspace = Metadata | Data | Index | Stats

fun subspace_byte :: "subspace \<Rightarrow> u8" where
  "subspace_byte Metadata = 0"
| "subspace_byte Data = 1"
| "subspace_byte Index = 2"
| "subspace_byte Stats = 3"

definition subspace_from_u8 :: "u8 \<Rightarrow> subspace option" where
  "subspace_from_u8 b =
     (if b = 0 then Some Metadata
      else if b = 1 then Some Data
      else if b = 2 then Some Index
      else if b = 3 then Some Stats
      else None)"

definition MAX_TENANT_LEN :: usize where
  "MAX_TENANT_LEN = 255"

definition write_tenant :: "bytes \<Rightarrow> str \<Rightarrow> bytes" where
  "write_tenant out tenant = out @ [word_of_nat (length tenant)] @ tenant"

definition key_encode :: "str \<Rightarrow> subspace \<Rightarrow> bytes \<Rightarrow> bytes result" where
  "key_encode tenant subspace payload =
     (if tenant = [] then Inl (Config ''empty tenant'')
      else if length tenant > MAX_TENANT_LEN then
        Inl (Config (''tenant length '' @ dec (length tenant) @ '' exceeds '' @ dec MAX_TENANT_LEN))
      else
        (let out = write_tenant [] tenant;
             out = out @ [subspace_byte subspace]
         in Inr (out @ payload)))"

definition encode_subspace_prefix :: "str \<Rightarrow> subspace \<Rightarrow> bytes result" where
  "encode_subspace_prefix tenant subspace = key_encode tenant subspace []"

definition encode_tenant_prefix :: "str \<Rightarrow> bytes result" where
  "encode_tenant_prefix tenant =
     (if tenant = [] then Inl (Config ''empty tenant'')
      else if length tenant > MAX_TENANT_LEN then
        Inl (Config (''tenant length '' @ dec (length tenant) @ '' exceeds '' @ dec MAX_TENANT_LEN))
      else Inr (write_tenant [] tenant))"

definition key_decode :: "bytes \<Rightarrow> (str \<times> subspace \<times> bytes) result" where
  "key_decode key =
     (case key of
        [] \<Rightarrow> Inl (Corrupt ''empty key'')
      | first # _ \<Rightarrow>
          (let tlen = unat first in
           if tlen = 0 then Inl (Corrupt ''empty tenant'')
           else if 1 + tlen + 1 > length key then Inl (Corrupt ''truncated key'')
           else
             (let tenant = slice 1 (1 + tlen) key in
              if \<not> utf8_valid tenant then Inl (Corrupt ''tenant utf8'')
              else
                (case subspace_from_u8 (key ! (1 + tlen)) of
                   None \<Rightarrow> Inl (Corrupt ''subspace byte'')
                 | Some sub \<Rightarrow> Inr (tenant, sub, drop (2 + tlen) key)))))"

definition strip_prefix :: "bytes \<Rightarrow> bytes \<Rightarrow> bytes option" where
  "strip_prefix key pre = (if prefix pre key then Some (drop (length pre) key) else None)"

text \<open>
  The loop pops trailing \<open>0xFF\<close> bytes and increments the first other byte it meets. It walks the
  string from its end, so the recursion is on the reversed string.
\<close>

fun next_prefix_bound_rev :: "bytes \<Rightarrow> bytes" where
  "next_prefix_bound_rev [] = []"
| "next_prefix_bound_rev (b # init_rev) =
     (if b = 0xFF then next_prefix_bound_rev init_rev
      else rev init_rev @ [b + 1])"

definition next_prefix_bound :: "bytes \<Rightarrow> bytes" where
  "next_prefix_bound pre = next_prefix_bound_rev (rev pre)"

subsection \<open>Fuzz targets\<close>

text \<open>
  A fuzz target is a check over arbitrary input: it passes when none of its assertions fails.
\<close>

definition fuzz_key_decode :: "bytes \<Rightarrow> bool" where
  "fuzz_key_decode data =
     (case key_decode data of
        Inl _ \<Rightarrow> True
      | Inr (tenant, subspace, payload) \<Rightarrow>
          tenant \<noteq> []
          \<and> length tenant \<le> 255
          \<and> length data = 1 + length tenant + 1 + length payload
          \<and> subspace_from_u8 (subspace_byte subspace) = Some subspace)"

definition fuzz_key_roundtrip :: "bytes \<Rightarrow> bool" where
  "fuzz_key_roundtrip data =
     (case key_decode data of
        Inl _ \<Rightarrow> True
      | Inr (tenant, subspace, payload) \<Rightarrow>
          (case key_encode tenant subspace payload of
             Inl _ \<Rightarrow> False
           | Inr reencoded \<Rightarrow>
               reencoded = data
               \<and> (case encode_tenant_prefix tenant of
                    Inl _ \<Rightarrow> False
                  | Inr pre \<Rightarrow> prefix pre data)))"

subsection \<open>Well-formed tenant names\<close>

text \<open>What \<open>encode\<close> takes: a \<open>str\<close> of 1 to 255 bytes.\<close>

definition tenant_ok :: "str \<Rightarrow> bool" where
  "tenant_ok t \<longleftrightarrow> utf8_valid t \<and> t \<noteq> [] \<and> length t \<le> MAX_TENANT_LEN"

text \<open>The encoded key as a function, on tenant names the codec accepts.\<close>

definition raw_key :: "str \<Rightarrow> subspace \<Rightarrow> bytes \<Rightarrow> bytes" where
  "raw_key t s p = word_of_nat (length t) # t @ subspace_byte s # p"

section \<open>Lemmas\<close>

lemma subspace_from_u8_byte [simp]: "subspace_from_u8 (subspace_byte s) = Some s"
  by (cases s) (simp_all add: subspace_from_u8_def)

lemma subspace_from_u8_Some_iff: "subspace_from_u8 b = Some s \<longleftrightarrow> b = subspace_byte s"
  by (cases s) (auto simp: subspace_from_u8_def split: if_splits)

lemma subspace_byte_inject [simp]: "subspace_byte a = subspace_byte b \<longleftrightarrow> a = b"
  by (metis option.inject subspace_from_u8_byte)

lemma tenant_len_byte [simp]:
  "length t \<le> MAX_TENANT_LEN \<Longrightarrow> unat (word_of_nat (length t) :: u8) = length t"
  by (simp add: MAX_TENANT_LEN_def unat_of_nat)

lemma key_encode_Inr_iff:
  "key_encode t s p = Inr k \<longleftrightarrow> t \<noteq> [] \<and> length t \<le> MAX_TENANT_LEN \<and> k = raw_key t s p"
  by (auto simp: key_encode_def write_tenant_def raw_key_def Let_def)

lemma key_encode_ok: "tenant_ok t \<Longrightarrow> key_encode t s p = Inr (raw_key t s p)"
  by (simp add: key_encode_Inr_iff tenant_ok_def)

lemma encode_tenant_prefix_Inr_iff:
  "encode_tenant_prefix t = Inr p \<longleftrightarrow>
     t \<noteq> [] \<and> length t \<le> MAX_TENANT_LEN \<and> p = word_of_nat (length t) # t"
  by (auto simp: encode_tenant_prefix_def write_tenant_def)

lemma key_decode_raw_key [simp, codec_simps]:
  "tenant_ok t \<Longrightarrow> key_decode (raw_key t s p) = Inr (t, s, p)"
  by (auto simp: key_decode_def raw_key_def tenant_ok_def Let_def slice_def nth_append)

lemma key_decode_Inr_iff:
  "key_decode k = Inr (t, s, p) \<longleftrightarrow> tenant_ok t \<and> k = raw_key t s p"
proof
  assume d: "key_decode k = Inr (t, s, p)"
  then obtain b r where k: "k = b # r" and b: "unat b \<noteq> 0" and len: "unat b < length r"
    and t: "t = take (unat b) r" and u: "utf8_valid t"
    and s: "subspace_from_u8 (r ! unat b) = Some s" and p: "p = drop (Suc (unat b)) r"
    by (auto simp: key_decode_def Let_def slice_def not_less Suc_le_eq
        split: list.splits if_splits option.splits)
  from t len have lt: "length t = unat b" by simp
  have "length t \<le> MAX_TENANT_LEN"
    using unat_u8_less [of b] by (simp add: lt MAX_TENANT_LEN_def)
  moreover have "r = t @ subspace_byte s # p"
    using t s p id_take_nth_drop [OF len] by (simp add: subspace_from_u8_Some_iff)
  moreover have "t \<noteq> []" using lt b by auto
  ultimately show "tenant_ok t \<and> k = raw_key t s p"
    using u k lt by (simp add: tenant_ok_def raw_key_def)
next
  assume "tenant_ok t \<and> k = raw_key t s p"
  then show "key_decode k = Inr (t, s, p)" by simp
qed

interpretation kc: codec "\<lambda>(t, s, p). raw_key t s p" key_decode "\<lambda>(t, s, p). tenant_ok t"
  by unfold_locales (auto simp: key_decode_Inr_iff)

lemma raw_key_inject [simp]:
  assumes "tenant_ok t" and "tenant_ok t'"
  shows "raw_key t s p = raw_key t' s' p' \<longleftrightarrow> t = t' \<and> s = s' \<and> p = p'"
  using kc.enc_inject [of "(t, s, p)" "(t', s', p')"] assms by simp

lemma raw_key_append: "raw_key t s (p @ q) = raw_key t s p @ q"
  by (simp add: raw_key_def)

lemma raw_key_order [simp]:
  "raw_key t s p < raw_key t s q \<longleftrightarrow> p < q" "raw_key t s p \<le> raw_key t s q \<longleftrightarrow> p \<le> q"
  by (simp_all add: raw_key_def)

subsection \<open>Tenant prefixes\<close>

lemma tenant_prefix_iff:
  assumes "tenant_ok t" and "tenant_ok t'"
  shows "prefix (word_of_nat (length t) # t) (raw_key t' s p) \<longleftrightarrow> t = t'"
proof
  assume "prefix (word_of_nat (length t) # t) (raw_key t' s p)"
  then have len: "(word_of_nat (length t) :: u8) = word_of_nat (length t')"
    and pre: "prefix t (t' @ subspace_byte s # p)"
    by (simp_all add: raw_key_def)
  from len assms have "length t = length t'"
    by (metis tenant_len_byte tenant_ok_def)
  with pre show "t = t'"
    by (metis append_eq_append_conv prefix_def)
next
  assume "t = t'"
  then show "prefix (word_of_nat (length t) # t) (raw_key t' s p)"
    by (simp add: raw_key_def)
qed

subsection \<open>Scan bounds\<close>

lemma next_prefix_bound_snoc:
  "next_prefix_bound (p @ [b]) = (if b = 0xFF then next_prefix_bound p else p @ [b + 1])"
  by (simp add: next_prefix_bound_def)

lemma u8_successor:
  fixes b :: u8
  assumes "b \<noteq> 0xFF"
  shows "b < b + 1" and "b < x \<Longrightarrow> b + 1 \<le> x"
proof -
  have n: "unat b \<noteq> 255"
    using assms by (simp add: word_unat_eq_iff)
  then show "b < b + 1" and "b < x \<Longrightarrow> b + 1 \<le> x"
    using unat_u8_less [of b] by (auto simp: word_less_nat_alt word_le_nat_alt unat_word_ariths)
qed

lemma u8_max [simp]: "(b :: u8) \<le> 0xFF"
  using unat_u8_less [of b] by (simp add: word_le_nat_alt)

lemma ff_le_iff: "[0xFF] \<le> (r :: bytes) \<longleftrightarrow> (\<exists>r'. r = 0xFF # r')"
  using u8_max by (cases r) (auto simp: not_less antisym)

text \<open>
  The half-open range from a prefix to its bound holds exactly the keys with that prefix, as soon
  as some byte of the prefix is not \<open>0xFF\<close>.
\<close>

lemma next_prefix_bound_iff:
  "\<exists>b\<in>set p. b \<noteq> 0xFF \<Longrightarrow> p \<le> k \<and> k < next_prefix_bound p \<longleftrightarrow> prefix p k"
proof (induction p rule: rev_induct)
  case Nil
  then show ?case by simp
next
  case (snoc b p)
  show ?case
  proof (cases "b = 0xFF")
    case False
    then show ?thesis
      using between_successor_iff [of b "b + 1" p k] u8_successor [of b]
      by (simp add: next_prefix_bound_snoc)
  next
    case True
    with snoc.prems have ex: "\<exists>b\<in>set p. b \<noteq> 0xFF" by auto
    have "p @ [0xFF] \<le> k \<and> prefix p k \<longleftrightarrow> prefix (p @ [0xFF]) k"
      by (auto simp: prefix_def ff_le_iff)
    moreover have "p \<le> k" if "p @ [0xFF] \<le> k"
      using that le_append order_trans by blast
    moreover have "p @ [0xFF] \<le> k" if "prefix (p @ [0xFF]) k"
      using that by (rule prefix_imp_le)
    ultimately show ?thesis
      using snoc.IH [OF ex] True by (auto simp: next_prefix_bound_snoc dest: append_prefixD)
  qed
qed

section \<open>Properties\<close>

text \<open>
  \<open>encode\<close> and \<open>decode\<close> are inverse to each other: \<open>decode\<close> returns a tenant, a subspace and a
  payload exactly for the key \<open>encode\<close> makes of them. Neither loses anything, and no other byte
  string is accepted as a key.
\<close>

theorem key_codec_inverse:
  "key_decode k = Inr (t, s, p) \<longleftrightarrow> utf8_valid t \<and> key_encode t s p = Inr k"
  by (auto simp: key_decode_Inr_iff key_encode_Inr_iff tenant_ok_def)

text \<open>
  C30: keys of different tenants never overlap: the prefix of a tenant is a prefix of a key exactly
  when the key is that tenant's, whatever its subspace and payload. One tenant's name being a
  prefix of another's makes no difference.
\<close>

theorem key_tenant_isolation:
  assumes "utf8_valid t" and "utf8_valid t'"
    and "encode_tenant_prefix t = Inr pre" and "key_encode t' s p = Inr k"
  shows "prefix pre k \<longleftrightarrow> t = t'"
  using assms tenant_prefix_iff [of t t' s p]
  by (auto simp: encode_tenant_prefix_Inr_iff key_encode_Inr_iff tenant_ok_def)

theorem key_tenant_isolation_witness:
  "encode_tenant_prefix [0x61] = Inr [1, 0x61] \<and> key_encode [0x61, 0x62] Data [9] = Inr [2, 0x61, 0x62, 1, 9]
     \<and> \<not> prefix [1, 0x61] [2, 0x61, 0x62, 1, 9 :: u8]"
proof -
  have e: "encode_tenant_prefix [0x61] = Inr [1, 0x61]"
    "key_encode [0x61, 0x62] Data [9] = Inr [2, 0x61, 0x62, 1, 9]"
    by (simp_all add: encode_tenant_prefix_def key_encode_def write_tenant_def MAX_TENANT_LEN_def)
  then show ?thesis
    using key_tenant_isolation [OF _ _ e] by simp
qed

text \<open>
  The assertions of the fuzz targets \<open>key_decode\<close> and \<open>key_roundtrip\<close> hold of every input.
\<close>

theorem key_fuzz_targets_pass: "fuzz_key_decode data \<and> fuzz_key_roundtrip data"
proof (cases "key_decode data")
  case (Inl e)
  then show ?thesis by (simp add: fuzz_key_decode_def fuzz_key_roundtrip_def)
next
  case (Inr d)
  then obtain t s p where d: "key_decode data = Inr (t, s, p)" by (cases d) auto
  then have t: "tenant_ok t" and k: "data = raw_key t s p" by (simp_all add: key_decode_Inr_iff)
  then have "encode_tenant_prefix t = Inr (word_of_nat (length t) # t)"
    by (simp add: encode_tenant_prefix_Inr_iff tenant_ok_def)
  with d t k show ?thesis
    by (simp add: fuzz_key_decode_def fuzz_key_roundtrip_def key_encode_ok tenant_prefix_iff)
      (simp add: tenant_ok_def MAX_TENANT_LEN_def raw_key_def)
qed

text \<open>
  Inside a subspace of a tenant, encoded keys compare as their payloads do, and every key
  strictly between two of them is in that subspace too, so a range of encoded keys is a range of
  the tenant's keys.
\<close>

theorem key_order_preserved:
  assumes "key_encode t s p = Inr k" and "key_encode t s q = Inr k'"
  shows "(k < k' \<longleftrightarrow> p < q) \<and> (k \<le> x \<and> x \<le> k' \<longrightarrow> (\<exists>r. key_encode t s r = Inr x))"
proof -
  let ?h = "word_of_nat (length t) # t @ [subspace_byte s]"
  have k: "k = ?h @ p" "k' = ?h @ q" and t: "t \<noteq> []" "length t \<le> MAX_TENANT_LEN"
    using assms by (auto simp: key_encode_Inr_iff raw_key_def)
  have "\<exists>r. x = ?h @ r" if "k \<le> x" "x \<le> k'"
    using that between_common_prefix [of ?h p x q] by (simp only: k)
  then show ?thesis
    using t by (auto simp: k key_encode_Inr_iff raw_key_def)
qed

end
