(* ===== verification/Value_Codec.thy ===== *)
theory Value_Codec
  imports Core_Types
begin

text \<open>
  The stored-value framing of \<open>ferriskv-core/src/value.rs\<close>: a version byte, for version 1 an expiry
  stamp of eight big-endian bytes, then the caller's value. Besides \<open>decode\<close> the source has two
  parsers of the same header, \<open>payload_len\<close> and \<open>is_expired\<close>; they are shown to agree with it,
  which is what the fuzz target \<open>value_decode.rs\<close> checks by sampling.
\<close>

section \<open>Definitions\<close>

definition VERSION_NO_TTL :: u8 where
  "VERSION_NO_TTL = 0"

definition VERSION_WITH_TTL :: u8 where
  "VERSION_WITH_TTL = 1"

record stored_value =
  expires_at_ms :: "u64 option"
  sv_value :: bytes

definition value_encode :: "bytes \<Rightarrow> u64 option \<Rightarrow> bytes" where
  "value_encode v expires_at =
     (case expires_at of
        None \<Rightarrow> [VERSION_NO_TTL] @ v
      | Some e \<Rightarrow> [VERSION_WITH_TTL] @ to_be_bytes e @ v)"

definition value_decode :: "bytes \<Rightarrow> stored_value result" where
  "value_decode raw =
     (if raw = [] then Inl (Corrupt ''empty value'')
      else if raw ! 0 = VERSION_NO_TTL then
        Inr \<lparr>expires_at_ms = None, sv_value = drop 1 raw\<rparr>
      else if raw ! 0 = VERSION_WITH_TTL then
        (if length raw < 9 then Inl (Corrupt ''ttl value too short'')
         else Inr \<lparr>expires_at_ms = Some (from_be_bytes (slice 1 9 raw)), sv_value = drop 9 raw\<rparr>)
      else Inl (Corrupt ''unknown value version''))"

definition payload_len :: "bytes \<Rightarrow> usize result" where
  "payload_len raw =
     (if raw = [] then Inl (Corrupt ''empty value'')
      else if raw ! 0 = VERSION_NO_TTL then Inr (length raw - 1)
      else if raw ! 0 = VERSION_WITH_TTL then
        (if length raw < 9 then Inl (Corrupt ''ttl value too short'')
         else Inr (length raw - 9))
      else Inl (Corrupt ''unknown value version''))"

definition is_expired :: "bytes \<Rightarrow> u64 \<Rightarrow> bool result" where
  "is_expired raw now =
     (if raw = [] then Inl (Corrupt ''empty value'')
      else if raw ! 0 = VERSION_NO_TTL then Inr False
      else if raw ! 0 = VERSION_WITH_TTL then
        (if length raw < 9 then Inl (Corrupt ''ttl value too short'')
         else Inr (from_be_bytes (slice 1 9 raw) \<le> now))
      else Inl (Corrupt ''unknown value version''))"

subsection \<open>Fuzz target\<close>

definition fuzz_value_decode :: "bytes \<Rightarrow> bool" where
  "fuzz_value_decode data =
     (let decoded = value_decode data in
      list_all (\<lambda>now.
        (case (decoded, is_expired data now) of
           (Inr v, Inr expired) \<Rightarrow>
             expired = (case expires_at_ms v of None \<Rightarrow> False | Some e \<Rightarrow> e \<le> now)
         | (Inl _, Inl _) \<Rightarrow> True
         | _ \<Rightarrow> False)) [0, 1, - 1 div 2, - 1]
      \<and> (case decoded of
           Inl _ \<Rightarrow> True
         | Inr v \<Rightarrow> value_encode (sv_value v) (expires_at_ms v) = data))"

section \<open>Lemmas\<close>

lemmas value_versions = VERSION_NO_TTL_def VERSION_WITH_TTL_def

lemma value_decode_encode [simp, codec_simps]:
  "value_decode (value_encode v e) = Inr \<lparr>expires_at_ms = e, sv_value = v\<rparr>"
  by (simp add: value_decode_def value_encode_def value_versions slice_def from_to_be_bytes
      split: option.split)

lemma payload_len_decode:
  "payload_len raw = map_sum id (\<lambda>v. length (sv_value v)) (value_decode raw)"
  by (simp add: payload_len_def value_decode_def)

lemma is_expired_decode:
  "is_expired raw now =
     map_sum id (\<lambda>v. case expires_at_ms v of None \<Rightarrow> False | Some e \<Rightarrow> e \<le> now) (value_decode raw)"
  by (simp add: is_expired_def value_decode_def)

lemma value_encode_decode [codec_simps]:
  assumes "value_decode raw = Inr v"
  shows "value_encode (sv_value v) (expires_at_ms v) = raw"
proof (cases "raw ! 0 = VERSION_NO_TTL")
  case True
  with assms show ?thesis
    by (cases raw) (auto simp: value_decode_def value_encode_def)
next
  case False
  with assms have len: "9 \<le> length raw" and v1: "raw ! 0 = VERSION_WITH_TTL"
    and v: "v = \<lparr>expires_at_ms = Some (from_be_bytes (slice 1 9 raw)), sv_value = drop 9 raw\<rparr>"
    by (auto simp: value_decode_def not_less split: if_splits)
  have "raw = take 1 raw @ slice 1 9 raw @ drop 9 raw"
    by (metis append.assoc append_take_drop_id one_le_numeral take_slice_append)
  moreover have "take 1 raw = [VERSION_WITH_TTL]"
    using len v1 by (cases raw) auto
  ultimately show ?thesis
    using len by (simp add: v value_encode_def to_from_be_bytes)
qed

interpretation vc: codec "\<lambda>v. value_encode (sv_value v) (expires_at_ms v)" value_decode "\<lambda>_. True"
proof unfold_locales
  show "value_decode b = Inr a \<longleftrightarrow> True \<and> b = value_encode (sv_value a) (expires_at_ms a)" for b a
    using value_encode_decode [of b a] by auto
qed

lemma payload_len_encode [simp]: "payload_len (value_encode v e) = Inr (length v)"
  by (simp add: payload_len_decode)

lemma is_expired_encode [simp]:
  "is_expired (value_encode v e) now = Inr (case e of None \<Rightarrow> False | Some x \<Rightarrow> x \<le> now)"
  by (simp add: is_expired_decode)

lemma length_value_encode:
  "length (value_encode v e) = length v + (case e of None \<Rightarrow> 1 | Some _ \<Rightarrow> 9)"
  by (simp add: value_encode_def split: option.split)

section \<open>Properties\<close>

text \<open>
  The value codec is a bijection between values with an optional expiry and the byte strings
  \<open>decode\<close> accepts, so a stored value comes back byte for byte, stamp included.
\<close>

theorem value_codec_inverse:
  "value_decode raw = Inr \<lparr>expires_at_ms = e, sv_value = v\<rparr> \<longleftrightarrow> raw = value_encode v e"
  using vc.dec_iff [of raw "\<lparr>expires_at_ms = e, sv_value = v\<rparr>"] by simp

text \<open>
  The two parsers that read only part of a stored value agree with \<open>decode\<close> on every input,
  malformed ones included: \<open>payload_len\<close> returns the length of the value \<open>decode\<close> returns,
  \<open>is_expired\<close> the verdict on its stamp, and both fail as \<open>decode\<close> does. The assertions of the
  fuzz target \<open>value_decode\<close> therefore hold of every input.
\<close>

theorem value_parsers_agree:
  "payload_len raw = map_sum id (\<lambda>v. length (sv_value v)) (value_decode raw)
   \<and> is_expired raw now = map_sum id (\<lambda>v. \<exists>e. expires_at_ms v = Some e \<and> e \<le> now) (value_decode raw)
   \<and> fuzz_value_decode raw"
proof -
  have "(\<lambda>v. case expires_at_ms v of None \<Rightarrow> False | Some e \<Rightarrow> e \<le> now)
      = (\<lambda>v :: stored_value. \<exists>e. expires_at_ms v = Some e \<and> e \<le> now)"
    by (auto split: option.split)
  moreover have "fuzz_value_decode raw"
    by (cases "value_decode raw")
      (simp_all add: fuzz_value_decode_def is_expired_decode value_encode_decode Let_def)
  ultimately show ?thesis by (simp add: payload_len_decode is_expired_decode)
qed

end
