(* ===== verification/Storage_Backend.thy ===== *)
theory Storage_Backend
  imports Core_Types
begin

text \<open>
  The storage layer of \<open>ferriskv-core/src/storage.rs\<close>: the in-memory backend over a \<open>DashMap\<close>, the
  durable backend over the \<open>fjall\<close> crate, and the enum that dispatches between them.

  \<open>fjall\<close> is third-party code: its operations are the fields of the record \<open>fjall_api\<close>, an
  argument of every definition that reaches it, over a state type \<open>'f\<close> that stands for a keyspace
  and its partition. The predicate \<open>fjall_ok\<close> names what the node relies on, as \<open>fjall\<close> documents
  it; \<open>fjall_durable\<close> adds what survives a crash. Any operation may return an error: a failed write
  may or may not have taken effect, and touches no other key.

  The trait \<open>Storage\<close> is the locale \<open>storage\<close>: the laws every backend keeps, over the map it stands
  for. It is interpreted for \<open>MemStorage\<close>, and shown to hold of \<open>StorageBackend\<close> over any \<open>fjall\<close>
  that keeps its documentation.
\<close>

section \<open>Definitions\<close>

subsection \<open>MemStorage\<close>

record mem_storage =
  inner :: "(bytes, bytes) dashmap"

definition mem_new :: mem_storage where
  "mem_new = \<lparr>inner = []\<rparr>"

definition mem_get :: "mem_storage \<Rightarrow> bytes \<Rightarrow> bytes option result" where
  "mem_get s key = Inr (dm_get (inner s) key)"

definition mem_put :: "mem_storage \<Rightarrow> bytes \<Rightarrow> bytes \<Rightarrow> unit result \<times> mem_storage" where
  "mem_put s key v = (Inr (), s\<lparr>inner := dm_insert key v (inner s)\<rparr>)"

definition mem_delete :: "mem_storage \<Rightarrow> bytes \<Rightarrow> unit result \<times> mem_storage" where
  "mem_delete s key = (Inr (), s\<lparr>inner := dm_remove key (inner s)\<rparr>)"

text \<open>The loop collects matching entries in iteration order; the sort is by key.\<close>

definition mem_scan :: "mem_storage \<Rightarrow> bytes \<Rightarrow> (bytes \<times> bytes) list result" where
  "mem_scan s pre = Inr (sort_key fst (filter (\<lambda>(k, _). prefix pre k) (inner s)))"

definition mem_scan_range :: "mem_storage \<Rightarrow> bytes \<Rightarrow> bytes \<Rightarrow> (bytes \<times> bytes) list result" where
  "mem_scan_range s start stop =
     Inr (sort_key fst (filter (\<lambda>(k, _). k \<ge> start \<and> k < stop) (inner s)))"

definition mem_flush :: "mem_storage \<Rightarrow> unit result \<times> mem_storage" where
  "mem_flush s = (Inr (), s)"

subsection \<open>FjallStorage\<close>

text \<open>
  The calls the source makes into \<open>fjall\<close>. An iterator yields a result per entry; \<open>fj_open\<close> opens
  the keyspace and its partition over the files an earlier handle left behind.
\<close>

record 'f fjall_api =
  fj_open :: "'f \<Rightarrow> fjall_error + 'f"
  fj_get :: "'f \<Rightarrow> bytes \<Rightarrow> fjall_error + bytes option"
  fj_insert :: "'f \<Rightarrow> bytes \<Rightarrow> bytes \<Rightarrow> (fjall_error + unit) \<times> 'f"
  fj_remove :: "'f \<Rightarrow> bytes \<Rightarrow> (fjall_error + unit) \<times> 'f"
  fj_prefix :: "'f \<Rightarrow> bytes \<Rightarrow> (fjall_error + bytes \<times> bytes) list"
  fj_range :: "'f \<Rightarrow> bytes \<Rightarrow> bytes \<Rightarrow> (fjall_error + bytes \<times> bytes) list"
  fj_persist :: "'f \<Rightarrow> (fjall_error + unit) \<times> 'f"

text \<open>\<open>?\<close> on a \<open>fjall\<close> result: the error is wrapped by \<open>From\<close>.\<close>

definition from_fjall :: "fjall_error + 'a \<Rightarrow> 'a result" where
  "from_fjall r = map_sum Storage id r"

text \<open>\<open>FjallStorage::open\<close>; the directory is created first, which may fail.\<close>

definition fjall_open :: "'f fjall_api \<Rightarrow> io_error option \<Rightarrow> 'f \<Rightarrow> 'f result" where
  "fjall_open F mkdir files =
     (case mkdir of Some e \<Rightarrow> Inl (Io e) | None \<Rightarrow> from_fjall (fj_open F files))"

definition fjall_get :: "'f fjall_api \<Rightarrow> 'f \<Rightarrow> bytes \<Rightarrow> bytes option result" where
  "fjall_get F s key = from_fjall (fj_get F s key)"

definition fjall_put :: "'f fjall_api \<Rightarrow> 'f \<Rightarrow> bytes \<Rightarrow> bytes \<Rightarrow> unit result \<times> 'f" where
  "fjall_put F s key v = (case fj_insert F s key v of (r, s') \<Rightarrow> (from_fjall r, s'))"

definition fjall_delete :: "'f fjall_api \<Rightarrow> 'f \<Rightarrow> bytes \<Rightarrow> unit result \<times> 'f" where
  "fjall_delete F s key = (case fj_remove F s key of (r, s') \<Rightarrow> (from_fjall r, s'))"

text \<open>The loop pushes entries until the iterator is exhausted or yields an error.\<close>

fun collect :: "(fjall_error + 'a) list \<Rightarrow> 'a list \<Rightarrow> 'a list result" where
  "collect [] out = Inr out"
| "collect (kv # kvs) out =
     (case kv of Inl e \<Rightarrow> Inl (Storage e) | Inr x \<Rightarrow> collect kvs (out @ [x]))"

definition fjall_scan :: "'f fjall_api \<Rightarrow> 'f \<Rightarrow> bytes \<Rightarrow> (bytes \<times> bytes) list result" where
  "fjall_scan F s pre = collect (fj_prefix F s pre) []"

definition fjall_scan_range ::
    "'f fjall_api \<Rightarrow> 'f \<Rightarrow> bytes \<Rightarrow> bytes \<Rightarrow> (bytes \<times> bytes) list result" where
  "fjall_scan_range F s start stop = collect (fj_range F s start stop) []"

definition fjall_flush :: "'f fjall_api \<Rightarrow> 'f \<Rightarrow> unit result \<times> 'f" where
  "fjall_flush F s = (case fj_persist F s of (r, s') \<Rightarrow> (from_fjall r, s'))"

subsection \<open>StorageBackend\<close>

datatype 'f storage_backend = Memory mem_storage | Fjall 'f

fun backend_get :: "'f fjall_api \<Rightarrow> 'f storage_backend \<Rightarrow> bytes \<Rightarrow> bytes option result" where
  "backend_get F (Memory s) key = mem_get s key"
| "backend_get F (Fjall s) key = fjall_get F s key"

fun backend_put ::
    "'f fjall_api \<Rightarrow> 'f storage_backend \<Rightarrow> bytes \<Rightarrow> bytes \<Rightarrow> unit result \<times> 'f storage_backend" where
  "backend_put F (Memory s) key v = map_prod id Memory (mem_put s key v)"
| "backend_put F (Fjall s) key v = map_prod id Fjall (fjall_put F s key v)"

fun backend_delete ::
    "'f fjall_api \<Rightarrow> 'f storage_backend \<Rightarrow> bytes \<Rightarrow> unit result \<times> 'f storage_backend" where
  "backend_delete F (Memory s) key = map_prod id Memory (mem_delete s key)"
| "backend_delete F (Fjall s) key = map_prod id Fjall (fjall_delete F s key)"

fun backend_scan ::
    "'f fjall_api \<Rightarrow> 'f storage_backend \<Rightarrow> bytes \<Rightarrow> (bytes \<times> bytes) list result" where
  "backend_scan F (Memory s) pre = mem_scan s pre"
| "backend_scan F (Fjall s) pre = fjall_scan F s pre"

fun backend_scan_range ::
    "'f fjall_api \<Rightarrow> 'f storage_backend \<Rightarrow> bytes \<Rightarrow> bytes \<Rightarrow> (bytes \<times> bytes) list result" where
  "backend_scan_range F (Memory s) start stop = mem_scan_range s start stop"
| "backend_scan_range F (Fjall s) start stop = fjall_scan_range F s start stop"

fun backend_flush :: "'f fjall_api \<Rightarrow> 'f storage_backend \<Rightarrow> unit result \<times> 'f storage_backend" where
  "backend_flush F (Memory s) = map_prod id Memory (mem_flush s)"
| "backend_flush F (Fjall s) = map_prod id Fjall (fjall_flush F s)"

fun is_durable :: "'f storage_backend \<Rightarrow> bool" where
  "is_durable (Memory _) = False"
| "is_durable (Fjall _) = True"

definition require_key :: "'f fjall_api \<Rightarrow> 'f storage_backend \<Rightarrow> bytes \<Rightarrow> bytes result" where
  "require_key F s key =
     (case backend_get F s key of
        Inl e \<Rightarrow> Inl e
      | Inr (Some v) \<Rightarrow> Inr v
      | Inr None \<Rightarrow> Inl (NotFound key))"

subsection \<open>What a backend stands for\<close>

definition mem_view :: "mem_storage \<Rightarrow> (bytes \<rightharpoonup> bytes)" where
  "mem_view s = dm_get (inner s)"

definition mem_wf :: "mem_storage \<Rightarrow> bool" where
  "mem_wf s \<longleftrightarrow> dm_wf (inner s)"

fun backend_view :: "('f \<Rightarrow> (bytes \<rightharpoonup> bytes)) \<Rightarrow> 'f storage_backend \<Rightarrow> (bytes \<rightharpoonup> bytes)" where
  "backend_view fv (Memory s) = mem_view s"
| "backend_view fv (Fjall s) = fv s"

fun backend_wf :: "('f \<Rightarrow> bool) \<Rightarrow> 'f storage_backend \<Rightarrow> bool" where
  "backend_wf fi (Memory s) = mem_wf s"
| "backend_wf fi (Fjall s) = fi s"

text \<open>
  A scan result lists exactly the entries of \<open>m\<close> that satisfy \<open>P\<close>, by increasing key.
\<close>

definition lists_entries :: "(bytes \<rightharpoonup> bytes) \<Rightarrow> (bytes \<Rightarrow> bool) \<Rightarrow> (bytes \<times> bytes) list \<Rightarrow> bool" where
  "lists_entries m P xs \<longleftrightarrow> ordered_entries xs \<and> set xs = {(k, v). m k = Some v \<and> P k}"

text \<open>
  What \<open>fjall\<close> documents, for states \<open>fi\<close> holds of and the map \<open>fv\<close> they stand for: a successful
  write is visible to every later read, a read returns what the last write left, iterators yield
  the entries of a prefix or a half-open range by increasing key, persisting changes nothing.
\<close>

definition fjall_ok :: "'f fjall_api \<Rightarrow> ('f \<Rightarrow> (bytes \<rightharpoonup> bytes)) \<Rightarrow> ('f \<Rightarrow> bool) \<Rightarrow> bool" where
  "fjall_ok F fv fi \<longleftrightarrow>
     (\<forall>s. fi s \<longrightarrow> finite (dom (fv s)))
     \<and> (\<forall>s k r. fi s \<longrightarrow> fj_get F s k = Inr r \<longrightarrow> r = fv s k)
     \<and> (\<forall>s k v r s'. fi s \<longrightarrow> fj_insert F s k v = (r, s') \<longrightarrow>
           fi s' \<and> (fv s' = (fv s)(k \<mapsto> v) \<or> fv s' = fv s \<and> r \<noteq> Inr ()))
     \<and> (\<forall>s k r s'. fi s \<longrightarrow> fj_remove F s k = (r, s') \<longrightarrow>
           fi s' \<and> (fv s' = (fv s)(k := None) \<or> fv s' = fv s \<and> r \<noteq> Inr ()))
     \<and> (\<forall>s p xs. fi s \<longrightarrow> fj_prefix F s p = map Inr xs \<longrightarrow> lists_entries (fv s) (prefix p) xs)
     \<and> (\<forall>s a b xs. fi s \<longrightarrow> fj_range F s a b = map Inr xs \<longrightarrow>
           lists_entries (fv s) (\<lambda>k. a \<le> k \<and> k < b) xs)
     \<and> (\<forall>s r s'. fi s \<longrightarrow> fj_persist F s = (r, s') \<longrightarrow> fi s' \<and> fv s' = fv s)"

text \<open>
  What survives a crash: \<open>fd\<close> is the map as of the last successful persist and \<open>ft\<close> the keys written
  since. Opening the files again finds every other key as it was persisted; of a key written since,
  nothing is known.
\<close>

definition fjall_durable ::
    "'f fjall_api \<Rightarrow> ('f \<Rightarrow> (bytes \<rightharpoonup> bytes)) \<Rightarrow> ('f \<Rightarrow> bool) \<Rightarrow> ('f \<Rightarrow> (bytes \<rightharpoonup> bytes)) \<Rightarrow>
     ('f \<Rightarrow> bytes set) \<Rightarrow> bool" where
  "fjall_durable F fv fi fd ft \<longleftrightarrow>
     (\<forall>s k v. fi s \<longrightarrow> fd (snd (fj_insert F s k v)) = fd s \<and> ft (snd (fj_insert F s k v)) = insert k (ft s))
     \<and> (\<forall>s k. fi s \<longrightarrow> fd (snd (fj_remove F s k)) = fd s \<and> ft (snd (fj_remove F s k)) = insert k (ft s))
     \<and> (\<forall>s s'. fi s \<longrightarrow> fj_persist F s = (Inr (), s') \<longrightarrow> fd s' = fv s \<and> ft s' = {})
     \<and> (\<forall>s e s'. fi s \<longrightarrow> fj_persist F s = (Inl e, s') \<longrightarrow> fd s' = fd s \<and> ft s' = ft s)
     \<and> (\<forall>s s'. fi s \<longrightarrow> fj_open F s = Inr s' \<longrightarrow>
           fi s' \<and> fd s' = fd s \<and> ft s' = ft s \<and> (\<forall>k. k \<notin> ft s \<longrightarrow> fv s' k = fd s k))"

text \<open>
  A \<open>fjall\<close> that keeps this documentation and forgets as much as it may: opening it again goes back
  to the last persisted map. It shows that the hypotheses can hold.
\<close>

record ref_fjall =
  live :: "(bytes, bytes) dashmap"
  synced :: "(bytes, bytes) dashmap"
  dirty :: "bytes list"

definition ref_empty :: ref_fjall where
  "ref_empty = \<lparr>live = [], synced = [], dirty = []\<rparr>"

definition fjall_reference :: "ref_fjall fjall_api" where
  "fjall_reference =
     \<lparr>fj_open = (\<lambda>s. Inr (s\<lparr>live := synced s\<rparr>)),
      fj_get = (\<lambda>s k. Inr (dm_get (live s) k)),
      fj_insert = (\<lambda>s k v. (Inr (), s\<lparr>live := dm_insert k v (live s), dirty := k # dirty s\<rparr>)),
      fj_remove = (\<lambda>s k. (Inr (), s\<lparr>live := dm_remove k (live s), dirty := k # dirty s\<rparr>)),
      fj_prefix = (\<lambda>s p. map Inr (sort_key fst (filter (\<lambda>(k, _). prefix p k) (live s)))),
      fj_range = (\<lambda>s a b. map Inr (sort_key fst (filter (\<lambda>(k, _). a \<le> k \<and> k < b) (live s)))),
      fj_persist = (\<lambda>s. (Inr (), s\<lparr>synced := live s, dirty := []\<rparr>))\<rparr>"

definition ref_view :: "ref_fjall \<Rightarrow> (bytes \<rightharpoonup> bytes)" where
  "ref_view s = dm_get (live s)"

definition ref_wf :: "ref_fjall \<Rightarrow> bool" where
  "ref_wf s \<longleftrightarrow> dm_wf (live s) \<and> dm_wf (synced s)"

section \<open>The Storage trait\<close>

locale storage =
  fixes get :: "'s \<Rightarrow> bytes \<Rightarrow> bytes option result"
    and put :: "'s \<Rightarrow> bytes \<Rightarrow> bytes \<Rightarrow> unit result \<times> 's"
    and delete :: "'s \<Rightarrow> bytes \<Rightarrow> unit result \<times> 's"
    and scan :: "'s \<Rightarrow> bytes \<Rightarrow> (bytes \<times> bytes) list result"
    and scan_range :: "'s \<Rightarrow> bytes \<Rightarrow> bytes \<Rightarrow> (bytes \<times> bytes) list result"
    and flush :: "'s \<Rightarrow> unit result \<times> 's"
    and view :: "'s \<Rightarrow> (bytes \<rightharpoonup> bytes)"
    and wf :: "'s \<Rightarrow> bool"
  assumes finite_view: "wf s \<Longrightarrow> finite (dom (view s))"
    and get_view: "wf s \<Longrightarrow> get s k = Inr r \<Longrightarrow> r = view s k"
    and put_any: "wf s \<Longrightarrow> put s k v = (q, s') \<Longrightarrow>
      wf s' \<and> (view s' = (view s)(k \<mapsto> v) \<or> view s' = view s \<and> q \<noteq> Inr ())"
    and delete_any: "wf s \<Longrightarrow> delete s k = (q, s') \<Longrightarrow>
      wf s' \<and> (view s' = (view s)(k := None) \<or> view s' = view s \<and> q \<noteq> Inr ())"
    and scan_lists: "wf s \<Longrightarrow> scan s p = Inr xs \<Longrightarrow> lists_entries (view s) (prefix p) xs"
    and scan_range_lists:
      "wf s \<Longrightarrow> scan_range s a b = Inr xs \<Longrightarrow> lists_entries (view s) (\<lambda>k. a \<le> k \<and> k < b) xs"
    and flush_view: "wf s \<Longrightarrow> flush s = (q, s') \<Longrightarrow> wf s' \<and> view s' = view s"
begin

lemma put_view: "wf s \<Longrightarrow> put s k v = (Inr (), s') \<Longrightarrow> wf s' \<and> view s' = (view s)(k \<mapsto> v)"
  using put_any [of s k v "Inr ()" s'] by auto

lemma delete_view: "wf s \<Longrightarrow> delete s k = (Inr (), s') \<Longrightarrow> wf s' \<and> view s' = (view s)(k := None)"
  using delete_any [of s k "Inr ()" s'] by auto

lemma get_after_put:
  "wf s \<Longrightarrow> put s k v = (Inr (), s') \<Longrightarrow> get s' k' = Inr r \<Longrightarrow>
     r = (if k' = k then Some v else view s k')"
  using put_view [of s k v s'] get_view [of s' k' r] by auto

lemma get_after_delete:
  "wf s \<Longrightarrow> delete s k = (Inr (), s') \<Longrightarrow> get s' k' = Inr r \<Longrightarrow>
     r = (if k' = k then None else view s k')"
  using delete_view [of s k s'] get_view [of s' k' r] by auto

text \<open>A prefix scan is the range scan between two bounds that enclose exactly the prefix.\<close>

lemma scan_range_eq_scan:
  assumes "wf s" and "\<And>k. a \<le> k \<and> k < b \<longleftrightarrow> prefix p k"
    and "scan s p = Inr xs" and "scan_range s a b = Inr ys"
  shows "ys = xs"
  using scan_lists [OF assms(1,3)] scan_range_lists [OF assms(1,4)] assms(2)
  by (auto simp: lists_entries_def intro: ordered_entries_unique)

end

section \<open>Lemmas\<close>

lemma mem_put_eq: "mem_put s k v = (r, s') \<longleftrightarrow> r = Inr () \<and> s' = s\<lparr>inner := dm_insert k v (inner s)\<rparr>"
  by (auto simp: mem_put_def)

lemma lists_entries_sort_filter:
  "dm_wf m \<Longrightarrow> lists_entries (dm_get m) P (sort_key fst (filter (\<lambda>(k, _). P k) m))"
  by (auto simp: lists_entries_def dm_get_Some_iff dm_wf_def distinct_map_filter
      intro!: ordered_entries_sort_key)

interpretation mem: storage mem_get mem_put mem_delete mem_scan mem_scan_range mem_flush
  mem_view mem_wf
proof (unfold_locales, goal_cases)
  case (1 s)
  then show ?case by (simp add: mem_view_def)
next
  case (2 s k r)
  then show ?case by (simp add: mem_get_def mem_view_def)
next
  case (3 s k v r s')
  then show ?case by (auto simp: mem_put_eq mem_view_def mem_wf_def dashmap_simps)
next
  case (4 s k r s')
  then show ?case by (auto simp: mem_delete_def mem_view_def mem_wf_def dashmap_simps)
next
  case (5 s p xs)
  then show ?case
    using lists_entries_sort_filter [of "inner s" "prefix p"]
    by (simp add: mem_scan_def mem_view_def mem_wf_def)
next
  case (6 s a b xs)
  then show ?case
    using lists_entries_sort_filter [of "inner s" "\<lambda>k. a \<le> k \<and> k < b"]
    by (simp add: mem_scan_range_def mem_view_def mem_wf_def)
next
  case (7 s r s')
  then show ?case by (simp add: mem_flush_def)
qed

lemma collect_Inr_iff: "collect kvs out = Inr xs \<longleftrightarrow> (\<exists>ys. kvs = map Inr ys \<and> xs = out @ ys)"
proof (induction kvs out rule: collect.induct)
  case (2 kv kvs out)
  then show ?case by (cases kv) (auto simp: Cons_eq_map_conv)
qed auto

lemma map_sum_eq_Inl_iff: "map_sum f g x = Inl e \<longleftrightarrow> (\<exists>a. x = Inl a \<and> e = f a)"
  by (cases x) auto

lemma map_sum_eq_Inr_iff: "map_sum f g x = Inr y \<longleftrightarrow> (\<exists>z. x = Inr z \<and> y = g z)"
  by (cases x) auto

lemma from_fjall_Inr_iff [simp]: "from_fjall r = Inr x \<longleftrightarrow> r = Inr x"
  by (cases r) (auto simp: from_fjall_def)

lemma fjall_okD:
  assumes "fjall_ok F fv fi" and "fi s"
  shows "finite (dom (fv s))"
    and "fj_get F s k = Inr r \<Longrightarrow> r = fv s k"
    and "fj_insert F s k v = (q, s') \<Longrightarrow>
      fi s' \<and> (fv s' = (fv s)(k \<mapsto> v) \<or> fv s' = fv s \<and> q \<noteq> Inr ())"
    and "fj_remove F s k = (q, s') \<Longrightarrow>
      fi s' \<and> (fv s' = (fv s)(k := None) \<or> fv s' = fv s \<and> q \<noteq> Inr ())"
    and "fj_prefix F s p = map Inr xs \<Longrightarrow> lists_entries (fv s) (prefix p) xs"
    and "fj_range F s a b = map Inr xs \<Longrightarrow> lists_entries (fv s) (\<lambda>k. a \<le> k \<and> k < b) xs"
    and "fj_persist F s = (q, s') \<Longrightarrow> fi s' \<and> fv s' = fv s"
proof -
  note ok = assms(1) [unfolded fjall_ok_def]
  show "finite (dom (fv s))" using ok [THEN conjunct1] assms(2) by blast
  show "fj_get F s k = Inr r \<Longrightarrow> r = fv s k" using ok [THEN conjunct2, THEN conjunct1] assms(2) by blast
  show "fi s' \<and> (fv s' = (fv s)(k \<mapsto> v) \<or> fv s' = fv s \<and> q \<noteq> Inr ())"
    if "fj_insert F s k v = (q, s')" by (rule ok [THEN conjunct2, THEN conjunct2, THEN conjunct1, rule_format, OF assms(2) that])
  show "fi s' \<and> (fv s' = (fv s)(k := None) \<or> fv s' = fv s \<and> q \<noteq> Inr ())"
    if "fj_remove F s k = (q, s')" by (rule ok [THEN conjunct2, THEN conjunct2, THEN conjunct2, THEN conjunct1, rule_format, OF assms(2) that])
  show "fj_prefix F s p = map Inr xs \<Longrightarrow> lists_entries (fv s) (prefix p) xs"
    using ok [THEN conjunct2, THEN conjunct2, THEN conjunct2, THEN conjunct2, THEN conjunct1] assms(2) by blast
  show "fj_range F s a b = map Inr xs \<Longrightarrow> lists_entries (fv s) (\<lambda>k. a \<le> k \<and> k < b) xs"
    using ok [THEN conjunct2, THEN conjunct2, THEN conjunct2, THEN conjunct2, THEN conjunct2, THEN conjunct1] assms(2) by blast
  show "fj_persist F s = (q, s') \<Longrightarrow> fi s' \<and> fv s' = fv s" by (rule ok [THEN conjunct2, THEN conjunct2, THEN conjunct2, THEN conjunct2, THEN conjunct2, THEN conjunct2, rule_format, OF assms(2)])
qed

text \<open>Over such a \<open>fjall\<close>, the durable backend keeps the trait's laws too.\<close>

lemma fjall_storage:
  assumes "fjall_ok F fv fi"
  shows "storage (fjall_get F) (fjall_put F) (fjall_delete F) (fjall_scan F) (fjall_scan_range F)
    (fjall_flush F) fv fi"
  by unfold_locales
    (auto simp: fjall_get_def fjall_put_def fjall_delete_def fjall_scan_def fjall_scan_range_def
      fjall_flush_def collect_Inr_iff split: prod.splits dest: fjall_okD [OF assms])

lemma map_prod_eq_iff: "map_prod id f x = (r, y) \<longleftrightarrow> (\<exists>z. x = (r, z) \<and> y = f z)"
  by (cases x) auto

lemma backend_storage:
  assumes "fjall_ok F fv fi"
  shows "storage (backend_get F) (backend_put F) (backend_delete F) (backend_scan F)
    (backend_scan_range F) (backend_flush F) (backend_view fv) (backend_wf fi)"
proof -
  note fj = fjall_storage [OF assms]
  show ?thesis
  proof (unfold_locales, goal_cases)
    case (1 s)
    then show ?case by (cases s) (simp_all add: mem.finite_view storage.finite_view [OF fj])
  next
    case (2 s k r)
    then show ?case by (cases s) (simp_all add: mem.get_view storage.get_view [OF fj])
  next
    case (3 s k v r s')
    then show ?case
      by (cases s) (auto simp: map_prod_eq_iff dest: mem.put_any storage.put_any [OF fj])
  next
    case (4 s k r s')
    then show ?case
      by (cases s) (auto simp: map_prod_eq_iff dest: mem.delete_any storage.delete_any [OF fj])
  next
    case (5 s p xs)
    then show ?case by (cases s) (simp_all add: mem.scan_lists storage.scan_lists [OF fj])
  next
    case (6 s a b xs)
    then show ?case
      by (cases s) (simp_all add: mem.scan_range_lists storage.scan_range_lists [OF fj])
  next
    case (7 s r s')
    then show ?case
      by (cases s) (auto simp: map_prod_eq_iff dest: mem.flush_view storage.flush_view [OF fj])
  qed
qed

lemma fjall_ok_reference: "fjall_ok fjall_reference ref_view ref_wf"
  unfolding fjall_ok_def fjall_reference_def ref_view_def ref_wf_def
  by (auto simp: dashmap_simps lists_entries_sort_filter inj_map_eq_map inj_def)

lemma fjall_durable_reference:
  "fjall_durable fjall_reference ref_view ref_wf (\<lambda>s. dm_get (synced s)) (\<lambda>s. set (dirty s))"
  unfolding fjall_durable_def fjall_reference_def ref_view_def ref_wf_def
  by (auto simp: dashmap_simps)

lemma fjall_durableD:
  assumes "fjall_durable F fv fi fd ft" and "fi s"
  shows "fj_insert F s k v = (r, s') \<Longrightarrow> fd s' = fd s \<and> ft s' = insert k (ft s)"
    and "fj_remove F s k = (r, s') \<Longrightarrow> fd s' = fd s \<and> ft s' = insert k (ft s)"
    and "fj_persist F s = (Inr (), s') \<Longrightarrow> fd s' = fv s \<and> ft s' = {}"
    and "fj_persist F s = (Inl e, s') \<Longrightarrow> fd s' = fd s \<and> ft s' = ft s"
    and "fj_open F s = Inr s' \<Longrightarrow>
      fi s' \<and> fd s' = fd s \<and> ft s' = ft s \<and> (\<forall>k. k \<notin> ft s \<longrightarrow> fv s' k = fd s k)"
  using assms unfolding fjall_durable_def by (metis snd_conv, metis snd_conv, blast+)

section \<open>Properties\<close>

text \<open>
  What a backend returns depends on the map it stands for and on nothing else. A memory node
  and a durable node whose backends stand for the same map, over any \<open>fjall\<close> that keeps its
  documentation, give the same answer to every \<open>get\<close>, \<open>scan\<close> and \<open>scan_range\<close> that succeeds; the
  scans list exactly the matching entries, by increasing key and without repetition.
\<close>

theorem backend_reads_agree:
  assumes "fjall_ok F fv fi" and "backend_wf fi s" and "backend_wf fi s'"
    and "backend_view fv s = backend_view fv s'"
  shows "(backend_get F s k = Inr r \<longrightarrow> backend_get F s' k = Inr r' \<longrightarrow> r = r')
    \<and> (backend_scan F s p = Inr xs \<longrightarrow>
         lists_entries (backend_view fv s) (prefix p) xs \<and> (backend_scan F s' p = Inr ys \<longrightarrow> xs = ys))
    \<and> (backend_scan_range F s a b = Inr us \<longrightarrow>
         lists_entries (backend_view fv s) (\<lambda>k. a \<le> k \<and> k < b) us
         \<and> (backend_scan_range F s' a b = Inr vs \<longrightarrow> us = vs))"
proof -
  note st = backend_storage [OF assms(1)]
  have u: "xs = ys" if "lists_entries m P xs" "lists_entries m P ys" for m P xs ys
    using that by (auto simp: lists_entries_def intro: ordered_entries_unique)
  have "r = r'" if "backend_get F s k = Inr r" "backend_get F s' k = Inr r'"
    using storage.get_view [OF st assms(2) that(1)] storage.get_view [OF st assms(3) that(2)] assms(4)
    by simp
  moreover have "lists_entries (backend_view fv s) (prefix p) xs" if "backend_scan F s p = Inr xs"
    using storage.scan_lists [OF st assms(2) that] .
  moreover have "lists_entries (backend_view fv s) (prefix p) ys" if "backend_scan F s' p = Inr ys"
    using storage.scan_lists [OF st assms(3) that] assms(4) by simp
  moreover have "lists_entries (backend_view fv s) (\<lambda>k. a \<le> k \<and> k < b) us"
    if "backend_scan_range F s a b = Inr us"
    using storage.scan_range_lists [OF st assms(2) that] .
  moreover have "lists_entries (backend_view fv s) (\<lambda>k. a \<le> k \<and> k < b) vs"
    if "backend_scan_range F s' a b = Inr vs"
    using storage.scan_range_lists [OF st assms(3) that] assms(4) by simp
  ultimately show ?thesis by (blast dest: u)
qed

theorem backend_reads_agree_witness:
  "let s = Memory \<lparr>inner = [([2], [7]), ([1], [8])]\<rparr>; s' = Fjall (ref_empty\<lparr>live := [([1], [8]), ([2], [7])]\<rparr>)
   in backend_view ref_view s = backend_view ref_view s'
      \<and> backend_scan fjall_reference s [] = Inr [([1], [8]), ([2], [7])]
      \<and> (\<forall>xs. backend_scan fjall_reference s' [] = Inr xs \<longrightarrow> xs = [([1], [8]), ([2], [7])])"
proof -
  let ?s = "Memory \<lparr>inner = [([2], [7]), ([1], [8])]\<rparr> :: ref_fjall storage_backend"
  let ?s' = "Fjall (ref_empty\<lparr>live := [([1], [8]), ([2], [7])]\<rparr>)"
  have v: "backend_view ref_view ?s = backend_view ref_view ?s'"
    by (auto simp: mem_view_def ref_view_def dm_get_def)
  have "backend_scan fjall_reference ?s [] = Inr [([1], [8]), ([2], [7])]"
    by (simp add: mem_scan_def)
  moreover have "backend_wf ref_wf ?s" "backend_wf ref_wf ?s'"
    by (simp_all add: mem_wf_def ref_wf_def ref_empty_def dm_wf_def)
  ultimately show ?thesis
    unfolding Let_def using v backend_reads_agree [OF fjall_ok_reference _ _ v] by blast
qed

end
