(* ===== verification/Quota.thy ===== *)
theory Quota
  imports Key_Codec Value_Codec Storage_Backend
begin

text \<open>
  Per-tenant byte quotas of \<open>ferriskv-node/src/quota.rs\<close>: the limits an operator sets, kept in
  storage and cached, and the usage counters writes are checked against.

  The JSON of a quota is \<open>serde_json\<close>'s business: its two functions are the record \<open>quota_json\<close>, of
  which properties assume only that what was written reads back. Metrics are not modelled. An
  atomic counter is its value; \<open>apply_delta\<close> takes the values its compare-and-swap loop loses to.
\<close>

section \<open>Definitions\<close>

definition QUOTA_KEY :: bytes where
  "QUOTA_KEY = lit ''quota''"

definition USAGE_KEY :: bytes where
  "USAGE_KEY = lit ''usage''"

record quota =
  max_bytes :: u64
  max_ops_per_sec :: u32

definition UNLIMITED :: quota where
  "UNLIMITED = \<lparr>max_bytes = 0, max_ops_per_sec = 0\<rparr>"

definition is_unlimited :: "quota \<Rightarrow> bool" where
  "is_unlimited q \<longleftrightarrow> max_bytes q = 0 \<and> max_ops_per_sec q = 0"

definition quota_default :: quota where
  "quota_default = UNLIMITED"

record tenant_usage =
  tu_used_bytes :: u64
  tu_max_bytes :: u64
  tu_max_ops_per_sec :: u32

record quota_store =
  default_quota :: quota
  quotas :: "(str, quota) dashmap"
  usage :: "(str, u64) dashmap"

definition quota_store_new :: "quota \<Rightarrow> quota_store" where
  "quota_store_new q = \<lparr>default_quota = q, quotas = [], usage = []\<rparr>"

definition quota_of :: "quota_store \<Rightarrow> str \<Rightarrow> quota" where
  "quota_of st tenant =
     (case dm_get (quotas st) tenant of Some q \<Rightarrow> q | None \<Rightarrow> default_quota st)"

definition used_bytes :: "quota_store \<Rightarrow> str \<Rightarrow> u64" where
  "used_bytes st tenant = (case dm_get (usage st) tenant of Some u \<Rightarrow> u | None \<Rightarrow> 0)"

definition usage_of :: "quota_store \<Rightarrow> str \<Rightarrow> tenant_usage" where
  "usage_of st tenant =
     (let q = quota_of st tenant
      in \<lparr>tu_used_bytes = used_bytes st tenant, tu_max_bytes = max_bytes q,
          tu_max_ops_per_sec = max_ops_per_sec q\<rparr>)"

definition quota_list :: "quota_store \<Rightarrow> (str \<times> tenant_usage) list" where
  "quota_list st =
     (let out = map (\<lambda>(t, _). (t, usage_of st t)) (usage st);
          out = out @ map (\<lambda>(t, _). (t, usage_of st t))
                        (filter (\<lambda>(t, _). \<not> dm_contains (usage st) t) (quotas st))
      in sort_key fst out)"

text \<open>\<open>serde_json\<close> on a quota: its errors are text.\<close>

record quota_json =
  to_vec :: "quota \<Rightarrow> string + bytes"
  from_slice :: "bytes \<Rightarrow> string + quota"

definition quota_json_ok :: "quota_json \<Rightarrow> bool" where
  "quota_json_ok J \<longleftrightarrow> (\<forall>q. \<exists>b. to_vec J q = Inr b \<and> from_slice J b = Inr q)"

definition set_quota ::
    "'f fjall_api \<Rightarrow> quota_json \<Rightarrow> quota_store \<Rightarrow> 'f storage_backend \<Rightarrow> str \<Rightarrow> quota \<Rightarrow>
     unit result \<times> quota_store \<times> 'f storage_backend" where
  "set_quota F J st s tenant q =
     (case key_encode tenant Metadata QUOTA_KEY of
        Inl e \<Rightarrow> (Inl e, st, s)
      | Inr key \<Rightarrow>
          (case to_vec J q of
             Inl e \<Rightarrow> (Inl (Config (''encoding quota for '' @ chars tenant @ '': '' @ e)), st, s)
           | Inr body \<Rightarrow>
               (case backend_put F s key (value_encode body None) of
                  (Inl e, s') \<Rightarrow> (Inl e, st, s')
                | (Inr _, s') \<Rightarrow> (Inr (), st\<lparr>quotas := dm_insert tenant q (quotas st)\<rparr>, s'))))"

definition clear_quota ::
    "'f fjall_api \<Rightarrow> quota_store \<Rightarrow> 'f storage_backend \<Rightarrow> str \<Rightarrow>
     unit result \<times> quota_store \<times> 'f storage_backend" where
  "clear_quota F st s tenant =
     (case key_encode tenant Metadata QUOTA_KEY of
        Inl e \<Rightarrow> (Inl e, st, s)
      | Inr key \<Rightarrow>
          (case backend_delete F s key of
             (Inl e, s') \<Rightarrow> (Inl e, st, s')
           | (Inr _, s') \<Rightarrow> (Inr (), st\<lparr>quotas := dm_remove tenant (quotas st)\<rparr>, s')))"

definition check_write :: "quota_store \<Rightarrow> str \<Rightarrow> i64 \<Rightarrow> unit result" where
  "check_write st tenant delta =
     (let limit = max_bytes (quota_of st tenant) in
      if limit = 0 \<or> sint delta \<le> 0 then Inr ()
      else
        (let after = saturating_add (used_bytes st tenant) delta in
         if after > limit then Inl (QuotaExceeded tenant after limit) else Inr ()))"

text \<open>
  The compare-and-swap loop: \<open>observed\<close> lists the values the failing exchanges saw, in order; the
  exchange after the last of them succeeds, and the counter then holds what is returned.
\<close>

fun apply_delta_loop :: "u64 \<Rightarrow> u64 \<Rightarrow> u64 list \<Rightarrow> u64" where
  "apply_delta_loop magnitude current [] = saturating_sub current magnitude"
| "apply_delta_loop magnitude current (seen # observed) = apply_delta_loop magnitude seen observed"

definition apply_delta :: "u64 list \<Rightarrow> u64 \<Rightarrow> i64 \<Rightarrow> u64" where
  "apply_delta observed counter delta =
     (if sint delta \<ge> 0 then counter + delta
      else apply_delta_loop (unsigned_abs delta) counter observed)"

definition adjust :: "quota_store \<Rightarrow> str \<Rightarrow> i64 \<Rightarrow> u64 \<times> quota_store" where
  "adjust st tenant delta =
     (let counter = (case dm_get (usage st) tenant of Some c \<Rightarrow> c | None \<Rightarrow> 0);
          tot = apply_delta [] counter delta
      in (tot, st\<lparr>usage := dm_insert tenant tot (usage st)\<rparr>))"

definition quota_apply ::
    "'f fjall_api \<Rightarrow> quota_store \<Rightarrow> 'f storage_backend \<Rightarrow> str \<Rightarrow> i64 \<Rightarrow>
     unit result \<times> quota_store \<times> 'f storage_backend" where
  "quota_apply F st s tenant delta =
     (if delta = 0 then (Inr (), st, s)
      else
        (case adjust st tenant delta of
           (tot, st') \<Rightarrow>
             (case key_encode tenant Stats USAGE_KEY of
                Inl e \<Rightarrow> (Inl e, st', s)
              | Inr key \<Rightarrow>
                  (case backend_put F s key (value_encode (to_be_bytes tot) None) of
                     (Inl e, s') \<Rightarrow> (Inl e, st', s')
                   | (Inr _, s') \<Rightarrow> (Inr (), st', s')))))"

definition reset_usage :: "quota_store \<Rightarrow> (str \<times> u64) list \<Rightarrow> quota_store" where
  "reset_usage st totals =
     st\<lparr>usage := fold (\<lambda>(tenant, tot). dm_insert tenant tot) totals []\<rparr>"

fun load_quotas_loop ::
    "quota_json \<Rightarrow> (bytes \<times> bytes) list \<Rightarrow> quota_store \<Rightarrow> usize \<Rightarrow> usize result \<times> quota_store" where
  "load_quotas_loop J [] st loaded = (Inr loaded, st)"
| "load_quotas_loop J ((key, raw) # es) st loaded =
     (case key_decode key of
        Inl _ \<Rightarrow> load_quotas_loop J es st loaded
      | Inr (tenant, subspace, payload) \<Rightarrow>
          if subspace \<noteq> Metadata \<or> payload \<noteq> QUOTA_KEY then load_quotas_loop J es st loaded
          else
            (case value_decode raw of
               Inl e \<Rightarrow> (Inl e, st)
             | Inr stored \<Rightarrow>
                 (case from_slice J (sv_value stored) of
                    Inr q \<Rightarrow>
                      load_quotas_loop J es (st\<lparr>quotas := dm_insert tenant q (quotas st)\<rparr>) (loaded + 1)
                  | Inl _ \<Rightarrow> load_quotas_loop J es st loaded)))"

definition load_quotas ::
    "'f fjall_api \<Rightarrow> quota_json \<Rightarrow> quota_store \<Rightarrow> 'f storage_backend \<Rightarrow> usize result \<times> quota_store" where
  "load_quotas F J st s =
     (let st = st\<lparr>quotas := []\<rparr>
      in case backend_scan F s [] of
           Inl e \<Rightarrow> (Inl e, st)
         | Inr es \<Rightarrow> load_quotas_loop J es st 0)"

definition entry_bytes :: "usize \<Rightarrow> usize \<Rightarrow> u64" where
  "entry_bytes key_len value_len = word_of_nat key_len + word_of_nat value_len"

subsection \<open>What the counters should hold\<close>

text \<open>
  The tenant a key's bytes are charged to, if any; what an entry is charged; and the bytes a
  tenant's data takes, as the map behind storage has it.
\<close>

definition data_owner :: "bytes \<Rightarrow> str option" where
  "data_owner k = (case key_decode k of Inr (t, Data, _) \<Rightarrow> Some t | _ \<Rightarrow> None)"

definition charge :: "bytes \<Rightarrow> bytes \<Rightarrow> nat" where
  "charge k raw =
     (case (key_decode k, value_decode raw) of
        (Inr (_, Data, p), Inr v) \<Rightarrow> length p + length (sv_value v)
      | _ \<Rightarrow> 0)"

definition charge_at :: "(bytes \<rightharpoonup> bytes) \<Rightarrow> bytes \<Rightarrow> nat" where
  "charge_at m k = (case m k of None \<Rightarrow> 0 | Some raw \<Rightarrow> charge k raw)"

definition tenant_bytes :: "(bytes \<rightharpoonup> bytes) \<Rightarrow> str \<Rightarrow> nat" where
  "tenant_bytes m t = map_total (\<lambda>k raw. if data_owner k = Some t then charge k raw else 0) m"

text \<open>The quota storage holds for a tenant, if it holds a readable one.\<close>

definition stored_quota :: "quota_json \<Rightarrow> (bytes \<rightharpoonup> bytes) \<Rightarrow> str \<Rightarrow> quota option" where
  "stored_quota J m t =
     (case m (raw_key t Metadata QUOTA_KEY) of
        None \<Rightarrow> None
      | Some raw \<Rightarrow>
          (case value_decode raw of
             Inl _ \<Rightarrow> None
           | Inr v \<Rightarrow> (case from_slice J (sv_value v) of Inl _ \<Rightarrow> None | Inr q \<Rightarrow> Some q)))"

text \<open>A \<open>quota_json\<close> that reads back what it writes, on two fields of fixed width.\<close>

definition quota_json_reference :: quota_json where
  "quota_json_reference =
     \<lparr>to_vec = (\<lambda>q. Inr (to_le_bytes (max_bytes q) @ to_le_bytes (max_ops_per_sec q))),
      from_slice = (\<lambda>b. if length b = 12
         then Inr \<lparr>max_bytes = from_le_bytes (take 8 b), max_ops_per_sec = from_le_bytes (drop 8 b)\<rparr>
         else Inl ''expected value'')\<rparr>"

section \<open>Lemmas\<close>

lemma quota_json_ok_reference: "quota_json_ok quota_json_reference"
  by (simp add: quota_json_ok_def quota_json_reference_def from_to_le_bytes)

lemma data_owner_raw_key [simp]:
  "tenant_ok t \<Longrightarrow> data_owner (raw_key t s p) = (if s = Data then Some t else None)"
  by (cases s) (simp_all add: data_owner_def)

lemma data_owner_Some_iff: "data_owner k = Some t \<longleftrightarrow> (\<exists>p. key_decode k = Inr (t, Data, p))"
  by (auto simp: data_owner_def split: sum.splits prod.splits subspace.splits)

lemma charge_raw_key [simp]:
  "tenant_ok t \<Longrightarrow> charge (raw_key t Data p) (value_encode v e) = length p + length v"
  by (simp add: charge_def)

subsection \<open>Usage\<close>

lemma sint_diff_of_nat:
  assumes "a < 2 ^ 63" and "b < 2 ^ 63"
  shows "sint (word_of_nat a - word_of_nat b :: i64) = int a - int b"
proof -
  have "(word_of_nat a - word_of_nat b :: i64) = word_of_int (int a - int b)" by simp
  moreover have "sint (word_of_int (int a - int b) :: i64) = signed_take_bit 63 (int a - int b)"
    by (simp only: signed_of_int) simp
  ultimately show ?thesis
    using assms by (simp add: signed_take_bit_int_eq_self)
qed

lemma unat_word_of_int_u64: "0 \<le> k \<Longrightarrow> k < 2 ^ 64 \<Longrightarrow> unat (word_of_int k :: u64) = nat k"
  by (simp add: unsigned_of_int take_bit_int_eq_self)

lemma sint_i64_range: "- (2 ^ 63) \<le> sint (d :: i64)" "sint (d :: i64) < 2 ^ 63"
  using sint_ge [of d] sint_lt [of d] by simp_all

lemma unat_unsigned_abs_neg:
  assumes "sint d < 0"
  shows "unat (unsigned_abs d) = nat (- sint d)"
proof -
  have "- d = word_of_int (- sint d)" by simp
  then show ?thesis
    using assms sint_i64_range [of d] unat_word_of_int_u64 [of "- sint d"]
    by (simp add: unsigned_abs_def)
qed

text \<open>
  Without interference, and while the true total stays within range, the counter moves by exactly
  the delta.
\<close>

lemma apply_delta_exact:
  assumes "u < 2 ^ 63" and "0 \<le> int u + sint delta"
  shows "apply_delta [] (word_of_nat u) delta = word_of_nat (nat (int u + sint delta))"
proof (cases "sint delta \<ge> 0")
  case True
  have "(word_of_nat (nat (int u + sint delta)) :: u64) = word_of_int (int u + sint delta)"
    using assms(2) by (simp add: of_nat_nat)
  with True show ?thesis by (simp add: apply_delta_def)
next
  case False
  have "unat (saturating_sub (word_of_nat u) (unsigned_abs delta)) = u - nat (- sint delta)"
    using False assms(1) by (simp add: unat_saturating_sub unat_unsigned_abs_neg unat_u64_of_nat)
  also have "\<dots> = nat (int u + sint delta)" using False assms by simp
  finally have "unat (saturating_sub (word_of_nat u) (unsigned_abs delta)) = nat (int u + sint delta)" .
  then have "saturating_sub (word_of_nat u) (unsigned_abs delta) = word_of_nat (nat (int u + sint delta))"
    by (metis word_of_nat_unat_u64)
  with False show ?thesis by (simp add: apply_delta_def)
qed

lemma used_bytes_adjust:
  "used_bytes (snd (adjust st t d)) t' =
     (if t' = t then apply_delta [] (used_bytes st t) d else used_bytes st t')"
  by (simp add: adjust_def used_bytes_def dashmap_simps Let_def)

lemma adjust_other [simp]:
  "quotas (snd (adjust st t d)) = quotas st" "default_quota (snd (adjust st t d)) = default_quota st"
  by (simp_all add: adjust_def Let_def)

lemma used_bytes_quotas_update [simp]: "used_bytes (st\<lparr>quotas := q\<rparr>) t = used_bytes st t"
  by (simp add: used_bytes_def)

lemma quota_of_usage_update [simp]: "quota_of (st\<lparr>usage := u\<rparr>) t = quota_of st t"
  by (simp add: quota_of_def split: option.split)

text \<open>A failed or refused accounting write still moves the counter: only storage may lag behind.\<close>

lemma quota_apply_store:
  assumes "quota_apply F st s t d = (r, st', s')"
  shows "st' = (if d = 0 then st else snd (adjust st t d))"
  using assms by (auto simp: quota_apply_def split: if_splits prod.splits sum.splits)

lemma quota_apply_backend:
  assumes "quota_apply F st s t d = (r, st', s')"
  shows "s' = s \<or> (\<exists>k b q. key_encode t Stats USAGE_KEY = Inr k
    \<and> backend_put F s k (value_encode b None) = (q, s'))"
  using assms by (auto simp: quota_apply_def split: if_splits prod.splits sum.splits)

lemma tenant_bytes_update:
  assumes "finite (dom m)"
  shows "tenant_bytes (m(k \<mapsto> raw)) t
      + (if data_owner k = Some t then (case m k of None \<Rightarrow> 0 | Some r \<Rightarrow> charge k r) else 0)
    = tenant_bytes m t + (if data_owner k = Some t then charge k raw else 0)"
  using map_total_update [OF assms, of "\<lambda>k raw. if data_owner k = Some t then charge k raw else 0" k raw]
  by (cases "m k") (auto simp: tenant_bytes_def)

lemma tenant_bytes_remove:
  assumes "finite (dom m)"
  shows "tenant_bytes (m(k := None)) t
      + (if data_owner k = Some t then (case m k of None \<Rightarrow> 0 | Some r \<Rightarrow> charge k r) else 0)
    = tenant_bytes m t"
  using map_total_remove [OF assms, of "\<lambda>k raw. if data_owner k = Some t then charge k raw else 0" k]
  by (cases "m k") (auto simp: tenant_bytes_def)

lemma tenant_bytes_bookkeeping:
  assumes "finite (dom m)" and "data_owner k = None"
  shows "tenant_bytes (m(k \<mapsto> raw)) t = tenant_bytes m t"
  using tenant_bytes_update [OF assms(1), of k raw t] assms(2) by simp

lemma charge_le_tenant_bytes:
  "finite (dom m) \<Longrightarrow> m k = Some raw \<Longrightarrow> data_owner k = Some t \<Longrightarrow> charge k raw \<le> tenant_bytes m t"
  using tenant_bytes_remove [of m k t] by simp

lemma check_write_Inr_iff:
  assumes "unat (used_bytes st t) < 2 ^ 63"
  shows "check_write st t delta = Inr () \<longleftrightarrow>
    max_bytes (quota_of st t) = 0 \<or> sint delta \<le> 0
    \<or> int (unat (used_bytes st t)) + sint delta \<le> int (unat (max_bytes (quota_of st t)))"
proof (cases "sint delta \<le> 0")
  case False
  then have "unat delta = nat (sint delta)"
    using unat_word_of_int_u64 [of "sint delta"] sint_i64_range [of delta] by simp
  then have "int (unat (saturating_add (used_bytes st t) delta)) = int (unat (used_bytes st t)) + sint delta"
    using False assms sint_i64_range [of delta] by (simp add: unat_saturating_add)
  with False show ?thesis
    by (auto simp: check_write_def Let_def word_less_def)
qed (simp add: check_write_def Let_def)

text \<open>What the entry at a key is charged, and the step of the counters when it changes.\<close>

lemma tenant_bytes_fun_upd:
  assumes "finite (dom m)"
  shows "tenant_bytes (m(k := x)) t + (if data_owner k = Some t then charge_at m k else 0)
    = tenant_bytes m t + (if data_owner k = Some t then (case x of None \<Rightarrow> 0 | Some raw \<Rightarrow> charge k raw) else 0)"
  using tenant_bytes_update [OF assms, of k "the x" t] tenant_bytes_remove [OF assms, of k t]
  by (cases x) (auto simp: charge_at_def)

lemma charge_at_le: "finite (dom m) \<Longrightarrow> data_owner k = Some t \<Longrightarrow> charge_at m k \<le> tenant_bytes m t"
  using charge_le_tenant_bytes [of m k _ t] by (simp add: charge_at_def split: option.split)

lemma apply_delta_tenant_bytes:
  assumes "finite (dom m)" and "data_owner k = Some t"
    and "tenant_bytes m t < 2 ^ 63" and "tenant_bytes (m(k := x)) t < 2 ^ 63"
  shows "apply_delta [] (word_of_nat (tenant_bytes m t))
      (word_of_nat (charge_at (m(k := x)) k) - word_of_nat (charge_at m k))
    = word_of_nat (tenant_bytes (m(k := x)) t)"
proof -
  let ?c = "charge_at m k" and ?c' = "charge_at (m(k := x)) k"
  have tb: "tenant_bytes (m(k := x)) t + ?c = tenant_bytes m t + ?c'"
    using tenant_bytes_fun_upd [OF assms(1), of k x t] assms(2) by (simp add: charge_at_def)
  have c: "?c \<le> tenant_bytes m t" using assms(1,2) by (rule charge_at_le)
  have c': "?c' \<le> tenant_bytes (m(k := x)) t"
    using assms(1,2) by (intro charge_at_le) simp_all
  have d: "sint (word_of_nat ?c' - word_of_nat ?c :: i64) = int ?c' - int ?c"
    using c c' assms(3,4) by (intro sint_diff_of_nat) simp_all
  have "int (tenant_bytes m t) + (int ?c' - int ?c) = int (tenant_bytes (m(k := x)) t)"
    using tb by linarith
  then show ?thesis
    using apply_delta_exact [OF assms(3), of "word_of_nat ?c' - word_of_nat ?c"] d by simp
qed

subsection \<open>Quotas\<close>

lemma load_quotas_loop_cache:
  assumes "load_quotas_loop J es st loaded = (Inr n, st')" and "distinct (map fst es)"
  shows "dm_get (quotas st') t =
      (if tenant_ok t then
         (case stored_quota J (map_of es) t of Some q \<Rightarrow> Some q | None \<Rightarrow> dm_get (quotas st) t)
       else dm_get (quotas st) t)
    \<and> usage st' = usage st \<and> default_quota st' = default_quota st"
  using assms
proof (induction es arbitrary: st loaded)
  case Nil
  then show ?case by (simp add: stored_quota_def)
next
  case (Cons e es)
  obtain key raw where e: "e = (key, raw)" by (cases e)
  have fresh: "map_of es key = None" and d: "distinct (map fst es)"
    using Cons.prems(2) by (simp_all add: e map_of_eq_None_iff)
  note loop = Cons.prems(1) [unfolded e] and IH = Cons.IH [OF _ d]
  show ?case
  proof (cases "\<exists>tn. tenant_ok tn \<and> key = raw_key tn Metadata QUOTA_KEY")
    case False
    then have same: "stored_quota J (map_of (e # es)) t = stored_quota J (map_of es) t" if "tenant_ok t" for t
      using that by (auto simp: stored_quota_def e)
    have "load_quotas_loop J es st loaded = (Inr n, st')"
      using loop False by (auto simp: key_decode_Inr_iff split: sum.splits prod.splits if_splits)
    from IH [OF this] same [of t] show ?thesis by simp
  next
    case True
    then obtain tn where tn: "tenant_ok tn" "key = raw_key tn Metadata QUOTA_KEY" by blast
    obtain v where v: "value_decode raw = Inr v"
      using loop tn by (auto split: sum.splits)
    have fresh': "stored_quota J (map_of es) tn = None"
      using fresh tn by (simp add: stored_quota_def)
    have other: "stored_quota J (map_of (e # es)) t = stored_quota J (map_of es) t"
      if "tenant_ok t" "t \<noteq> tn"
      using that tn by (auto simp: stored_quota_def e)
    have here: "stored_quota J (map_of (e # es)) tn
        = (case from_slice J (sv_value v) of Inl _ \<Rightarrow> None | Inr q \<Rightarrow> Some q)"
      using v tn by (simp add: stored_quota_def e)
    show ?thesis
    proof (cases "from_slice J (sv_value v)")
      case (Inl x)
      have "load_quotas_loop J es st loaded = (Inr n, st')"
        using loop tn v Inl by simp
      from IH [OF this] Inl here fresh' other show ?thesis
        by (cases "t = tn") simp_all
    next
      case (Inr q)
      have "load_quotas_loop J es (st\<lparr>quotas := dm_insert tn q (quotas st)\<rparr>) (loaded + 1) = (Inr n, st')"
        using loop tn v Inr by simp
      from IH [OF this] Inr tn here fresh' other show ?thesis
        by (cases "t = tn") (simp_all add: dashmap_simps split: option.split)
    qed
  qed
qed

text \<open>After loading, the cache is what storage holds.\<close>

lemma load_quotas_cache:
  assumes "fjall_ok F fv fi" and "backend_wf fi s" and "load_quotas F J st s = (Inr n, st')"
  shows "dm_get (quotas st') t = (if tenant_ok t then stored_quota J (backend_view fv s) t else None)"
    and "usage st' = usage st" and "default_quota st' = default_quota st"
proof -
  obtain es where es: "backend_scan F s [] = Inr es"
    and l: "load_quotas_loop J es (st\<lparr>quotas := []\<rparr>) 0 = (Inr n, st')"
    using assms(3) by (auto simp: load_quotas_def Let_def split: sum.splits)
  have li: "lists_entries (backend_view fv s) (prefix []) es"
    using storage.scan_lists [OF backend_storage [OF assms(1)] assms(2) es] .
  then have d: "distinct (map fst es)" by (simp add: lists_entries_def ordered_entries_def)
  have m: "map_of es = backend_view fv s"
  proof
    fix k
    show "map_of es k = backend_view fv s k"
      using li d by (cases "backend_view fv s k")
        (auto simp: lists_entries_def map_of_eq_None_iff image_iff)
  qed
  note c = load_quotas_loop_cache [OF l d]
  show "dm_get (quotas st') t = (if tenant_ok t then stored_quota J (backend_view fv s) t else None)"
    using c [of t] m by (simp add: dashmap_simps split: option.split)
  show "usage st' = usage st" "default_quota st' = default_quota st"
    using c by simp_all
qed

lemma stored_quota_set:
  assumes "quota_json_ok J" and "to_vec J q = Inr b" and "tenant_ok t" and "tenant_ok t'"
  shows "stored_quota J (m(raw_key t Metadata QUOTA_KEY \<mapsto> value_encode b None)) t'
    = (if t' = t then Some q else stored_quota J m t')"
proof -
  have "from_slice J b = Inr q"
    using assms(1,2) unfolding quota_json_ok_def by (metis sum.inject(2))
  then show ?thesis using assms(3,4) by (simp add: stored_quota_def)
qed

lemma set_quota_ok:
  assumes "fjall_ok F fv fi" and "backend_wf fi s" and "set_quota F J st s t q = (Inr (), st', s')"
  shows "\<exists>b. to_vec J q = Inr b \<and> backend_wf fi s'
    \<and> backend_view fv s' = (backend_view fv s)(raw_key t Metadata QUOTA_KEY \<mapsto> value_encode b None)
    \<and> st' = st\<lparr>quotas := dm_insert t q (quotas st)\<rparr>"
  using assms(3) storage.put_view [OF backend_storage [OF assms(1)] assms(2)]
  by (auto simp: set_quota_def key_encode_Inr_iff split: sum.splits prod.splits)

lemma clear_quota_ok:
  assumes "fjall_ok F fv fi" and "backend_wf fi s" and "clear_quota F st s t = (Inr (), st', s')"
  shows "backend_wf fi s'
    \<and> backend_view fv s' = (backend_view fv s)(raw_key t Metadata QUOTA_KEY := None)
    \<and> st' = st\<lparr>quotas := dm_remove t (quotas st)\<rparr>"
  using assms(3) storage.delete_view [OF backend_storage [OF assms(1)] assms(2)]
  by (auto simp: clear_quota_def key_encode_Inr_iff split: sum.splits prod.splits)

lemma stored_quota_other_key:
  "(\<And>t. k \<noteq> raw_key t Metadata QUOTA_KEY) \<Longrightarrow> stored_quota J (m(k := x)) t = stored_quota J m t"
  by (metis (no_types, lifting) fun_upd_other stored_quota_def)

section \<open>Properties\<close>

text \<open>
  C32: a quota an operator sets is in force at once, and is the one a node finds when it loads its
  quotas from the same storage again; every other tenant keeps what it had. Clearing it returns
  the tenant to the default, now and after a reload.
\<close>

theorem quota_set_load_roundtrip:
  assumes "fjall_ok F fv fi" and "backend_wf fi s" and "quota_json_ok J" and "tenant_ok t"
    and "set_quota F J st s t q = (Inr (), st1, s1)" and "load_quotas F J st1 s1 = (Inr n1, st2)"
    and "clear_quota F st2 s1 t = (Inr (), st3, s3)" and "load_quotas F J st3 s3 = (Inr n3, st4)"
  shows "quota_of st1 t = q \<and> quota_of st2 t = q
    \<and> quota_of st3 t = default_quota st \<and> quota_of st4 t = default_quota st
    \<and> (tenant_ok t' \<and> t' \<noteq> t \<longrightarrow> quota_of st2 t' = quota_of st4 t' \<and>
         quota_of st2 t' = (case stored_quota J (backend_view fv s) t' of
                              Some q' \<Rightarrow> q' | None \<Rightarrow> default_quota st))"
proof -
  obtain b where b: "to_vec J q = Inr b" and wf1: "backend_wf fi s1"
    and v1: "backend_view fv s1 = (backend_view fv s)(raw_key t Metadata QUOTA_KEY \<mapsto> value_encode b None)"
    and st1: "st1 = st\<lparr>quotas := dm_insert t q (quotas st)\<rparr>"
    using set_quota_ok [OF assms(1,2,5)] by blast
  have wf3: "backend_wf fi s3"
    and v3: "backend_view fv s3 = (backend_view fv s1)(raw_key t Metadata QUOTA_KEY := None)"
    and st3: "st3 = st2\<lparr>quotas := dm_remove t (quotas st2)\<rparr>"
    using clear_quota_ok [OF assms(1) wf1 assms(7)] by auto
  note l1 = load_quotas_cache [OF assms(1) wf1 assms(6)] and l3 = load_quotas_cache [OF assms(1) wf3 assms(8)]
  note set = stored_quota_set [OF assms(3) b assms(4), of _ "backend_view fv s"]
  have gone: "stored_quota J (backend_view fv s3) t = None" by (simp add: stored_quota_def v3)
  have same: "stored_quota J (backend_view fv s3) t' = stored_quota J (backend_view fv s) t'"
    if "tenant_ok t'" "t' \<noteq> t" for t'
    using that assms(4) by (simp add: stored_quota_def v3 v1)
  have "default_quota st2 = default_quota st" "default_quota st4 = default_quota st"
    "default_quota st3 = default_quota st"
    using l1(3) l3(3) by (simp_all add: st1 st3)
  then show ?thesis
    using assms(4) l1(1) l3(1) gone same set
    by (auto simp: quota_of_def st1 st3 v1 dashmap_simps split: option.split)
qed

theorem quota_set_load_roundtrip_witness:
  "let F = fjall_reference; J = quota_json_reference; q = \<lparr>max_bytes = 9, max_ops_per_sec = 2\<rparr>;
       r1 = set_quota F J (quota_store_new UNLIMITED) (Fjall ref_empty) [0x61] q;
       r2 = load_quotas F J (fst (snd r1)) (snd (snd r1));
       r3 = clear_quota F (snd r2) (snd (snd r1)) [0x61]
   in fst r1 = Inr () \<and> fst r2 = Inr 1 \<and> fst r3 = Inr ()
      \<and> quota_of (snd r2) [0x61] = q \<and> quota_of (fst (snd r3)) [0x61] = UNLIMITED"
proof -
  let ?F = "fjall_reference" and ?J = quota_json_reference
  let ?q = "\<lparr>max_bytes = 9, max_ops_per_sec = 2\<rparr>"
  let ?r1 = "set_quota ?F ?J (quota_store_new UNLIMITED) (Fjall ref_empty) [0x61] ?q"
  let ?r2 = "load_quotas ?F ?J (fst (snd ?r1)) (snd (snd ?r1))"
  let ?r3 = "clear_quota ?F (snd ?r2) (snd (snd ?r1)) [0x61]"
  let ?r4 = "load_quotas ?F ?J (fst (snd ?r3)) (snd (snd ?r3))"
  have "fst ?r1 = Inr ()" by code_simp
  moreover have "fst ?r2 = Inr 1" by code_simp
  moreover have "fst ?r3 = Inr ()" by code_simp
  moreover have "fst ?r4 = Inr 0" by code_simp
  moreover have "tenant_ok [0x61]" by (simp add: tenant_ok_def MAX_TENANT_LEN_def)
  ultimately show ?thesis
    using quota_set_load_roundtrip [OF fjall_ok_reference, of "Fjall ref_empty" ?J "[0x61]"
        "quota_store_new UNLIMITED" ?q "fst (snd ?r1)" "snd (snd ?r1)" 1 "snd ?r2"
        "fst (snd ?r3)" "snd (snd ?r3)" 0 "snd ?r4"]
    by (simp add: quota_json_ok_reference prod_eq_iff Let_def ref_wf_def)
      (simp add: quota_store_new_def ref_empty_def)
qed

end
