(* ===== verification/Throttle.thy ===== *)
theory Throttle
  imports Core_Types
begin

text \<open>
  Rate limiting per tenant, \<open>ferriskv-node/src/throttle.rs\<close>: a map of limiters, one per tenant,
  built on first use and rebuilt when the rate changes.

  The limiters are \<open>governor\<close>'s, third-party code: the record \<open>governor_api\<close> holds the two functions
  the source calls, over a state type \<open>'l\<close>. A limiter reads the clock, so the instant of the call
  is an argument. Nothing is assumed about it except where a property says so.
\<close>

section \<open>Definitions\<close>

text \<open>The nested result of \<open>check_n\<close>: \<open>Ok(Ok(()))\<close>, \<open>Ok(Err(_))\<close> and \<open>Err(_)\<close>.\<close>

datatype admission = Admitted | Not_yet | Never

type_synonym instant = nat

record 'l governor_api =
  gov_direct :: "u32 \<Rightarrow> 'l"
  gov_check_n :: "instant \<Rightarrow> 'l \<Rightarrow> u32 \<Rightarrow> admission \<times> 'l"

record 'l limiter_entry =
  ops_per_sec :: u32
  limiter :: 'l

record 'l throttle =
  default_ops_per_sec :: u32
  limiters :: "(str, 'l limiter_entry) dashmap"

definition throttle_new :: "u32 \<Rightarrow> 'l throttle" where
  "throttle_new d = \<lparr>default_ops_per_sec = d, limiters = []\<rparr>"

text \<open>The entry for a tenant, and the map with it: a limiter built for another rate is replaced.\<close>

definition throttle_entry ::
    "'l governor_api \<Rightarrow> 'l throttle \<Rightarrow> str \<Rightarrow> u32 \<Rightarrow> 'l limiter_entry \<times> 'l throttle" where
  "throttle_entry G th tenant rate =
     (let fresh = \<lparr>ops_per_sec = rate, limiter = gov_direct G rate\<rparr>;
          rebuilt = (fresh, th\<lparr>limiters := dm_insert tenant fresh (limiters th)\<rparr>)
      in case dm_get (limiters th) tenant of
           Some existing \<Rightarrow> if ops_per_sec existing = rate then (existing, th) else rebuilt
         | None \<Rightarrow> rebuilt)"

definition effective_limit :: "'l throttle \<Rightarrow> u32 \<Rightarrow> u32" where
  "effective_limit th ops = (if ops > 0 then ops else default_ops_per_sec th)"

fun admission_result :: "str \<Rightarrow> u32 \<Rightarrow> u32 \<Rightarrow> admission \<Rightarrow> unit result" where
  "admission_result tenant limit cost Admitted = Inr ()"
| "admission_result tenant limit cost Not_yet = Inl (RateLimited tenant limit)"
| "admission_result tenant limit cost Never =
     Inl (Config (''request costs '' @ dec (unat cost) @ '' operations, above the ''
       @ dec (unat limit) @ '' per second allowed for '' @ chars tenant))"

text \<open>
  The limiter is shared behind an \<open>Arc\<close>, so what \<open>check_n\<close> does to it shows in the map.
\<close>

definition throttle_check ::
    "'l governor_api \<Rightarrow> instant \<Rightarrow> 'l throttle \<Rightarrow> str \<Rightarrow> u32 \<Rightarrow> u32 \<Rightarrow> unit result \<times> 'l throttle" where
  "throttle_check G now th tenant ops cost =
     (let limit = effective_limit th ops in
      if limit = 0 then (Inr (), th)
      else if cost = 0 then (Inr (), th)
      else
        (case throttle_entry G th tenant limit of
           (entry, th') \<Rightarrow>
             (case gov_check_n G now (limiter entry) cost of
                (outcome, l) \<Rightarrow>
                  (admission_result tenant limit cost outcome,
                   th'\<lparr>limiters := dm_insert tenant (entry\<lparr>limiter := l\<rparr>) (limiters th')\<rparr>))))"

definition tracked_tenants :: "'l throttle \<Rightarrow> usize" where
  "tracked_tenants th = length (limiters th)"

subsection \<open>Runs\<close>

text \<open>
  A request as the throttle sees it: when, which tenant, the rate in force and the cost. A run is
  the answers to a sequence of requests.
\<close>

record request =
  at :: instant
  tenant_of :: str
  rate_of :: u32
  cost_of :: u32

fun throttle_run :: "'l governor_api \<Rightarrow> 'l throttle \<Rightarrow> request list \<Rightarrow> unit result list" where
  "throttle_run G th [] = []"
| "throttle_run G th (r # rs) =
     (case throttle_check G (at r) th (tenant_of r) (rate_of r) (cost_of r) of
        (a, th') \<Rightarrow> a # throttle_run G th' rs)"

text \<open>
  What \<open>governor\<close> documents of a limiter for \<open>rate\<close> operations a second, which holds at most \<open>rate\<close>
  of them at once: a request is impossible exactly when it alone asks for more.
\<close>

definition governor_ok :: "'l governor_api \<Rightarrow> (u32 \<Rightarrow> 'l \<Rightarrow> bool) \<Rightarrow> bool" where
  "governor_ok G gi \<longleftrightarrow>
     (\<forall>rate. gi rate (gov_direct G rate))
     \<and> (\<forall>rate l now cost. gi rate l \<longrightarrow> gi rate (snd (gov_check_n G now l cost)))
     \<and> (\<forall>rate l now cost. gi rate l \<longrightarrow> (fst (gov_check_n G now l cost) = Never \<longleftrightarrow> rate < cost))"

definition throttle_wf :: "(u32 \<Rightarrow> 'l \<Rightarrow> bool) \<Rightarrow> 'l throttle \<Rightarrow> bool" where
  "throttle_wf gi th \<longleftrightarrow> (\<forall>t e. dm_get (limiters th) t = Some e \<longrightarrow> gi (ops_per_sec e) (limiter e))"

text \<open>
  A limiter that keeps this documentation: the rate, the instant it was last used, and the
  allowance left then, refilled by \<open>rate\<close> each second (a billion nanoseconds).
\<close>

definition governor_reference :: "(u32 \<times> instant \<times> nat) governor_api" where
  "governor_reference =
     \<lparr>gov_direct = (\<lambda>rate. (rate, 0, unat rate)),
      gov_check_n = (\<lambda>now (rate, before, left) cost.
        let full = min (unat rate) (left + nat (int (unat rate * (now - before)) div 1000000000))
        in if rate < cost then (Never, (rate, before, left))
           else if unat cost \<le> full then (Admitted, (rate, now, full - unat cost))
           else (Not_yet, (rate, before, left)))\<rparr>"

section \<open>Lemmas\<close>

lemma governor_ok_reference: "governor_ok governor_reference (\<lambda>rate l. fst l = rate)"
  by (auto simp: governor_ok_def governor_reference_def Let_def split: prod.splits)

lemma throttle_entry_other:
  "t' \<noteq> t \<Longrightarrow> dm_get (limiters (snd (throttle_entry G th t rate))) t' = dm_get (limiters th) t'"
  by (simp add: throttle_entry_def dashmap_simps Let_def split: option.split)

lemma throttle_entry_default [simp]:
  "default_ops_per_sec (snd (throttle_entry G th t rate)) = default_ops_per_sec th"
  by (simp add: throttle_entry_def Let_def split: option.split)

lemma throttle_check_other:
  "t' \<noteq> t \<Longrightarrow> dm_get (limiters (snd (throttle_check G now th t ops cost))) t' = dm_get (limiters th) t'"
  using throttle_entry_other [of t' t G th "effective_limit th ops"]
  by (simp add: throttle_check_def dashmap_simps Let_def case_prod_beta)

lemma throttle_check_default [simp]:
  "default_ops_per_sec (snd (throttle_check G now th t ops cost)) = default_ops_per_sec th"
  by (simp add: throttle_check_def Let_def case_prod_beta)

text \<open>The answer, and the tenant's limiter after it, depend on that limiter alone.\<close>

lemma throttle_check_local:
  assumes "default_ops_per_sec th = default_ops_per_sec th'"
    and "dm_get (limiters th) t = dm_get (limiters th') t"
  shows "fst (throttle_check G now th t ops cost) = fst (throttle_check G now th' t ops cost)
    \<and> dm_get (limiters (snd (throttle_check G now th t ops cost))) t
      = dm_get (limiters (snd (throttle_check G now th' t ops cost))) t"
  using assms
  by (auto simp: throttle_check_def throttle_entry_def effective_limit_def dashmap_simps Let_def
      split: prod.splits option.splits if_splits)

lemma throttle_run_local:
  assumes "default_ops_per_sec th = default_ops_per_sec th'"
    and "dm_get (limiters th) t = dm_get (limiters th') t"
  shows "map snd (filter (\<lambda>(r, _). tenant_of r = t) (zip rs (throttle_run G th rs)))
    = throttle_run G th' (filter (\<lambda>r. tenant_of r = t) rs)"
  using assms
proof (induction rs arbitrary: th th')
  case (Cons r rs)
  let ?c = "\<lambda>th. throttle_check G (at r) th (tenant_of r) (rate_of r) (cost_of r)"
  show ?case
  proof (cases "tenant_of r = t")
    case True
    with throttle_check_local [OF Cons.prems] Cons.IH [of "snd (?c th)" "snd (?c th')"] Cons.prems(1)
    show ?thesis by (simp add: case_prod_beta)
  next
    case False
    then have "dm_get (limiters (snd (?c th))) t = dm_get (limiters th') t"
      using throttle_check_other [of t "tenant_of r" G "at r" th] Cons.prems(2) by simp
    with False Cons.IH [of "snd (?c th)" th'] Cons.prems(1) show ?thesis
      by (simp add: case_prod_beta)
  qed
qed simp

section \<open>Properties\<close>

text \<open>
  C33: one tenant cannot spend another's allowance. In any sequence of requests, the answers a
  tenant gets are those it would get if its own requests were the only ones.
\<close>

theorem throttle_tenants_independent:
  "map snd (filter (\<lambda>(r, _). tenant_of r = t) (zip rs (throttle_run G th rs)))
     = throttle_run G th (filter (\<lambda>r. tenant_of r = t) rs)"
  by (rule throttle_run_local) simp_all

text \<open>
  What a request is told. With no rate in force, or at no cost, it is admitted. Otherwise a
  request that costs more than a whole second's allowance is refused as one that can never be
  admitted, and only such a request is; the answer to try again later names the rate in force.
\<close>

theorem throttle_check_answers:
  assumes "governor_ok G gi" and "throttle_wf gi th"
    and "throttle_check G now th t ops cost = (r, th')"
  shows "throttle_wf gi th'
    \<and> (let limit = effective_limit th ops in
       (limit = 0 \<or> cost = 0 \<longrightarrow> r = Inr () \<and> th' = th)
       \<and> (limit \<noteq> 0 \<and> cost \<noteq> 0 \<longrightarrow>
            ((\<exists>m. r = Inl (Config m)) \<longleftrightarrow> limit < cost)
            \<and> (limit \<ge> cost \<longrightarrow> r = Inr () \<or> r = Inl (RateLimited t limit))))"
proof -
  let ?limit = "effective_limit th ops"
  obtain e th1 where e: "throttle_entry G th t ?limit = (e, th1)" by fastforce
  obtain a l where g: "gov_check_n G now (limiter e) cost = (a, l)" by fastforce
  have g1: "gi rate (gov_direct G rate)" for rate
    using assms(1) unfolding governor_ok_def by blast
  have w0: "gi (ops_per_sec x) (limiter x)" if "dm_get (limiters th) t' = Some x" for t' x
    using assms(2) that unfolding throttle_wf_def by blast
  have ge: "gi ?limit (limiter e) \<and> ops_per_sec e = ?limit"
    using e g1 [of ?limit] w0 [of t] by (auto simp: throttle_entry_def Let_def split: option.splits if_splits)
  have w1: "throttle_wf gi th1"
    using e g1 [of ?limit] w0 unfolding throttle_wf_def
    by (auto simp: throttle_entry_def Let_def dashmap_simps split: option.splits if_splits)
  have never: "a = Never \<longleftrightarrow> ?limit < cost" and gl: "gi ?limit l"
    using assms(1) ge g unfolding governor_ok_def by (metis fst_conv, metis snd_conv)
  have wf: "throttle_wf gi (th1\<lparr>limiters := dm_insert t (e\<lparr>limiter := l\<rparr>) (limiters th1)\<rparr>)"
    using w1 ge gl by (simp add: throttle_wf_def dashmap_simps)
  show ?thesis
  proof (cases "?limit = 0 \<or> cost = 0")
    case True
    then have "r = Inr ()" "th' = th"
      using assms(3) by (auto simp: throttle_check_def Let_def split: if_splits)
    with True assms(2) show ?thesis by (auto simp: Let_def)
  next
    case False
    then have "throttle_wf gi th'" using assms(3) wf by (simp add: throttle_check_def e g Let_def)
    moreover have "r = admission_result t ?limit cost a"
      using False assms(3) by (simp add: throttle_check_def e g Let_def)
    ultimately show ?thesis
      using False never by (cases a) (auto simp: Let_def)
  qed
qed

end
