(* ===== verification/Watch.thy ===== *)
theory Watch
  imports Core_Types
begin

text \<open>
  Change notification, \<open>ferriskv-node/src/watch.rs\<close>: one broadcast channel per watched tenant.

  The channels are \<open>tokio\<close>'s, third-party code: the record \<open>broadcast_api\<close> holds the functions the
  node calls, over a type \<open>'c\<close> that stands for what a sender and its receivers share. A receiver is
  named by a number. What \<open>tokio\<close> documents is \<open>broadcast_ok\<close>: each receiver gets every change sent
  since it subscribed, in order, until it falls behind by more than the capacity.
\<close>

section \<open>Definitions\<close>

datatype change_kind = Put | Delete

record key_change =
  kind :: change_kind
  ckey :: bytes
  cvalue :: bytes

text \<open>The outcomes of \<open>recv\<close>: a value, \<open>Lagged\<close>, \<open>Closed\<close>, or nothing to receive yet.\<close>

datatype recv = Received key_change | Lagged u64 | Closed | Pending

record 'c broadcast_api =
  bc_channel :: "usize \<Rightarrow> 'c"
  bc_subscribe :: "'c \<Rightarrow> nat \<times> 'c"
  bc_receiver_count :: "'c \<Rightarrow> usize"
  bc_send :: "'c \<Rightarrow> key_change \<Rightarrow> 'c"
  bc_recv :: "'c \<Rightarrow> nat \<Rightarrow> recv \<times> 'c"
  bc_drop :: "'c \<Rightarrow> nat \<Rightarrow> 'c"

record 'c watch_hub =
  capacity :: usize
  channels :: "(str, 'c) dashmap"

definition hub_new :: "usize \<Rightarrow> 'c watch_hub" where
  "hub_new n = \<lparr>capacity = n, channels = []\<rparr>"

text \<open>The receiver, and the hub, whose sender now counts one more.\<close>

definition subscribe :: "'c broadcast_api \<Rightarrow> 'c watch_hub \<Rightarrow> str \<Rightarrow> nat \<times> 'c watch_hub" where
  "subscribe B hub tenant =
     (let tx = (case dm_get (channels hub) tenant of
                  Some tx \<Rightarrow> tx
                | None \<Rightarrow> bc_channel B (capacity hub))
      in case bc_subscribe B tx of
           (rx, tx') \<Rightarrow> (rx, hub\<lparr>channels := dm_insert tenant tx' (channels hub)\<rparr>))"

definition is_watched :: "'c broadcast_api \<Rightarrow> 'c watch_hub \<Rightarrow> str \<Rightarrow> bool" where
  "is_watched B hub tenant =
     (case dm_get (channels hub) tenant of
        None \<Rightarrow> False
      | Some tx \<Rightarrow> bc_receiver_count B tx > 0)"

definition publish :: "'c broadcast_api \<Rightarrow> 'c watch_hub \<Rightarrow> str \<Rightarrow> key_change \<Rightarrow> 'c watch_hub" where
  "publish B hub tenant change =
     (case dm_get (channels hub) tenant of
        None \<Rightarrow> hub
      | Some tx \<Rightarrow>
          if bc_receiver_count B tx = 0 then hub\<lparr>channels := dm_remove tenant (channels hub)\<rparr>
          else hub\<lparr>channels := dm_insert tenant (bc_send B tx change) (channels hub)\<rparr>)"

definition watched_tenants :: "'c watch_hub \<Rightarrow> usize" where
  "watched_tenants hub = length (channels hub)"

definition subscriber_count :: "'c broadcast_api \<Rightarrow> 'c watch_hub \<Rightarrow> str \<Rightarrow> usize" where
  "subscriber_count B hub tenant =
     (case dm_get (channels hub) tenant of None \<Rightarrow> 0 | Some tx \<Rightarrow> bc_receiver_count B tx)"

subsection \<open>What tokio documents\<close>

text \<open>
  \<open>bq c\<close> maps each live receiver of a channel to the changes sent since it subscribed and not yet
  received, \<open>bcap c\<close> is the capacity asked for; the one in use may be larger.
\<close>

definition broadcast_ok ::
    "'c broadcast_api \<Rightarrow> ('c \<Rightarrow> bool) \<Rightarrow> ('c \<Rightarrow> nat \<rightharpoonup> key_change list) \<Rightarrow> ('c \<Rightarrow> usize) \<Rightarrow> bool" where
  "broadcast_ok B bi bq bcap \<longleftrightarrow>
     (\<forall>n. 0 < n \<longrightarrow> bi (bc_channel B n) \<and> bq (bc_channel B n) = Map.empty \<and> bcap (bc_channel B n) = n)
     \<and> (\<forall>c rx c'. bi c \<longrightarrow> bc_subscribe B c = (rx, c') \<longrightarrow>
           bi c' \<and> bq c rx = None \<and> bq c' = (bq c)(rx \<mapsto> []) \<and> bcap c' = bcap c)
     \<and> (\<forall>c. bi c \<longrightarrow> (bc_receiver_count B c = 0 \<longleftrightarrow> bq c = Map.empty))
     \<and> (\<forall>c x. bi c \<longrightarrow> bi (bc_send B c x) \<and> bcap (bc_send B c x) = bcap c
           \<and> bq (bc_send B c x) = (\<lambda>rx. map_option (\<lambda>q. q @ [x]) (bq c rx)))
     \<and> (\<forall>c rx. bi c \<longrightarrow> bi (bc_drop B c rx) \<and> bcap (bc_drop B c rx) = bcap c
           \<and> bq (bc_drop B c rx) = (bq c)(rx := None))
     \<and> (\<forall>c rx q r c'. bi c \<longrightarrow> bq c rx = Some q \<longrightarrow> bc_recv B c rx = (r, c') \<longrightarrow>
           bi c' \<and> bcap c' = bcap c
           \<and> (length q \<le> bcap c \<longrightarrow> r = (case q of [] \<Rightarrow> Pending | x # _ \<Rightarrow> Received x))
           \<and> (length q > bcap c \<longrightarrow> (\<exists>n. r = Lagged n) \<or> r = Received (hd q))
           \<and> (\<exists>q'. bq c' = (bq c)(rx \<mapsto> q') \<and> ((\<nexists>n. r = Lagged n) \<longrightarrow> q' = tl q)))"

text \<open>A channel that keeps this documentation, with every queue spelled out.\<close>

record channel =
  ch_capacity :: usize
  ch_next :: nat
  ch_queues :: "(nat, key_change list) dashmap"

definition broadcast_reference :: "channel broadcast_api" where
  "broadcast_reference =
     \<lparr>bc_channel = (\<lambda>n. \<lparr>ch_capacity = n, ch_next = 0, ch_queues = []\<rparr>),
      bc_subscribe = (\<lambda>c. (ch_next c,
        c\<lparr>ch_next := ch_next c + 1, ch_queues := dm_insert (ch_next c) [] (ch_queues c)\<rparr>)),
      bc_receiver_count = (\<lambda>c. length (ch_queues c)),
      bc_send = (\<lambda>c x. c\<lparr>ch_queues := map (\<lambda>(rx, q). (rx, q @ [x])) (ch_queues c)\<rparr>),
      bc_recv = (\<lambda>c rx. case dm_get (ch_queues c) rx of
          None \<Rightarrow> (Closed, c)
        | Some [] \<Rightarrow> (Pending, c)
        | Some (x # q) \<Rightarrow>
            if length (x # q) \<le> ch_capacity c
            then (Received x, c\<lparr>ch_queues := dm_insert rx q (ch_queues c)\<rparr>)
            else (let missed = length (x # q) - ch_capacity c
                  in (Lagged (word_of_nat missed),
                      c\<lparr>ch_queues := dm_insert rx (drop missed (x # q)) (ch_queues c)\<rparr>))),
      bc_drop = (\<lambda>c rx. c\<lparr>ch_queues := dm_remove rx (ch_queues c)\<rparr>)\<rparr>"

definition channel_wf :: "channel \<Rightarrow> bool" where
  "channel_wf c \<longleftrightarrow> (\<forall>rx\<in>dom (dm_get (ch_queues c)). rx < ch_next c)"

text \<open>
  What is in flight to a receiver of a tenant's channel, and the hubs whose channels are in order.
\<close>

definition in_flight :: "('c \<Rightarrow> nat \<rightharpoonup> key_change list) \<Rightarrow> 'c watch_hub \<Rightarrow> str \<Rightarrow> nat \<rightharpoonup> key_change list" where
  "in_flight bq hub tenant =
     (case dm_get (channels hub) tenant of None \<Rightarrow> Map.empty | Some tx \<Rightarrow> bq tx)"

definition hub_wf :: "('c \<Rightarrow> bool) \<Rightarrow> 'c watch_hub \<Rightarrow> bool" where
  "hub_wf bi hub \<longleftrightarrow> 0 < capacity hub \<and> (\<forall>t tx. dm_get (channels hub) t = Some tx \<longrightarrow> bi tx)"

section \<open>Lemmas\<close>

lemma broadcast_okD:
  assumes "broadcast_ok B bi bq bcap"
  shows "0 < n \<Longrightarrow> bi (bc_channel B n) \<and> bq (bc_channel B n) = Map.empty \<and> bcap (bc_channel B n) = n"
    and "bi c \<Longrightarrow> bc_subscribe B c = (rx, c') \<Longrightarrow>
      bi c' \<and> bq c rx = None \<and> bq c' = (bq c)(rx \<mapsto> []) \<and> bcap c' = bcap c"
    and "bi c \<Longrightarrow> bc_receiver_count B c = 0 \<longleftrightarrow> bq c = Map.empty"
    and "bi c \<Longrightarrow> bi (bc_send B c x) \<and> bcap (bc_send B c x) = bcap c
      \<and> bq (bc_send B c x) = (\<lambda>rx. map_option (\<lambda>q. q @ [x]) (bq c rx))"
    and "bi c \<Longrightarrow> bi (bc_drop B c rx) \<and> bcap (bc_drop B c rx) = bcap c
      \<and> bq (bc_drop B c rx) = (bq c)(rx := None)"
    and "bi c \<Longrightarrow> bq c rx = Some q \<Longrightarrow> bc_recv B c rx = (r, c') \<Longrightarrow>
      bi c' \<and> bcap c' = bcap c
      \<and> (length q \<le> bcap c \<longrightarrow> r = (case q of [] \<Rightarrow> Pending | x # _ \<Rightarrow> Received x))
      \<and> (length q > bcap c \<longrightarrow> (\<exists>n. r = Lagged n) \<or> r = Received (hd q))
      \<and> (\<exists>q'. bq c' = (bq c)(rx \<mapsto> q') \<and> ((\<nexists>n. r = Lagged n) \<longrightarrow> q' = tl q))"
  using assms unfolding broadcast_ok_def by blast+

lemma dm_get_map_values: "dm_get (map (\<lambda>(k, v). (k, f v)) m) = (\<lambda>k. map_option f (dm_get m k))"
  by (simp add: dm_get_def map_of_map fun_eq_iff)

lemma channel_wf_fresh: "channel_wf c \<Longrightarrow> dm_get (ch_queues c) (ch_next c) = None"
  by (auto simp: channel_wf_def)

lemma reference_recv:
  assumes "bc_recv broadcast_reference c rx = (r, c')" and "dm_get (ch_queues c) rx = Some q"
    and "channel_wf c"
  shows "channel_wf c' \<and> ch_capacity c' = ch_capacity c
    \<and> (length q \<le> ch_capacity c \<longrightarrow> r = (case q of [] \<Rightarrow> Pending | x # _ \<Rightarrow> Received x))
    \<and> (length q > ch_capacity c \<longrightarrow> (\<exists>n. r = Lagged n) \<or> r = Received (hd q))
    \<and> (\<exists>q'. dm_get (ch_queues c') = (dm_get (ch_queues c))(rx \<mapsto> q')
         \<and> ((\<nexists>n. r = Lagged n) \<longrightarrow> q' = tl q))"
proof -
  have ins: "channel_wf (c\<lparr>ch_queues := dm_insert rx q' (ch_queues c)\<rparr>)" for q'
    using assms(2,3) by (auto simp: channel_wf_def dashmap_simps)
  show ?thesis
    using assms ins
    by (cases q) (auto simp: broadcast_reference_def dashmap_simps Let_def fun_upd_idem split: if_splits)
qed

lemma broadcast_ok_reference:
  "broadcast_ok broadcast_reference channel_wf (\<lambda>c. dm_get (ch_queues c)) ch_capacity"
proof -
  have 1: "channel_wf (bc_channel broadcast_reference n)
      \<and> dm_get (ch_queues (bc_channel broadcast_reference n)) = Map.empty
      \<and> ch_capacity (bc_channel broadcast_reference n) = n" for n
    by (simp add: broadcast_reference_def channel_wf_def dashmap_simps)
  have 2: "channel_wf c' \<and> dm_get (ch_queues c) rx = None
      \<and> dm_get (ch_queues c') = (dm_get (ch_queues c))(rx \<mapsto> []) \<and> ch_capacity c' = ch_capacity c"
    if "channel_wf c" "bc_subscribe broadcast_reference c = (rx, c')" for c rx c'
    using that channel_wf_fresh [of c]
    by (auto simp: broadcast_reference_def channel_wf_def dashmap_simps less_Suc_eq)
  have 3: "bc_receiver_count broadcast_reference c = 0 \<longleftrightarrow> dm_get (ch_queues c) = Map.empty" for c
    using dom_dm_get [of "ch_queues c"] by (auto simp: broadcast_reference_def dashmap_simps)
  have 4: "channel_wf (bc_send broadcast_reference c x)
      \<and> ch_capacity (bc_send broadcast_reference c x) = ch_capacity c
      \<and> dm_get (ch_queues (bc_send broadcast_reference c x))
        = (\<lambda>rx. map_option (\<lambda>q. q @ [x]) (dm_get (ch_queues c) rx))" if "channel_wf c" for c x
    using that by (auto simp: broadcast_reference_def channel_wf_def dm_get_map_values)
  have 5: "channel_wf (bc_drop broadcast_reference c rx)
      \<and> ch_capacity (bc_drop broadcast_reference c rx) = ch_capacity c
      \<and> dm_get (ch_queues (bc_drop broadcast_reference c rx)) = (dm_get (ch_queues c))(rx := None)"
    if "channel_wf c" for c rx
    using that by (auto simp: broadcast_reference_def channel_wf_def dashmap_simps)
  show ?thesis
    unfolding broadcast_ok_def using 1 2 3 4 5 reference_recv by blast
qed

subsection \<open>The hub\<close>

lemma subscribe_in_flight:
  assumes "broadcast_ok B bi bq bcap" and "hub_wf bi hub" and "subscribe B hub t = (rx, hub')"
  shows "hub_wf bi hub' \<and> in_flight bq hub t rx = None
    \<and> in_flight bq hub' t' = (if t' = t then (in_flight bq hub t)(rx \<mapsto> []) else in_flight bq hub t')"
proof -
  define tx where "tx = (case dm_get (channels hub) t of Some tx \<Rightarrow> tx | None \<Rightarrow> bc_channel B (capacity hub))"
  have tx: "bi tx \<and> bq tx = in_flight bq hub t"
    using assms(2) broadcast_okD(1) [OF assms(1), of "capacity hub"]
    by (auto simp: hub_wf_def tx_def in_flight_def split: option.split)
  obtain tx' where s: "bc_subscribe B tx = (rx, tx')"
    and hub': "hub' = hub\<lparr>channels := dm_insert t tx' (channels hub)\<rparr>"
    using assms(3) by (auto simp: subscribe_def tx_def Let_def split: prod.splits)
  have "bi tx' \<and> bq tx rx = None \<and> bq tx' = (bq tx)(rx \<mapsto> [])"
    using broadcast_okD(2) [OF assms(1) _ s] tx by blast
  with tx assms(2) show ?thesis
    by (auto simp: hub' hub_wf_def in_flight_def dashmap_simps)
qed

lemma is_watched_iff:
  assumes "broadcast_ok B bi bq bcap" and "hub_wf bi hub"
  shows "is_watched B hub t \<longleftrightarrow> in_flight bq hub t \<noteq> Map.empty"
proof (cases "dm_get (channels hub) t")
  case (Some tx)
  then have "bi tx" using assms(2) by (simp add: hub_wf_def)
  from broadcast_okD(3) [OF assms(1) this] Some show ?thesis
    by (simp add: is_watched_def in_flight_def) (metis neq0_conv)
qed (simp add: is_watched_def in_flight_def)

lemma publish_in_flight:
  assumes "broadcast_ok B bi bq bcap" and "hub_wf bi hub"
  shows "hub_wf bi (publish B hub t x)
    \<and> in_flight bq (publish B hub t x) t'
      = (if t' = t then (\<lambda>rx. map_option (\<lambda>q. q @ [x]) (in_flight bq hub t rx)) else in_flight bq hub t')"
proof (cases "dm_get (channels hub) t")
  case None
  with assms(2) show ?thesis by (simp add: publish_def in_flight_def)
next
  case (Some tx)
  then have tx: "bi tx" using assms(2) by (simp add: hub_wf_def)
  note count = broadcast_okD(3) [OF assms(1) tx] and send = broadcast_okD(4) [OF assms(1) tx, of x]
  show ?thesis
    using Some assms(2) count send
    by (auto simp: publish_def in_flight_def hub_wf_def dashmap_simps)
qed

end
