(* ===== verification/Ttl.thy ===== *)
theory Ttl
  imports Core_Types
begin

text \<open>
  The expiry index of \<open>ferriskv-node/src/ttl.rs\<close>: for each expiry instant the set of keys due then.
  The \<open>BTreeMap\<close> of \<open>BTreeSet\<close>s is a list of buckets by increasing instant, each a sorted list of
  keys; \<open>scheduled\<close> is the set of pairs it stands for. The sweeper that consumes the index is in the
  theory of the node service, which it calls; what it relies on is the locale \<open>expiry_index\<close>.

  \<open>Notify\<close> holds at most one permit for its single waiter, the sweeper.
\<close>

section \<open>Definitions\<close>

type_synonym buckets = "(u64 \<times> bytes list) list"

record ttl_index =
  by_expiry :: buckets
  ttl_total :: usize
  notify :: bool

definition ttl_new :: ttl_index where
  "ttl_new = \<lparr>by_expiry = [], ttl_total = 0, notify = False\<rparr>"

text \<open>\<open>by_expiry.entry(e).or_default().insert(key)\<close>: the buckets, and whether the key was new.\<close>

fun bucket_insert :: "u64 \<Rightarrow> bytes \<Rightarrow> buckets \<Rightarrow> buckets \<times> bool" where
  "bucket_insert e k [] = ([(e, [k])], True)"
| "bucket_insert e k ((x, ks) # bs) =
     (if e < x then ((e, [k]) # (x, ks) # bs, True)
      else if e = x then ((x, insort_insert k ks) # bs, k \<notin> set ks)
      else (case bucket_insert e k bs of (bs', new) \<Rightarrow> ((x, ks) # bs', new)))"

definition next_due_ms :: "ttl_index \<Rightarrow> u64 option" where
  "next_due_ms ix = (case by_expiry ix of [] \<Rightarrow> None | (e, _) # _ \<Rightarrow> Some e)"

definition schedule :: "ttl_index \<Rightarrow> bytes \<Rightarrow> u64 \<Rightarrow> ttl_index" where
  "schedule ix key e =
     (case bucket_insert e key (by_expiry ix) of
        (bs, inserted) \<Rightarrow>
          ix\<lparr>by_expiry := bs,
             ttl_total := (if inserted then ttl_total ix + 1 else ttl_total ix),
             notify := notify ix \<or> (case next_due_ms ix of None \<Rightarrow> True | Some prev \<Rightarrow> e < prev)\<rparr>)"

fun drain_loop :: "u64 \<Rightarrow> buckets \<Rightarrow> bytes list \<Rightarrow> bytes list \<times> buckets" where
  "drain_loop now [] out = (out, [])"
| "drain_loop now ((e, ks) # bs) out =
     (if e > now then (out, (e, ks) # bs) else drain_loop now bs (out @ ks))"

definition drain_due :: "ttl_index \<Rightarrow> u64 \<Rightarrow> bytes list \<times> ttl_index" where
  "drain_due ix now =
     (case drain_loop now (by_expiry ix) [] of
        (out, bs) \<Rightarrow> (out, ix\<lparr>by_expiry := bs, ttl_total := ttl_total ix - length out\<rparr>))"

definition ttl_len :: "ttl_index \<Rightarrow> usize" where
  "ttl_len ix = ttl_total ix"

definition ttl_is_empty :: "ttl_index \<Rightarrow> bool" where
  "ttl_is_empty ix \<longleftrightarrow> ttl_len ix = 0"

subsection \<open>What the index stands for\<close>

definition bucket_pairs :: "buckets \<Rightarrow> (u64 \<times> bytes) set" where
  "bucket_pairs bs = {(e, k). \<exists>ks. (e, ks) \<in> set bs \<and> k \<in> set ks}"

definition scheduled :: "ttl_index \<Rightarrow> (u64 \<times> bytes) set" where
  "scheduled ix = bucket_pairs (by_expiry ix)"

definition buckets_wf :: "buckets \<Rightarrow> bool" where
  "buckets_wf bs \<longleftrightarrow>
     sorted (map fst bs) \<and> distinct (map fst bs)
     \<and> list_all (\<lambda>(_, ks). ks \<noteq> [] \<and> sorted ks \<and> distinct ks) bs"

definition ttl_wf :: "ttl_index \<Rightarrow> bool" where
  "ttl_wf ix \<longleftrightarrow> buckets_wf (by_expiry ix) \<and> ttl_total ix = (\<Sum>(_, ks)\<leftarrow>by_expiry ix. length ks)"

subsection \<open>Runs\<close>

text \<open>The calls that change the index; a drain returns the keys it took out.\<close>

datatype ttl_op = Schedule bytes u64 | Drain u64

fun ttl_run :: "ttl_op list \<Rightarrow> ttl_index \<Rightarrow> bytes list list \<times> ttl_index" where
  "ttl_run [] ix = ([], ix)"
| "ttl_run (Schedule k e # ops) ix = ttl_run ops (schedule ix k e)"
| "ttl_run (Drain now # ops) ix =
     (case drain_due ix now of (out, ix') \<Rightarrow> (case ttl_run ops ix' of (outs, fin) \<Rightarrow> (out # outs, fin)))"

text \<open>The same calls on a set of pairs.\<close>

fun set_run :: "ttl_op list \<Rightarrow> (u64 \<times> bytes) set \<Rightarrow> bytes set list \<times> (u64 \<times> bytes) set" where
  "set_run [] P = ([], P)"
| "set_run (Schedule k e # ops) P = set_run ops (insert (e, k) P)"
| "set_run (Drain now # ops) P =
     (case set_run ops {(e, k) \<in> P. now < e} of (outs, fin) \<Rightarrow> ({k. \<exists>e\<le>now. (e, k) \<in> P} # outs, fin))"

section \<open>The interface of an expiry index\<close>

text \<open>
  What the service and the sweeper rely on: an index stands for a set of pairs of an instant and a
  key; scheduling adds a pair, draining removes and returns what is due, the next due instant is
  the least.
\<close>

locale expiry_index =
  fixes new :: 'i
    and sched :: "'i \<Rightarrow> 'k \<Rightarrow> 't::linorder \<Rightarrow> 'i"
    and drain :: "'i \<Rightarrow> 't \<Rightarrow> 'k list \<times> 'i"
    and next_due :: "'i \<Rightarrow> 't option"
    and pairs :: "'i \<Rightarrow> ('t \<times> 'k) set"
    and wf :: "'i \<Rightarrow> bool"
  assumes new_wf: "wf new" and new_pairs: "pairs new = {}"
    and sched_wf: "wf i \<Longrightarrow> wf (sched i k e)" and sched_pairs: "wf i \<Longrightarrow> pairs (sched i k e) = insert (e, k) (pairs i)"
    and drain_law: "wf i \<Longrightarrow> drain i now = (out, i') \<Longrightarrow>
      wf i' \<and> pairs i' = {(e, k) \<in> pairs i. now < e} \<and> set out = {k. \<exists>e\<le>now. (e, k) \<in> pairs i}"
    and next_due_law: "wf i \<Longrightarrow>
      case next_due i of None \<Rightarrow> pairs i = {} | Some d \<Rightarrow> d \<in> fst ` pairs i \<and> (\<forall>(e, k)\<in>pairs i. d \<le> e)"
begin

text \<open>Nothing is due right after a drain, so the sweeper sleeps until a later instant.\<close>

lemma next_due_after_drain:
  assumes "wf i" and "drain i now = (out, i')" and "next_due i' = Some d"
  shows "now < d"
  using drain_law [OF assms(1,2)] next_due_law [of i'] assms(3) by auto

text \<open>There is something to drain exactly when the next due instant has come.\<close>

lemma drain_empty_iff:
  assumes "wf i" and "drain i now = (out, i')"
  shows "out = [] \<longleftrightarrow> (case next_due i of None \<Rightarrow> True | Some d \<Rightarrow> now < d)"
proof (cases "next_due i")
  case None
  with next_due_law [OF assms(1)] drain_law [OF assms] show ?thesis by (simp flip: set_empty)
next
  case (Some d)
  with next_due_law [OF assms(1)] have d: "d \<in> fst ` pairs i" "\<And>e k. (e, k) \<in> pairs i \<Longrightarrow> d \<le> e" by auto
  have "out = [] \<longleftrightarrow> (\<forall>(e, k)\<in>pairs i. now < e)" using drain_law [OF assms] by (auto simp: not_le simp flip: set_empty)
  also have "\<dots> \<longleftrightarrow> now < d" using d by force
  finally show ?thesis using Some by simp
qed

end

section \<open>Lemmas\<close>

lemma ttl_wf_new [simp]: "ttl_wf ttl_new" "scheduled ttl_new = {}"
  by (simp_all add: ttl_wf_def buckets_wf_def scheduled_def bucket_pairs_def ttl_new_def)

lemma bucket_pairs_simps [simp]:
  "bucket_pairs [] = {}"
  "bucket_pairs ((e, ks) # bs) = {e} \<times> set ks \<union> bucket_pairs bs"
  by (auto simp: bucket_pairs_def)

lemma bucket_insert_pairs: "bucket_pairs (fst (bucket_insert e k bs)) = insert (e, k) (bucket_pairs bs)"
  by (induction e k bs rule: bucket_insert.induct)
    (auto simp: set_insort_insert split: prod.splits)

lemma bucket_insert_fsts: "set (map fst (fst (bucket_insert e k bs))) = insert e (set (map fst bs))"
  by (induction e k bs rule: bucket_insert.induct) (auto simp: case_prod_beta)

lemma insort_insert_nonempty: "ks \<noteq> [] \<Longrightarrow> insort_insert k ks \<noteq> []"
  by (metis insert_not_empty set_empty set_insort_insert)

lemma buckets_wf_Cons:
  "buckets_wf ((e, ks) # bs) \<longleftrightarrow>
     ks \<noteq> [] \<and> sorted ks \<and> distinct ks \<and> (\<forall>x\<in>set (map fst bs). e < x) \<and> buckets_wf bs"
  by (auto simp: buckets_wf_def less_le)

lemma bucket_insert_wf: "buckets_wf bs \<Longrightarrow> buckets_wf (fst (bucket_insert e k bs))"
proof (induction e k bs rule: bucket_insert.induct)
  case (1 e k)
  then show ?case by (simp add: buckets_wf_def)
next
  case (2 e k x ks bs)
  then show ?case
    using bucket_insert_fsts [of e k bs]
    by (auto simp: buckets_wf_Cons sorted_insort_insert distinct_insort_insert case_prod_beta
        insort_insert_nonempty split: if_splits)
qed

lemma bucket_insert_total:
  "(\<Sum>(_, ks)\<leftarrow>fst (bucket_insert e k bs). length ks)
     = (\<Sum>(_, ks)\<leftarrow>bs. length ks) + (if snd (bucket_insert e k bs) then 1 else 0)"
  by (induction e k bs rule: bucket_insert.induct)
    (auto simp: insort_insert_insort insort_insert_triv split: prod.splits)

lemma schedule_wf: "ttl_wf ix \<Longrightarrow> ttl_wf (schedule ix k e)"
  using bucket_insert_wf [of "by_expiry ix" e k] bucket_insert_total [of e k "by_expiry ix"]
  by (auto simp: ttl_wf_def schedule_def split: prod.splits)

lemma scheduled_schedule [simp]: "scheduled (schedule ix k e) = insert (e, k) (scheduled ix)"
  using bucket_insert_pairs [of e k "by_expiry ix"]
  by (simp add: scheduled_def schedule_def case_prod_beta)

lemma drain_loop_eq:
  assumes "buckets_wf bs" and "drain_loop now bs out = (out', bs')"
  shows "buckets_wf bs' \<and> bucket_pairs bs' = {(e, k) \<in> bucket_pairs bs. now < e}
    \<and> (\<exists>ds. out' = out @ ds \<and> set ds = {k. \<exists>e\<le>now. (e, k) \<in> bucket_pairs bs}
        \<and> (\<Sum>(_, ks)\<leftarrow>bs. length ks) = length ds + (\<Sum>(_, ks)\<leftarrow>bs'. length ks))"
  using assms
proof (induction now bs out rule: drain_loop.induct)
  case (1 now out)
  then show ?case by simp
next
  case (2 now e ks bs out)
  show ?case
  proof (cases "e > now")
    case True
    have "now < x" if "(x, k) \<in> bucket_pairs ((e, ks) # bs)" for x k
      using that True 2(2) by (force simp: buckets_wf_Cons bucket_pairs_def)
    with True 2(2,3) show ?thesis by (force simp: not_less [symmetric])
  next
    case False
    with 2 obtain ds where "buckets_wf bs'"
      "bucket_pairs bs' = {(e, k) \<in> bucket_pairs bs. now < e}" "out' = (out @ ks) @ ds"
      "set ds = {k. \<exists>e\<le>now. (e, k) \<in> bucket_pairs bs}"
      "(\<Sum>(_, ks)\<leftarrow>bs. length ks) = length ds + (\<Sum>(_, ks)\<leftarrow>bs'. length ks)"
      by (auto simp: buckets_wf_Cons)
    with False show ?thesis
      by (intro conjI exI [of _ "ks @ ds"]) (auto simp: not_less)
  qed
qed

lemma drain_due_eq:
  assumes "ttl_wf ix" and "drain_due ix now = (out, ix')"
  shows "ttl_wf ix' \<and> scheduled ix' = {(e, k) \<in> scheduled ix. now < e}
    \<and> set out = {k. \<exists>e\<le>now. (e, k) \<in> scheduled ix}"
proof -
  obtain bs where d: "drain_loop now (by_expiry ix) [] = (out, bs)"
    and ix': "ix' = ix\<lparr>by_expiry := bs, ttl_total := ttl_total ix - length out\<rparr>"
    using assms(2) by (auto simp: drain_due_def split: prod.splits)
  from drain_loop_eq [OF _ d] assms(1) show ?thesis
    by (auto simp: ix' ttl_wf_def scheduled_def)
qed

lemma next_due_ms_Min:
  assumes "ttl_wf ix"
  shows "case next_due_ms ix of
      None \<Rightarrow> scheduled ix = {}
    | Some d \<Rightarrow> (\<exists>k. (d, k) \<in> scheduled ix) \<and> (\<forall>(e, k)\<in>scheduled ix. d \<le> e)"
  using assms
  by (cases "by_expiry ix")
    (force simp: next_due_ms_def scheduled_def ttl_wf_def buckets_wf_Cons bucket_pairs_def
      neq_Nil_conv split: prod.splits)+

interpretation ix: expiry_index ttl_new schedule drain_due next_due_ms scheduled ttl_wf
proof (unfold_locales, goal_cases)
  case (5 i now out i')
  then show ?case by (rule drain_due_eq)
next
  case (6 i)
  then show ?case using next_due_ms_Min [of i] by (force split: option.splits)
qed (simp_all add: schedule_wf)

text \<open>The counter is the number of pairs.\<close>

lemma finite_bucket_pairs: "finite (bucket_pairs bs)"
  by (induction bs) auto

lemma card_bucket_pairs: "buckets_wf bs \<Longrightarrow> card (bucket_pairs bs) = (\<Sum>(_, ks)\<leftarrow>bs. length ks)"
proof (induction bs)
  case (Cons b bs)
  obtain e ks where b: "b = (e, ks)" by fastforce
  with Cons.prems have "distinct ks" "buckets_wf bs" "({e} \<times> set ks) \<inter> bucket_pairs bs = {}"
    by (auto simp: buckets_wf_Cons) (force simp: bucket_pairs_def)
  with Cons.IH show ?case
    by (simp add: b card_Un_disjoint finite_bucket_pairs card_cartesian_product distinct_card)
qed simp

lemma ttl_run_refines:
  assumes "ttl_wf ix" and "ttl_run ops ix = (outs, ix')"
  shows "ttl_wf ix' \<and> set_run ops (scheduled ix) = (map set outs, scheduled ix')"
  using assms
proof (induction ops ix arbitrary: outs ix' rule: ttl_run.induct)
  case (1 ix)
  then show ?case by simp
next
  case (2 k e ops ix)
  with ix.sched_wf ix.sched_pairs show ?case by auto
next
  case (3 now ops ix)
  obtain out ix1 where d: "drain_due ix now = (out, ix1)" by fastforce
  obtain outs1 where r: "ttl_run ops ix1 = (outs1, ix')" "outs = out # outs1"
    using 3(3) d by (auto split: prod.splits)
  with 3(1) [OF d [symmetric]] ix.drain_law [OF 3(2) d] show ?case by (simp add: d)
qed

section \<open>Properties\<close>

text \<open>
  C21: the expiry index is a set of pairs. After any sequence of calls on a new index its buckets are
  sorted by instant, non-empty and without duplicates, its counter is the number of pairs scheduled
  and not drained (so the saturating subtraction never saturates), every drain returned exactly the
  keys that were due, and the next due instant is the least one left.
\<close>

theorem ttl_index_refines_set:
  "case ttl_run ops ttl_new of (outs, ix) \<Rightarrow>
     ttl_wf ix \<and> set_run ops {} = (map set outs, scheduled ix) \<and> ttl_len ix = card (scheduled ix)
     \<and> (ttl_is_empty ix \<longleftrightarrow> next_due_ms ix = None)"
proof -
  obtain outs ix where r: "ttl_run ops ttl_new = (outs, ix)" by fastforce
  have wf: "ttl_wf ix" and s: "set_run ops {} = (map set outs, scheduled ix)"
    using ttl_run_refines [OF ix.new_wf r] by simp_all
  have len: "ttl_len ix = card (scheduled ix)"
    using wf card_bucket_pairs by (simp add: ttl_len_def ttl_wf_def scheduled_def)
  have "next_due_ms ix = None \<longleftrightarrow> scheduled ix = {}"
    using ix.next_due_law [OF wf] by (auto split: option.splits)
  also have "\<dots> \<longleftrightarrow> ttl_is_empty ix" using len by (simp add: ttl_is_empty_def scheduled_def finite_bucket_pairs)
  finally show ?thesis using r wf s len by simp
qed

end
