(* ===== verification/Std_Io.thy ===== *)
theory Std_Io
  imports Core_Types
begin

text \<open>
  The file operations of the Rust standard library that the write-ahead log uses. A file is its
  contents as the operating system holds them, which outlive the process.

  Every call into the operating system may fail. The outcomes of one operation are an oracle \<open>io\<close>:
  \<open>io n = None\<close> when the \<open>n\<close>-th call of that operation, counted in the order of the source,
  succeeds, and \<open>io n = Some (e, m)\<close> when it fails with \<open>e\<close>, a write having stored \<open>m\<close> bytes first.
  Properties quantify over the oracle, so they cover every fault at every point.

  \<open>BufWriter\<close> keeps what it could not write: after a failed flush the rest stays buffered and goes
  out with the next one, while a write of at least its capacity bypasses the buffer.
\<close>

section \<open>Definitions\<close>

type_synonym io = "nat \<Rightarrow> (io_error \<times> nat) option"

definition io_ok :: io where
  "io_ok = (\<lambda>_. None)"

definition on_io :: "io \<Rightarrow> nat \<Rightarrow> (io_error \<Rightarrow> nat \<Rightarrow> 'a) \<Rightarrow> 'a \<Rightarrow> 'a" where
  "on_io io n failed k = (case io n of None \<Rightarrow> k | Some (e, m) \<Rightarrow> failed e m)"

text \<open>What a failed write of \<open>data\<close> stored: never all of it.\<close>

definition written :: "nat \<Rightarrow> bytes \<Rightarrow> bytes" where
  "written m data = take (min m (length data - 1)) data"

definition unwritten :: "nat \<Rightarrow> bytes \<Rightarrow> bytes" where
  "unwritten m data = drop (min m (length data - 1)) data"

record buf_writer =
  bw_buf :: bytes

definition BUF_CAPACITY :: usize where
  "BUF_CAPACITY = 8192"

definition bw_new :: buf_writer where
  "bw_new = \<lparr>bw_buf = []\<rparr>"

text \<open>\<open>BufWriter::flush_buf\<close>, as call \<open>n\<close>; an empty buffer needs no call.\<close>

definition flush_buf ::
    "io \<Rightarrow> nat \<Rightarrow> buf_writer \<Rightarrow> bytes \<Rightarrow> unit result \<times> buf_writer \<times> bytes" where
  "flush_buf io n w file =
     (if bw_buf w = [] then (Inr (), w, file)
      else on_io io n
        (\<lambda>e m. (Inl (Io e), w\<lparr>bw_buf := unwritten m (bw_buf w)\<rparr>, file @ written m (bw_buf w)))
        (Inr (), w\<lparr>bw_buf := []\<rparr>, file @ bw_buf w))"

text \<open>\<open>BufWriter::write_all\<close>, using calls \<open>n\<close> and \<open>n + 1\<close>.\<close>

definition bw_write_all ::
    "io \<Rightarrow> nat \<Rightarrow> buf_writer \<Rightarrow> bytes \<Rightarrow> bytes \<Rightarrow> unit result \<times> buf_writer \<times> bytes" where
  "bw_write_all io n w data file =
     (let spare = BUF_CAPACITY - length (bw_buf w) in
      if length data < spare then (Inr (), w\<lparr>bw_buf := bw_buf w @ data\<rparr>, file)
      else
        (case (if length data > spare then flush_buf io n w file else (Inr (), w, file)) of
           (Inl e, w', file') \<Rightarrow> (Inl e, w', file')
         | (Inr _, w', file') \<Rightarrow>
             if length data \<ge> BUF_CAPACITY then
               on_io io (n + 1)
                 (\<lambda>e m. (Inl (Io e), w', file' @ written m data))
                 (Inr (), w', file' @ data)
             else (Inr (), w'\<lparr>bw_buf := bw_buf w' @ data\<rparr>, file')))"

text \<open>\<open>write_all\<close> followed by \<open>flush\<close>, calls 0 to 2.\<close>

definition write_flush ::
    "io \<Rightarrow> buf_writer \<Rightarrow> bytes \<Rightarrow> bytes \<Rightarrow> unit result \<times> buf_writer \<times> bytes" where
  "write_flush io w data file =
     (case bw_write_all io 0 w data file of
        (Inl e, w', file') \<Rightarrow> (Inl e, w', file')
      | (Inr _, w', file') \<Rightarrow> flush_buf io 2 w' file')"

section \<open>Lemmas\<close>

lemma on_io_io_ok [simp]: "on_io io_ok n failed k = k"
  by (simp add: on_io_def io_ok_def)

lemma written_unwritten [simp]: "written m data @ unwritten m data = data"
  by (simp add: written_def unwritten_def)


lemma length_written: "data \<noteq> [] \<Longrightarrow> length (written m data) < length data"
  by (cases data) (auto simp: written_def)

lemma prefix_written: "prefix (written m data) data"
  by (simp add: written_def take_is_prefix)

text \<open>
  Starting from an empty buffer, write-and-flush either stores exactly the data, or fails having
  stored a proper part of it.
\<close>

lemma write_flush_ok:
  "bw_buf w = [] \<Longrightarrow> write_flush io w data file = (Inr u, w', file') \<Longrightarrow>
     w' = w \<and> file' = file @ data"
  by (auto simp: write_flush_def bw_write_all_def flush_buf_def on_io_def Let_def
      split: if_splits option.splits prod.splits sum.splits)

lemma write_flush_failed:
  "bw_buf w = [] \<Longrightarrow> write_flush io w data file = (Inl e, w', file') \<Longrightarrow>
     \<exists>m. file' = file @ written m data \<and>
       bw_buf w' = (if length data < BUF_CAPACITY then unwritten m data else [])"
  by (auto simp: write_flush_def bw_write_all_def flush_buf_def on_io_def Let_def
      split: if_splits option.splits prod.splits sum.splits)

lemma write_flush_io_ok:
  "bw_buf w = [] \<Longrightarrow> write_flush io_ok w data file = (Inr (), w, file @ data)"
  by (auto simp: write_flush_def bw_write_all_def flush_buf_def Let_def BUF_CAPACITY_def)

end
