(* ===== verification/Wal.thy ===== *)
theory Wal
  imports Std_Io "HOL-Library.Monad_Syntax"
begin

text \<open>
  The write-ahead log of \<open>ferriskv-node/src/wal.rs\<close>: its frame and header formats, the parser that
  recovery runs over a segment, and the operations open, append, sync and rotate on a segment
  file. The CRC-32 of \<open>crc32fast\<close> is third-party code and an argument \<open>crc\<close>; no property
  assumes anything about it.
\<close>

section \<open>Definitions\<close>

subsection \<open>Format\<close>

definition MAGIC :: bytes where
  "MAGIC = lit ''FKVW''"

definition FORMAT_VERSION :: u16 where
  "FORMAT_VERSION = 1"

definition HEADER_LEN :: usize where
  "HEADER_LEN = 4 + 2 + 8"

definition MIN_FRAME_LEN :: usize where
  "MIN_FRAME_LEN = 8 + 1 + 4 + 4 + 4"

datatype wal_op = Put | Delete

fun wal_op_byte :: "wal_op \<Rightarrow> u8" where
  "wal_op_byte Put = 1"
| "wal_op_byte Delete = 2"

definition wal_op_from_u8 :: "u8 \<Rightarrow> wal_op option" where
  "wal_op_from_u8 b = (if b = 1 then Some Put else if b = 2 then Some Delete else None)"

record wal_record =
  seq :: u64
  op :: wal_op
  rkey :: bytes
  rvalue :: bytes

record recovery =
  records :: "wal_record list"
  truncated_bytes :: u64
  rec_next_seq :: u64
  rec_segment_bytes :: u64

definition recovery_is_empty :: "recovery \<Rightarrow> bool" where
  "recovery_is_empty r \<longleftrightarrow> records r = []"

subsection \<open>Parsing\<close>

definition parse_frame :: "(bytes \<Rightarrow> u32) \<Rightarrow> bytes \<Rightarrow> (wal_record \<times> usize) option" where
  "parse_frame crc buf =
     (if length buf < MIN_FRAME_LEN then None
      else do {
        sq \<leftarrow> read_le 0 8 buf;
        oper \<leftarrow> wal_op_from_u8 (buf ! 8);
        klen \<leftarrow> map_option unat (read_le 9 13 buf :: u32 option);
        key_end \<leftarrow> checked_add 13 klen;
        vlen_end \<leftarrow> checked_add key_end 4;
        if vlen_end > length buf then None
        else do {
          vlen \<leftarrow> map_option unat (read_le key_end vlen_end buf :: u32 option);
          value_end \<leftarrow> checked_add vlen_end vlen;
          frame_end \<leftarrow> checked_add value_end 4;
          if frame_end > length buf then None
          else do {
            stored_crc \<leftarrow> read_le value_end frame_end buf;
            if crc (take value_end buf) \<noteq> stored_crc then None
            else Some (\<lparr>seq = sq, op = oper, rkey = slice 13 key_end buf,
                        rvalue = slice vlen_end value_end buf\<rparr>, frame_end)
          }
        }
      })"

lemma parse_frame_len:
  "parse_frame crc buf = Some (r, len) \<Longrightarrow> 0 < len \<and> len \<le> length buf"
  by (auto simp: parse_frame_def bind_eq_Some_conv split: if_splits)

function parse_frames_loop ::
    "(bytes \<Rightarrow> u32) \<Rightarrow> bytes \<Rightarrow> wal_record list \<Rightarrow> usize \<Rightarrow> wal_record list \<times> usize" where
  "parse_frames_loop crc body recs pos =
     (case parse_frame crc (drop pos body) of
        None \<Rightarrow> (recs, pos)
      | Some (record, len) \<Rightarrow> parse_frames_loop crc body (recs @ [record]) (pos + len))"
  by pat_completeness auto
termination
  by (relation "measure (\<lambda>(crc, body, recs, pos). length body - pos)")
    (auto dest!: parse_frame_len)

declare parse_frames_loop.simps [simp del]

definition parse_frames :: "(bytes \<Rightarrow> u32) \<Rightarrow> bytes \<Rightarrow> wal_record list \<times> usize" where
  "parse_frames crc body = parse_frames_loop crc body [] 0"

definition encode_header :: "u64 \<Rightarrow> bytes" where
  "encode_header base_seq = MAGIC @ to_le_bytes FORMAT_VERSION @ to_le_bytes base_seq"

definition parse_header :: "bytes \<Rightarrow> u64 result" where
  "parse_header buf =
     (if length buf < HEADER_LEN then Inl (Corrupt ''wal header is truncated'')
      else if slice 0 4 buf \<noteq> MAGIC then Inl (Corrupt ''file is not a ferriskv wal segment'')
      else
        (case read_le 4 6 buf of
           None \<Rightarrow> Inl (Corrupt ''wal format version'')
         | Some version \<Rightarrow>
             if version \<noteq> FORMAT_VERSION then Inl (Corrupt ''unsupported wal format version'')
             else
               (case read_le 6 14 buf of
                  None \<Rightarrow> Inl (Corrupt ''wal base sequence'')
                | Some base_seq \<Rightarrow> Inr base_seq)))"

subsection \<open>Operations\<close>

text \<open>
  A log is its segment file and what the mutex guards. The file's path plays no part in the
  model: there is one segment.
\<close>

record wal_inner =
  writer :: buf_writer
  next_seq :: u64
  segment_bytes :: u64

record wal =
  segment :: bytes
  winner :: wal_inner

text \<open>
  \<open>Wal::open\<close> over the file a previous run left, the empty string when there is none. Calls: 0
  create the directory, 1 open, 2 seek to the end; on an empty file 3 write the header, 4 sync;
  otherwise 5 seek to the start, 6 read, and where a torn tail is cut 7 truncate, 8 sync; 9 open
  for appending. The file is returned on every path.
\<close>

definition open_recover :: "(bytes \<Rightarrow> u32) \<Rightarrow> io \<Rightarrow> bytes \<Rightarrow> recovery result \<times> bytes" where
  "open_recover crc io file =
     (if file = [] then
        on_io io 3 (\<lambda>e m. (Inl (Io e), written m (encode_header 0)))
        (on_io io 4 (\<lambda>e m. (Inl (Io e), encode_header 0))
          (Inr \<lparr>records = [], truncated_bytes = 0, rec_next_seq = 0,
                rec_segment_bytes = word_of_nat HEADER_LEN\<rparr>, encode_header 0))
      else
        on_io io 5 (\<lambda>e m. (Inl (Io e), file))
        (on_io io 6 (\<lambda>e m. (Inl (Io e), file))
          (case parse_header file of
             Inl e \<Rightarrow> (Inl e, file)
           | Inr base_seq \<Rightarrow>
               (let (recs, consumed) = parse_frames crc (drop HEADER_LEN file);
                    valid_len = HEADER_LEN + consumed;
                    truncated = (word_of_nat (length file - valid_len) :: u64);
                    next = max (case recs of [] \<Rightarrow> base_seq
                                | _ \<Rightarrow> saturating_add (seq (last recs)) 1) base_seq;
                    recovery = \<lparr>records = recs, truncated_bytes = truncated, rec_next_seq = next,
                                rec_segment_bytes = word_of_nat valid_len\<rparr>
                in if truncated > 0 then
                     on_io io 7 (\<lambda>e m. (Inl (Io e), file))
                     (on_io io 8 (\<lambda>e m. (Inl (Io e), take valid_len file))
                       (Inr recovery, take valid_len file))
                   else (Inr recovery, file)))))"

definition wal_open :: "(bytes \<Rightarrow> u32) \<Rightarrow> io \<Rightarrow> bytes \<Rightarrow> (wal \<times> recovery) result \<times> bytes" where
  "wal_open crc io file =
     on_io io 0 (\<lambda>e m. (Inl (Io e), file))
     (on_io io 1 (\<lambda>e m. (Inl (Io e), file))
     (on_io io 2 (\<lambda>e m. (Inl (Io e), file))
       (case open_recover crc io file of
          (Inl e, file') \<Rightarrow> (Inl e, file')
        | (Inr recovery, file') \<Rightarrow>
            on_io io 9 (\<lambda>e m. (Inl (Io e), file'))
              (Inr (\<lparr>segment = file',
                     winner = \<lparr>writer = bw_new, next_seq = rec_next_seq recovery,
                               segment_bytes = rec_segment_bytes recovery\<rparr>\<rparr>, recovery), file'))))"

definition encode_frame :: "(bytes \<Rightarrow> u32) \<Rightarrow> u64 \<Rightarrow> wal_op \<Rightarrow> bytes \<Rightarrow> bytes \<Rightarrow> bytes" where
  "encode_frame crc sq oper key v =
     (let frame = to_le_bytes sq @ [wal_op_byte oper]
            @ to_le_bytes (word_of_nat (length key) :: u32) @ key
            @ to_le_bytes (word_of_nat (length v) :: u32) @ v
      in frame @ to_le_bytes (crc frame))"

text \<open>Calls: 0 and 1 in \<open>write_all\<close>, 2 in \<open>flush\<close>.\<close>

definition append :: "(bytes \<Rightarrow> u32) \<Rightarrow> io \<Rightarrow> wal \<Rightarrow> wal_op \<Rightarrow> bytes \<Rightarrow> bytes \<Rightarrow> u64 result \<times> wal" where
  "append crc io w oper key v =
     (let g = winner w;
          sq = next_seq g;
          frame = encode_frame crc sq oper key v
      in case write_flush io (writer g) frame (segment w) of
           (Inl e, wr, file) \<Rightarrow> (Inl e, \<lparr>segment = file, winner = g\<lparr>writer := wr\<rparr>\<rparr>)
         | (Inr _, wr, file) \<Rightarrow>
             (Inr sq, \<lparr>segment = file,
                winner = \<lparr>writer = wr, next_seq = saturating_add sq 1,
                  segment_bytes = saturating_add (segment_bytes g) (word_of_nat (length frame))\<rparr>\<rparr>))"

text \<open>Calls: 0 flush, 1 sync.\<close>

definition sync :: "io \<Rightarrow> wal \<Rightarrow> unit result \<times> wal" where
  "sync io w =
     (case flush_buf io 0 (writer (winner w)) (segment w) of
        (r, wr, file) \<Rightarrow>
          (let w' = w\<lparr>segment := file, winner := (winner w)\<lparr>writer := wr\<rparr>\<rparr>
           in case r of Inl e \<Rightarrow> (Inl e, w')
              | Inr _ \<Rightarrow> on_io io 1 (\<lambda>e m. (Inl (Io e), w')) (Inr (), w')))"

text \<open>Calls: 0 flush, 1 open and truncate, 2 write the header, 3 sync, 4 open for appending.\<close>

definition rotate :: "io \<Rightarrow> wal \<Rightarrow> unit result \<times> wal" where
  "rotate io w =
     (case flush_buf io 0 (writer (winner w)) (segment w) of
        (Inl e, wr, file) \<Rightarrow> (Inl e, w\<lparr>segment := file, winner := (winner w)\<lparr>writer := wr\<rparr>\<rparr>)
      | (Inr _, wr, file) \<Rightarrow>
          (let w1 = w\<lparr>segment := file, winner := (winner w)\<lparr>writer := wr\<rparr>\<rparr>;
               base_seq = next_seq (winner w)
           in on_io io 1 (\<lambda>e m. (Inl (Io e), w1))
              (on_io io 2 (\<lambda>e m. (Inl (Io e), w1\<lparr>segment := written m (encode_header base_seq)\<rparr>))
              (let w2 = w1\<lparr>segment := encode_header base_seq\<rparr>
               in on_io io 3 (\<lambda>e m. (Inl (Io e), w2))
                  (on_io io 4 (\<lambda>e m. (Inl (Io e), w2))
                    (Inr (), w2\<lparr>winner := (winner w2)\<lparr>writer := bw_new,
                              segment_bytes := word_of_nat HEADER_LEN\<rparr>\<rparr>))))))"

subsection \<open>Fuzz target\<close>

definition fuzz_wal_frame :: "(bytes \<Rightarrow> u32) \<Rightarrow> bytes \<Rightarrow> bool" where
  "fuzz_wal_frame crc data =
     (let (recs, consumed) = parse_frames crc data;
          (again, again_consumed) = parse_frames crc (take consumed data)
      in consumed \<le> length data
         \<and> again_consumed = consumed
         \<and> again = recs
         \<and> list_all (\<lambda>r. length (rkey r) + length (rvalue r) \<le> consumed) recs)"

subsection \<open>What a segment holds\<close>

text \<open>A record whose lengths fit their 32-bit fields, and its frame.\<close>

definition record_ok :: "wal_record \<Rightarrow> bool" where
  "record_ok r \<longleftrightarrow> length (rkey r) < 2 ^ 32 \<and> length (rvalue r) < 2 ^ 32"

definition frame_of :: "(bytes \<Rightarrow> u32) \<Rightarrow> wal_record \<Rightarrow> bytes" where
  "frame_of crc r = encode_frame crc (seq r) (op r) (rkey r) (rvalue r)"

definition frames_of :: "(bytes \<Rightarrow> u32) \<Rightarrow> wal_record list \<Rightarrow> bytes" where
  "frames_of crc rs = concat (map (frame_of crc) rs)"

text \<open>
  The contract of the log: a base sequence and the records written since. A \<open>log\<close> is what a
  reader of the source thinks of; \<open>holds\<close> says that a segment file stands for it, and \<open>wal_holds\<close>
  that an open log does, with nothing pending in its writer.
\<close>

record log =
  base :: u64
  entries :: "wal_record list"

definition log_next :: "log \<Rightarrow> u64" where
  "log_next l =
     max (if entries l = [] then base l else saturating_add (seq (last (entries l))) 1) (base l)"

definition log_append :: "wal_op \<Rightarrow> bytes \<Rightarrow> bytes \<Rightarrow> log \<Rightarrow> log" where
  "log_append oper key v l =
     l\<lparr>entries := entries l @ [\<lparr>seq = log_next l, op = oper, rkey = key, rvalue = v\<rparr>]\<rparr>"

definition log_rotate :: "log \<Rightarrow> log" where
  "log_rotate l = \<lparr>base = log_next l, entries = []\<rparr>"

definition holds :: "(bytes \<Rightarrow> u32) \<Rightarrow> bytes \<Rightarrow> log \<Rightarrow> bool" where
  "holds crc file l \<longleftrightarrow>
     list_all record_ok (entries l) \<and> file = encode_header (base l) @ frames_of crc (entries l)"

definition wal_holds :: "(bytes \<Rightarrow> u32) \<Rightarrow> wal \<Rightarrow> log \<Rightarrow> bool" where
  "wal_holds crc w l \<longleftrightarrow>
     holds crc (segment w) l \<and> bw_buf (writer (winner w)) = [] \<and> next_seq (winner w) = log_next l"

text \<open>A log just rotated at sequence 3.\<close>

definition wal_example :: wal where
  "wal_example = \<lparr>segment = encode_header 3,
     winner = \<lparr>writer = bw_new, next_seq = 3, segment_bytes = 14\<rparr>\<rparr>"

section \<open>Lemmas\<close>

subsection \<open>Frames\<close>

lemma wal_op_from_u8_byte [simp]: "wal_op_from_u8 (wal_op_byte oper) = Some oper"
  by (cases oper) (simp_all add: wal_op_from_u8_def)

lemma wal_op_from_u8_Some_iff: "wal_op_from_u8 b = Some oper \<longleftrightarrow> b = wal_op_byte oper"
  by (cases oper) (auto simp: wal_op_from_u8_def split: if_splits)

lemma length_frame_of:
  "length (frame_of crc r) = MIN_FRAME_LEN + length (rkey r) + length (rvalue r)"
  by (simp add: frame_of_def encode_frame_def MIN_FRAME_LEN_def Let_def)

lemma frame_layout:
  "frame_of crc r =
     (let body = to_le_bytes (seq r) @ [wal_op_byte (op r)]
            @ to_le_bytes (word_of_nat (length (rkey r)) :: u32) @ rkey r
            @ to_le_bytes (word_of_nat (length (rvalue r)) :: u32) @ rvalue r
      in body @ to_le_bytes (crc body))"
  by (simp add: frame_of_def encode_frame_def)

lemma parse_frame_frame_of:
  assumes "record_ok r"
  shows "parse_frame crc (frame_of crc r @ rest) = Some (r, length (frame_of crc r))"
proof -
  define s where "s = to_le_bytes (seq r)"
  define kl where "kl = to_le_bytes (word_of_nat (length (rkey r)) :: u32)"
  define vl where "vl = to_le_bytes (word_of_nat (length (rvalue r)) :: u32)"
  define body where "body = s @ [wal_op_byte (op r)] @ kl @ rkey r @ vl @ rvalue r"
  define c where "c = to_le_bytes (crc body)"
  define buf where "buf = frame_of crc r @ rest"
  let ?ke = "13 + length (rkey r)" and ?ve = "17 + length (rkey r) + length (rvalue r)"
  have fo: "frame_of crc r = body @ c"
    by (simp add: frame_layout body_def s_def kl_def vl_def c_def Let_def)
  have lens: "length s = 8" "length kl = 4" "length vl = 4" "length c = 4"
    by (simp_all add: s_def kl_def vl_def c_def)
  have lb: "length body = ?ve" by (simp add: body_def lens)
  have len: "length buf = ?ve + 4 + length rest" by (simp add: buf_def fo lb lens)
  have 1: "read_le 0 8 buf = Some (seq r)"
    using read_le_append_mid [of 0 "[]" 8 "seq r" "drop 8 buf"]
    by (simp add: buf_def fo body_def s_def)
  have 2: "buf ! 8 = wal_op_byte (op r)"
    by (simp add: buf_def fo body_def nth_append lens)
  have 3: "read_le 9 13 buf = Some (word_of_nat (length (rkey r)) :: u32)"
    using read_le_append_mid [of 9 "s @ [wal_op_byte (op r)]" 13
        "word_of_nat (length (rkey r)) :: u32" "rkey r @ vl @ rvalue r @ c @ rest"]
    by (simp add: buf_def fo body_def kl_def lens)
  have 4: "read_le ?ke (?ke + 4) buf = Some (word_of_nat (length (rvalue r)) :: u32)"
    using read_le_append_mid [of ?ke "s @ [wal_op_byte (op r)] @ kl @ rkey r" "?ke + 4"
        "word_of_nat (length (rvalue r)) :: u32" "rvalue r @ c @ rest"]
    by (simp add: buf_def fo body_def vl_def lens)
  have 5: "read_le ?ve (?ve + 4) buf = Some (crc body)"
    using read_le_append_mid [of ?ve body "?ve + 4" "crc body" rest]
    by (simp add: buf_def fo c_def lb)
  have 6: "take ?ve buf = body" by (simp add: buf_def fo flip: lb)
  have 7: "slice 13 ?ke buf = rkey r"
    using slice_append_mid [of 13 "s @ [wal_op_byte (op r)] @ kl" ?ke "rkey r"
        "vl @ rvalue r @ c @ rest"]
    by (simp add: buf_def fo body_def lens)
  have 8: "slice (?ke + 4) ?ve buf = rvalue r"
    using slice_append_mid [of "?ke + 4" "s @ [wal_op_byte (op r)] @ kl @ rkey r @ vl" ?ve "rvalue r"
        "c @ rest"]
    by (simp add: buf_def fo body_def lens)
  have k: "unat (word_of_nat (length (rkey r)) :: u32) = length (rkey r)"
    and v: "unat (word_of_nat (length (rvalue r)) :: u32) = length (rvalue r)"
    using assms by (simp_all add: record_ok_def unat_of_nat)
  have "parse_frame crc buf = Some (r, ?ve + 4)"
    using assms 4 5 6 7 8
    by (simp add: parse_frame_def MIN_FRAME_LEN_def len 1 2 3 k v checked_add_def record_ok_def
        add.commute add.left_commute)
  then show ?thesis by (simp add: buf_def fo lb lens)
qed

lemma parse_frameD:
  assumes "parse_frame crc buf = Some (r, n)"
  shows "record_ok r \<and> n = length (frame_of crc r) \<and> take n buf = frame_of crc r"
proof -
  from assms obtain sq kl vl where
    len: "n \<le> length buf" and
    n: "n = 21 + unat (kl :: u32) + unat (vl :: u32)" and
    sq: "read_le 0 8 buf = Some sq" and
    oper: "wal_op_from_u8 (buf ! 8) = Some (op r)" and
    kl: "read_le 9 13 buf = Some kl" and
    vl: "read_le (13 + unat kl) (17 + unat kl) buf = Some vl" and
    crc: "read_le (17 + unat kl + unat vl) n buf = Some (crc (take (17 + unat kl + unat vl) buf))" and
    r: "r = \<lparr>seq = sq, op = op r, rkey = slice 13 (13 + unat kl) buf,
             rvalue = slice (17 + unat kl) (17 + unat kl + unat vl) buf\<rparr>"
    by (auto simp: parse_frame_def bind_eq_Some_conv algebra_simps not_less split: if_splits)
  let ?ke = "13 + unat kl" and ?ve = "17 + unat kl + unat vl"
  have lk: "length (rkey r) = unat kl" and lv: "length (rvalue r) = unat vl"
    using len n by (subst r, simp)+
  have s0: "slice 0 8 buf = to_le_bytes sq"
    and s1: "slice 9 13 buf = to_le_bytes kl"
    and s2: "slice ?ke (?ke + 4) buf = to_le_bytes vl"
    and s3: "slice ?ve n buf = to_le_bytes (crc (take ?ve buf))"
    using read_le_u64_SomeD [OF sq] read_le_u32_SomeD [OF kl] read_le_u32_SomeD [OF vl]
      read_le_u32_SomeD [OF crc]
    by (simp_all add: add.commute)
  have step: "take a buf @ slice a b buf = take b buf" if "a \<le> b" for a b
    using that by (rule take_slice_append)
  have "take 9 buf = take 8 buf @ [buf ! 8]"
    using len n take_Suc_conv_app_nth [of 8 buf] by simp
  moreover have "take 8 buf = slice 0 8 buf" by (simp add: slice_def)
  ultimately have t9: "take 9 buf = to_le_bytes sq @ [wal_op_byte (op r)]"
    using s0 oper by (simp add: wal_op_from_u8_Some_iff)
  have "take ?ve buf = take 9 buf @ slice 9 13 buf @ slice 13 ?ke buf @ slice ?ke (?ke + 4) buf
      @ slice (17 + unat kl) ?ve buf"
    using step [of 9 13] step [of 13 ?ke] step [of ?ke "?ke + 4"] step [of "17 + unat kl" ?ve]
    by (simp flip: append_assoc)
  then have body: "take ?ve buf = to_le_bytes sq @ [wal_op_byte (op r)] @ to_le_bytes kl @ rkey r
      @ to_le_bytes vl @ rvalue r"
    using s2 by (subst (2 3) r) (simp add: t9 s1)
  have sr: "seq r = sq" by (subst r) simp
  have fo: "frame_of crc r = take ?ve buf @ to_le_bytes (crc (take ?ve buf))"
    by (simp add: frame_layout body lk lv sr Let_def)
  have "take n buf = frame_of crc r"
    using step [of ?ve n] n s3 by (simp add: fo)
  moreover have "record_ok r"
    using unat_u32_less [of kl] unat_u32_less [of vl] by (simp add: record_ok_def lk lv)
  moreover have "n = length (frame_of crc r)"
    by (simp add: length_frame_of MIN_FRAME_LEN_def lk lv n)
  ultimately show ?thesis by simp
qed

text \<open>The parser accepts exactly the frames the encoder writes.\<close>

lemma parse_frame_iff:
  "parse_frame crc buf = Some (r, n) \<longleftrightarrow>
     record_ok r \<and> n = length (frame_of crc r) \<and> (\<exists>rest. buf = frame_of crc r @ rest)"
  using parse_frameD [of crc buf r n] parse_frame_frame_of [of r crc]
  by (metis append_take_drop_id)

text \<open>
  A strict prefix of a frame never parses: the length fields it may still hold ask for more bytes
  than there are. The checksum plays no part in this.
\<close>

interpretation fr: frame_codec "frame_of crc" "parse_frame crc" record_ok for crc
  by unfold_locales (auto simp: parse_frame_iff prefix_def)

lemma parse_frame_torn:
  assumes "record_ok r" and "n < length (frame_of crc r)"
  shows "parse_frame crc (take n (frame_of crc r)) = None"
  using assms by (rule fr.torn)

lemma parse_frame_Nil [simp]: "parse_frame crc [] = None"
  by (simp add: parse_frame_def MIN_FRAME_LEN_def)

subsection \<open>Segments\<close>

lemma frames_of_simps [simp]:
  "frames_of crc [] = []"
  "frames_of crc (r # rs) = frame_of crc r @ frames_of crc rs"
  "frames_of crc (rs @ rs') = frames_of crc rs @ frames_of crc rs'"
  by (simp_all add: frames_of_def)

lemma parse_frames_loop_frames:
  assumes "list_all record_ok rs" and "parse_frame crc rest = None" and "pos = length done_bytes"
  shows "parse_frames_loop crc (done_bytes @ frames_of crc rs @ rest) recs pos =
    (recs @ rs, pos + length (frames_of crc rs))"
  using assms
proof (induction rs arbitrary: done_bytes recs pos)
  case Nil
  then show ?case by (subst parse_frames_loop.simps) simp
next
  case (Cons r rs)
  then have "parse_frame crc (frame_of crc r @ frames_of crc rs @ rest)
      = Some (r, length (frame_of crc r))"
    by (simp add: parse_frame_frame_of)
  with Cons show ?case
    by (subst parse_frames_loop.simps)
      (simp add: Cons.IH [of "pos + length (frame_of crc r)" "done_bytes @ frame_of crc r", simplified])
qed

lemma parse_frames_frames:
  "list_all record_ok rs \<Longrightarrow> parse_frame crc rest = None \<Longrightarrow>
     parse_frames crc (frames_of crc rs @ rest) = (rs, length (frames_of crc rs))"
  using parse_frames_loop_frames [of rs crc rest 0 "[]" "[]"] by (simp add: parse_frames_def)

text \<open>Conversely, whatever the parser returns is what the bytes it consumed encode.\<close>

lemma parse_frames_loop_sound:
  assumes "parse_frames_loop crc body recs pos = (out, n)" and "pos \<le> length body"
  shows "\<exists>rs. out = recs @ rs \<and> list_all record_ok rs \<and> n = pos + length (frames_of crc rs) \<and>
    n \<le> length body \<and> take (n - pos) (drop pos body) = frames_of crc rs \<and>
    parse_frame crc (drop n body) = None"
  using assms
proof (induction crc body recs pos rule: parse_frames_loop.induct)
  case (1 crc body recs pos)
  show ?case
  proof (cases "parse_frame crc (drop pos body)")
    case None
    with 1 show ?thesis by (auto simp: parse_frames_loop.simps [of crc body recs pos])
  next
    case (Some a)
    then obtain r len where s: "parse_frame crc (drop pos body) = Some (r, len)"
      by (cases a) auto
    have d: "record_ok r" "len = length (frame_of crc r)" "take len (drop pos body) = frame_of crc r"
      using parse_frameD [OF s] by auto
    have le: "pos + len \<le> length body"
      using parse_frame_len [OF s] 1(3) by (simp only: length_drop) arith
    have "parse_frames_loop crc body (recs @ [r]) (pos + len) = (out, n)"
      using 1(2) s by (simp add: parse_frames_loop.simps [of crc body recs pos])
    from 1(1) [OF s refl this le] obtain rs where rs: "out = (recs @ [r]) @ rs"
      "list_all record_ok rs" "n = pos + len + length (frames_of crc rs)" "n \<le> length body"
      "take (n - (pos + len)) (drop (pos + len) body) = frames_of crc rs"
      "parse_frame crc (drop n body) = None"
      by blast
    have "take (n - pos) (drop pos body) = frames_of crc (r # rs)"
      using d rs(3,5) by (simp add: take_add add.commute)
    with rs d show ?thesis
      by (intro exI [of _ "r # rs"]) auto
  qed
qed

lemma parse_frames_sound:
  assumes "parse_frames crc body = (rs, n)"
  shows "list_all record_ok rs" and "n = length (frames_of crc rs)"
    and "body = frames_of crc rs @ drop n body" and "parse_frame crc (drop n body) = None"
    and "n \<le> length body"
proof -
  obtain rs' where *: "rs = [] @ rs'" "list_all record_ok rs'" "n = 0 + length (frames_of crc rs')"
    "n \<le> length body" "take (n - 0) (drop 0 body) = frames_of crc rs'"
    "parse_frame crc (drop n body) = None"
    using parse_frames_loop_sound [of crc body "[]" 0 rs n] assms
    unfolding parse_frames_def by blast
  then show "list_all record_ok rs" "n = length (frames_of crc rs)"
    "parse_frame crc (drop n body) = None" "n \<le> length body" by auto
  show "body = frames_of crc rs @ drop n body"
    using * by (metis append_Nil append_take_drop_id diff_zero drop0)
qed

subsection \<open>Headers\<close>

lemma length_MAGIC [simp]: "length MAGIC = 4"
  by (simp add: MAGIC_def lit_def)

lemma length_encode_header [simp]: "length (encode_header b) = HEADER_LEN"
  by (simp add: encode_header_def HEADER_LEN_def)

lemma encode_header_nonempty [simp]: "encode_header b \<noteq> []"
  by (metis HEADER_LEN_def add_is_0 length_encode_header list.size(3) zero_neq_numeral)

lemma parse_header_encode [simp, codec_simps]: "parse_header (encode_header b @ rest) = Inr b"
proof -
  have 1: "slice 0 4 (encode_header b @ rest) = MAGIC"
    by (simp add: encode_header_def slice_def)
  have 2: "read_le 4 6 (encode_header b @ rest) = Some FORMAT_VERSION"
    using read_le_append_mid [of 4 MAGIC 6 FORMAT_VERSION "to_le_bytes b @ rest"]
    by (simp add: encode_header_def)
  have 3: "read_le 6 14 (encode_header b @ rest) = Some b"
    using read_le_append_mid [of 6 "MAGIC @ to_le_bytes FORMAT_VERSION" 14 b rest]
    by (simp add: encode_header_def)
  show ?thesis
    by (simp add: parse_header_def 1 2 3)
qed

lemma parse_header_iff:
  "parse_header buf = Inr b \<longleftrightarrow> (\<exists>rest. buf = encode_header b @ rest)"
proof
  assume "parse_header buf = Inr b"
  then have len: "14 \<le> length buf" and m: "slice 0 4 buf = MAGIC"
    and v: "read_le 4 6 buf = Some FORMAT_VERSION" and s: "read_le 6 14 buf = Some b"
    by (auto simp: parse_header_def HEADER_LEN_def split: if_splits option.splits)
  have "slice 4 6 buf = to_le_bytes FORMAT_VERSION"
    using v by (rule read_le_SomeD) simp
  moreover have "slice 6 14 buf = to_le_bytes b"
    using s by (rule read_le_u64_SomeD)
  moreover have "take 14 buf = slice 0 4 buf @ slice 4 6 buf @ slice 6 14 buf"
    using take_slice_append [of 0 4 buf] take_slice_append [of 4 6 buf]
      take_slice_append [of 6 14 buf] by (simp flip: append_assoc)
  ultimately have "take 14 buf = encode_header b"
    using m by (simp add: encode_header_def)
  then show "\<exists>rest. buf = encode_header b @ rest"
    by (metis append_take_drop_id)
qed auto

subsection \<open>The log and its contract\<close>

lemma log_next_append [simp]:
  "log_next (log_append oper key v l) = saturating_add (log_next l) 1"
proof -
  have "base l \<le> saturating_add (log_next l) 1"
    by (rule order_trans [OF _ saturating_add_le]) (simp add: log_next_def)
  then show ?thesis
    by (subst log_next_def) (simp add: log_append_def max_def)
qed

lemma log_next_rotate [simp]: "log_next (log_rotate l) = log_next l"
  by (subst log_next_def) (simp add: log_rotate_def)

lemma entries_log_append [simp]:
  "entries (log_append oper key v l)
     = entries l @ [\<lparr>seq = log_next l, op = oper, rkey = key, rvalue = v\<rparr>]"
  "base (log_append oper key v l) = base l"
  by (simp_all add: log_append_def)

lemma entries_log_rotate [simp]:
  "entries (log_rotate l) = []" "base (log_rotate l) = log_next l"
  by (simp_all add: log_rotate_def)

text \<open>Recovery of a file that stands for a log, followed by an unparsable tail.\<close>

lemma open_recover_torn:
  assumes "holds crc file l" and "parse_frame crc torn = None" and "length (file @ torn) < 2 ^ 64"
  shows "open_recover crc io_ok (file @ torn) =
    (Inr \<lparr>records = entries l, truncated_bytes = word_of_nat (length torn), rec_next_seq = log_next l,
          rec_segment_bytes = word_of_nat (length file)\<rparr>, file)"
proof -
  have f: "file = encode_header (base l) @ frames_of crc (entries l)"
    and ok: "list_all record_ok (entries l)"
    using assms(1) by (auto simp: holds_def)
  have p: "parse_frames crc (frames_of crc (entries l) @ t)
      = (entries l, length (frames_of crc (entries l)))" if "parse_frame crc t = None" for t
    using ok that by (rule parse_frames_frames)
  have z: "(word_of_nat (length torn) :: u64) = 0 \<longleftrightarrow> torn = []"
    using assms(3) by (subst word_of_nat_u64_eq_0_iff) auto
  show ?thesis
    by (cases "torn = []")
      (simp_all add: open_recover_def f p [OF assms(2)] p [of "[]", simplified] z Let_def log_next_def
        word_gt_0 split: list.split)
qed

lemma holds_extend:
  "holds crc file l \<Longrightarrow> length key < 2 ^ 32 \<Longrightarrow> length v < 2 ^ 32 \<Longrightarrow>
     holds crc (file @ encode_frame crc (log_next l) oper key v) (log_append oper key v l)"
  by (auto simp: holds_def record_ok_def frame_of_def)

lemma append_ok:
  assumes "wal_holds crc w l" and "length key < 2 ^ 32" "length v < 2 ^ 32"
    and "append crc io w oper key v = (Inr sq, w')"
  shows "sq = log_next l \<and> wal_holds crc w' (log_append oper key v l)"
proof -
  have b: "bw_buf (writer (winner w)) = []" and n: "next_seq (winner w) = log_next l"
    and h: "holds crc (segment w) l"
    using assms(1) by (simp_all add: wal_holds_def)
  obtain r wr fl where f: "write_flush io (writer (winner w))
      (encode_frame crc (log_next l) oper key v) (segment w) = (r, wr, fl)"
    by (metis prod_cases3)
  with assms(4) n obtain u where r: "r = Inr u"
    by (cases r) (simp_all add: append_def Let_def)
  have "wr = writer (winner w)" "fl = segment w @ encode_frame crc (log_next l) oper key v"
    using write_flush_ok [OF b f [unfolded r]] by simp_all
  then show ?thesis
    using assms(4) f holds_extend [OF h assms(2,3)] b
    by (auto simp: append_def Let_def n r wal_holds_def)
qed

lemma append_io_ok:
  "wal_holds crc w l \<Longrightarrow> \<exists>w'. append crc io_ok w oper key v = (Inr (log_next l), w')"
  by (simp add: append_def wal_holds_def write_flush_io_ok Let_def)

lemma append_failed:
  assumes "wal_holds crc w l" and "append crc io w oper key v = (Inl e, w')"
  shows "\<exists>m. segment w' = segment w @ written m (encode_frame crc (log_next l) oper key v)"
proof -
  have b: "bw_buf (writer (winner w)) = []" and n: "next_seq (winner w) = log_next l"
    using assms(1) by (simp_all add: wal_holds_def)
  obtain r wr fl where f: "write_flush io (writer (winner w))
      (encode_frame crc (log_next l) oper key v) (segment w) = (r, wr, fl)"
    by (metis prod_cases3)
  with assms(2) n have r: "r = Inl e" and "segment w' = fl"
    by (cases r; auto simp: append_def Let_def)+
  then show ?thesis using write_flush_failed [OF b f [unfolded r]] by blast
qed

lemma rotate_ok:
  assumes "wal_holds crc w l" and "rotate io w = (Inr u, w')"
  shows "wal_holds crc w' (log_rotate l)"
  using assms
  by (auto simp: wal_holds_def rotate_def flush_buf_def holds_def on_io_def bw_new_def Let_def
      split: option.splits)

lemma rotate_io_ok: "wal_holds crc w l \<Longrightarrow> \<exists>w'. rotate io_ok w = (Inr (), w')"
  by (simp add: rotate_def wal_holds_def flush_buf_def Let_def)

lemma sync_wal_holds:
  "wal_holds crc w l \<Longrightarrow> snd (sync io w) = w"
  by (simp add: sync_def wal_holds_def flush_buf_def on_io_def Let_def split: option.splits)

lemma wal_open_torn:
  assumes "holds crc file l" and "parse_frame crc torn = None" and "length (file @ torn) < 2 ^ 64"
  shows "\<exists>w rec. wal_open crc io_ok (file @ torn) = (Inr (w, rec), file)
    \<and> records rec = entries l \<and> truncated_bytes rec = word_of_nat (length torn) \<and> wal_holds crc w l"
  using assms(1)
  by (simp add: wal_open_def open_recover_torn [OF assms] wal_holds_def bw_new_def)

lemma encode_frame_nonempty [simp]: "encode_frame crc sq oper key v \<noteq> []"
  by (simp add: encode_frame_def Let_def)

lemma parse_frame_written:
  assumes "length key < 2 ^ 32" "length v < 2 ^ 32"
  shows "parse_frame crc (written m (encode_frame crc sq oper key v)) = None"
  using parse_frame_torn [of "\<lparr>seq = sq, op = oper, rkey = key, rvalue = v\<rparr>"
      "min m (length (encode_frame crc sq oper key v) - 1)" crc] assms
  by (simp add: record_ok_def frame_of_def written_def min_less_iff_disj)

lemma parse_frame_lengths:
  assumes "parse_frame crc buf = Some (r, n)" and "read_le 9 13 buf = Some (kl :: u32)"
    and "read_le (13 + unat kl) (17 + unat kl) buf = Some (vl :: u32)"
  shows "n = 21 + unat kl + unat vl \<and> n \<le> length buf"
  using assms by (auto simp: parse_frame_def bind_eq_Some_conv algebra_simps not_less split: if_splits)

lemma frame_of_lengths:
  assumes "record_ok r" and "17 + length (rkey r) \<le> m" and "m \<le> length (frame_of crc r)"
  shows "read_le 9 13 (take m (frame_of crc r)) = Some (word_of_nat (length (rkey r)) :: u32)"
    and "read_le (13 + length (rkey r)) (17 + length (rkey r)) (take m (frame_of crc r))
      = Some (word_of_nat (length (rvalue r)) :: u32)"
proof -
  let ?s = "to_le_bytes (seq r) @ [wal_op_byte (op r)]"
  let ?kl = "to_le_bytes (word_of_nat (length (rkey r)) :: u32)"
  let ?vl = "to_le_bytes (word_of_nat (length (rvalue r)) :: u32)"
  have drop_take: "read_le a b (take m f) = (read_le a b f :: u32 option)"
    if "b \<le> m" "m \<le> length f" for a b and f :: bytes
    using read_le_append_left [of b "take m f" a "drop m f"] that by simp
  obtain t where f: "frame_of crc r = ?s @ ?kl @ rkey r @ ?vl @ t"
    by (simp add: frame_layout Let_def)
  show "read_le 9 13 (take m (frame_of crc r)) = Some (word_of_nat (length (rkey r)) :: u32)"
    using read_le_append_mid [of 9 ?s 13 "word_of_nat (length (rkey r)) :: u32" "rkey r @ ?vl @ t"]
      drop_take [of 13 "frame_of crc r" 9] assms(2,3) by (simp add: f)
  show "read_le (13 + length (rkey r)) (17 + length (rkey r)) (take m (frame_of crc r))
      = Some (word_of_nat (length (rvalue r)) :: u32)"
    using read_le_append_mid [of "13 + length (rkey r)" "?s @ ?kl @ rkey r" "17 + length (rkey r)"
        "word_of_nat (length (rvalue r)) :: u32" t]
      drop_take [of "17 + length (rkey r)" "frame_of crc r" "13 + length (rkey r)"] assms(2,3)
    by (simp add: f)
qed

text \<open>Bytes that follow a torn frame do not make it whole, unless they fill it up.\<close>

lemma parse_frame_torn_append:
  assumes "record_ok r" and "17 + length (rkey r) \<le> m" and "m + length x < length (frame_of crc r)"
  shows "parse_frame crc (take m (frame_of crc r) @ x) = None"
proof (rule ccontr)
  let ?f = "frame_of crc r"
  assume "parse_frame crc (take m ?f @ x) \<noteq> None"
  then obtain r' n where p: "parse_frame crc (take m ?f @ x) = Some (r', n)" by auto
  have le: "m \<le> length ?f" using assms(3) by simp
  have k: "unat (word_of_nat (length (rkey r)) :: u32) = length (rkey r)"
    and v: "unat (word_of_nat (length (rvalue r)) :: u32) = length (rvalue r)"
    using assms(1) by (simp_all add: record_ok_def unat_u32_of_nat)
  have "n = length ?f \<and> n \<le> length (take m ?f @ x)"
    using parse_frame_lengths [OF p, of "word_of_nat (length (rkey r))"
        "word_of_nat (length (rvalue r))"] frame_of_lengths [OF assms(1,2) le] assms(2) le
    by (simp add: k v length_frame_of MIN_FRAME_LEN_def)
  then show False using assms(3) by simp
qed

lemma wal_holds_example: "wal_holds crc wal_example \<lparr>base = 3, entries = []\<rparr>"
  by (simp add: wal_example_def wal_holds_def holds_def bw_new_def log_next_def)

lemma segment_example: "segment wal_example = encode_header 3"
  by (simp add: wal_example_def)

section \<open>Properties\<close>

text \<open>
  Recovery of a segment whose last frame was torn by a crash, at any byte: every whole frame is
  returned, in order and byte for byte, the torn one is not, and the count of consumed bytes is
  where it starts.
\<close>

theorem wal_torn_tail_discarded:
  assumes "list_all record_ok rs" and "record_ok r" and "n < length (frame_of crc r)"
  shows "parse_frames crc (frames_of crc rs @ take n (frame_of crc r))
    = (rs, length (frames_of crc rs))"
  using assms(1) parse_frame_torn [OF assms(2,3)] by (rule parse_frames_frames)

text \<open>
  C29: an append is atomic under any fault. Whatever calls of the operating system fail, and however
  many bytes a failing write stored, opening the file again succeeds, and recovers the records
  there were before, followed by the new one exactly when the append reported success. A fault in
  the middle of a write leaves the file as a crash at that point does.
\<close>

theorem wal_append_crash_atomic:
  assumes "wal_holds crc w l" and "length key < 2 ^ 32" and "length v < 2 ^ 32"
    and "length (segment w) + MIN_FRAME_LEN + length key + length v < 2 ^ 64"
    and "append crc io w oper key v = (r, w')"
  shows "\<exists>w'' rec file. wal_open crc io_ok (segment w') = (Inr (w'', rec), file)
    \<and> records rec = (case r of Inr _ \<Rightarrow> entries (log_append oper key v l) | Inl _ \<Rightarrow> entries l)
    \<and> wal_holds crc w'' (case r of Inr _ \<Rightarrow> log_append oper key v l | Inl _ \<Rightarrow> l)"
proof -
  let ?f = "encode_frame crc (log_next l) oper key v"
  have len: "length (segment w @ ?f) < 2 ^ 64"
    using assms(4) length_frame_of [of crc "\<lparr>seq = log_next l, op = oper, rkey = key, rvalue = v\<rparr>"]
    by (simp add: frame_of_def)
  show ?thesis
  proof (cases r)
    case (Inr sq)
    have h: "wal_holds crc w' (log_append oper key v l)"
      using append_ok [OF assms(1-3)] assms(5) Inr by blast
    have "segment w' = segment w @ ?f"
      using h assms(1) by (simp add: wal_holds_def holds_def frame_of_def)
    with h len show ?thesis
      using wal_open_torn [of crc "segment w'" "log_append oper key v l" "[]"]
      by (auto simp: Inr wal_holds_def)
  next
    case (Inl e)
    obtain m where s: "segment w' = segment w @ written m ?f"
      using append_failed [OF assms(1)] assms(5) Inl by blast
    have "length (segment w @ written m ?f) < 2 ^ 64"
      using len length_written [of ?f m] by simp
    then show ?thesis
      using wal_open_torn [of crc "segment w" l "written m ?f"] parse_frame_written [OF assms(2,3)]
        assms(1) by (auto simp: Inl s wal_holds_def)
  qed
qed

theorem wal_append_crash_atomic_witness:
  "let w' = snd (append (\<lambda>_. 7) (\<lambda>_. Some (''disk full'', 5)) wal_example Put [1] [2])
   in length (segment w') = 19
      \<and> (\<exists>w'' rec file. wal_open (\<lambda>_. 7) io_ok (segment w') = (Inr (w'', rec), file) \<and> records rec = [])"
proof -
  let ?a = "append (\<lambda>_. 7) (\<lambda>_. Some (''disk full'', 5)) wal_example Put [1] [2]"
  have f: "fst ?a = Inl (Io ''disk full'') \<and> length (segment (snd ?a)) = 19" by code_simp
  then have a: "?a = (Inl (Io ''disk full''), snd ?a)" by (metis prod.collapse)
  show ?thesis
    using wal_append_crash_atomic [OF wal_holds_example _ _ _ a] f
    by (auto simp: segment_example HEADER_LEN_def MIN_FRAME_LEN_def Let_def)
qed

text \<open>
  Rotation drops the records and keeps the sequence. After a rotation that reported success
  the log stands for no record, and neither the running node nor one that opens the file again
  reuses a sequence number.
\<close>

theorem wal_rotate_keeps_sequence:
  assumes "wal_holds crc w l" and "rotate io w = (Inr u, w')"
  shows "next_seq (winner w') = next_seq (winner w)
    \<and> (\<exists>w'' rec. wal_open crc io_ok (segment w') = (Inr (w'', rec), segment w')
         \<and> records rec = [] \<and> next_seq (winner w'') = next_seq (winner w))"
proof -
  have h: "wal_holds crc w' (log_rotate l)"
    using assms by (rule rotate_ok)
  then have len: "length (segment w' @ []) < 2 ^ 64"
    by (simp add: wal_holds_def holds_def HEADER_LEN_def)
  have "holds crc (segment w') (log_rotate l)" using h by (simp add: wal_holds_def)
  from wal_open_torn [OF this _ len] show ?thesis
    using h assms(1) by (auto simp: wal_holds_def)
qed

text \<open>
  The assertions of the fuzz target \<open>wal_frame\<close> hold of every input and every checksum
  function: parsing consumes at most the input, parsing what was consumed gives the same records
  again, and no record is larger than what was consumed.
\<close>

theorem wal_fuzz_frame_passes: "fuzz_wal_frame crc data"
proof -
  obtain rs n where p: "parse_frames crc data = (rs, n)" by fastforce
  note s = parse_frames_sound [OF p]
  have "take n data = frames_of crc rs"
    using s(2,3) by (metis append_eq_conv_conj)
  then have again: "parse_frames crc (take n data) = (rs, n)"
    using parse_frames_frames [OF s(1), of crc "[]"] s(2) by simp
  have "length (frame_of crc r) \<le> n" if "r \<in> set rs" for r
    using that unfolding s(2) by (induction rs) auto
  then have "list_all (\<lambda>r. length (rkey r) + length (rvalue r) \<le> n) rs"
    by (fastforce simp: list_all_iff length_frame_of)
  with s(5) show ?thesis by (simp add: fuzz_wal_frame_def p again)
qed

text \<open>
  A file that does not begin with a header this version writes is never touched: opening it
  fails, whatever the operating system does, and leaves it byte for byte as it was.
\<close>

theorem wal_open_foreign_refused:
  assumes "file \<noteq> []" and "\<And>b rest. file \<noteq> encode_header b @ rest"
  shows "\<exists>e. wal_open crc io file = (Inl e, file)"
proof -
  obtain e where "parse_header file = Inl e"
    using assms(2) parse_header_iff [of "file"] by (cases "parse_header file") auto
  then show ?thesis
    using assms(1) by (auto simp: wal_open_def open_recover_def on_io_def split: option.splits)
qed

text \<open>
  C39: a rotation that fails, or is cut short by a crash, while it writes the new header. The
  records are gone; if not one byte of the header was stored the next open starts counting at 0
  again, and if some were, the next open refuses the file. So the sequence does not always climb
  across a rotation.
\<close>

theorem wal_rotate_interrupted:
  assumes "wal_holds crc w l" and "io 1 = None" and "io 2 = Some (e, m)"
  shows "\<exists>w'. rotate io w = (Inl (Io e), w')
    \<and> (if m = 0
       then \<exists>w'' rec. wal_open crc io_ok (segment w') = (Inr (w'', rec), encode_header 0)
              \<and> records rec = [] \<and> next_seq (winner w'') = 0
       else wal_open crc io_ok (segment w')
              = (Inl (Corrupt ''wal header is truncated''), segment w'))"
proof -
  let ?h = "encode_header (next_seq (winner w))"
  obtain w' where r: "rotate io w = (Inl (Io e), w')" and s: "segment w' = written m ?h"
    using assms by (simp add: rotate_def wal_holds_def flush_buf_def on_io_def Let_def)
  have lt: "length (written m ?h) < HEADER_LEN"
    using length_written [of ?h m] by simp
  show ?thesis
  proof (cases "m = 0")
    case True
    then have "segment w' = []" by (simp add: s written_def)
    with True r show ?thesis by (simp add: wal_open_def open_recover_def)
  next
    case False
    then have "written m ?h \<noteq> []"
      by (auto simp: written_def HEADER_LEN_def)
    with False r lt show ?thesis
      by (simp add: s wal_open_def open_recover_def parse_header_def)
  qed
qed

theorem wal_rotate_interrupted_witness:
  "\<exists>w'. rotate ((\<lambda>_. None)(2 := Some (''disk full'', 0))) wal_example = (Inl (Io ''disk full''), w')
     \<and> (\<exists>w'' rec. wal_open (\<lambda>_. 7) io_ok (segment w') = (Inr (w'', rec), encode_header 0)
         \<and> next_seq (winner w'') = 0)"
  using wal_rotate_interrupted [OF wal_holds_example [of "\<lambda>_. 7"],
      of "(\<lambda>_. None)(2 := Some (''disk full'', 0))" "''disk full''" 0] by auto

text \<open>
  C40: an append that fails part-way on a frame that bypasses the write buffer leaves a torn frame
  in the middle of the log. A later append reports success, and yet recovery stops before its
  record.
\<close>

theorem wal_append_after_torn_frame_lost:
  assumes "wal_holds crc w l" and "length key < 2 ^ 32" and "length v < 2 ^ 32"
    and "BUF_CAPACITY < MIN_FRAME_LEN + length key + length v"
    and "length (segment w) + MIN_FRAME_LEN + length key + length v < 2 ^ 64"
    and "io 1 = Some (e, m)" and "17 + length key \<le> m"
    and "m + MIN_FRAME_LEN + length key' + length v' < MIN_FRAME_LEN + length key + length v"
  shows "\<exists>w1 sq w2 w3 rec file. append crc io w oper key v = (Inl (Io e), w1)
    \<and> append crc io_ok w1 oper' key' v' = (Inr sq, w2)
    \<and> wal_open crc io_ok (segment w2) = (Inr (w3, rec), file) \<and> records rec = entries l"
proof -
  let ?r = "\<lparr>seq = log_next l, op = oper, rkey = key, rvalue = v\<rparr>"
  let ?f = "frame_of crc ?r" and ?x = "encode_frame crc (log_next l) oper' key' v'"
  have h: "holds crc (segment w) l" "bw_buf (writer (winner w)) = []" "next_seq (winner w) = log_next l"
    using assms(1) by (simp_all add: wal_holds_def)
  have lf: "length ?f = MIN_FRAME_LEN + length key + length v" by (simp add: length_frame_of)
  have lx: "length ?x = MIN_FRAME_LEN + length key' + length v'"
    using length_frame_of [of crc "\<lparr>seq = log_next l, op = oper', rkey = key', rvalue = v'\<rparr>"]
    by (simp add: frame_of_def)
  have wm: "written m ?f = take m ?f" using assms(8) lf by (simp add: written_def)
  let ?w1 = "\<lparr>segment = segment w @ take m ?f, winner = winner w\<rparr>"
  have a1: "append crc io w oper key v = (Inl (Io e), ?w1)"
    using h assms(4,6) lf wm
    by (simp add: append_def write_flush_def bw_write_all_def flush_buf_def on_io_def frame_of_def Let_def)
  obtain w2 where a2: "append crc io_ok ?w1 oper' key' v' = (Inr (log_next l), w2)"
    and s2: "segment w2 = segment w @ (take m ?f @ ?x)"
    using h by (simp add: append_def write_flush_io_ok Let_def)
  have "parse_frame crc (take m ?f @ ?x) = None"
    by (rule parse_frame_torn_append) (use assms(2,3,7,8) lf lx in \<open>simp_all add: record_ok_def\<close>)
  moreover have "length (segment w @ (take m ?f @ ?x)) < 2 ^ 64"
    using assms(5,8) lf lx by simp
  ultimately show ?thesis
    using wal_open_torn [OF h(1)] a1 a2 s2 by (metis (no_types, lifting))
qed

theorem wal_append_after_torn_frame_lost_witness:
  "\<exists>w1 sq w2 w3 rec file.
     append (\<lambda>_. 7) ((\<lambda>_. None)(1 := Some (''disk full'', 100))) wal_example Put [1] (replicate 9000 0)
       = (Inl (Io ''disk full''), w1)
     \<and> append (\<lambda>_. 7) io_ok w1 Put [2] [3] = (Inr sq, w2)
     \<and> wal_open (\<lambda>_. 7) io_ok (segment w2) = (Inr (w3, rec), file) \<and> records rec = []"
  using wal_append_after_torn_frame_lost [OF wal_holds_example [of "\<lambda>_. 7"], of "[1]"
      "replicate 9000 0" "(\<lambda>_. None)(1 := Some (''disk full'', 100))" "''disk full''" 100 "[2]" "[3]" Put Put]
  by (simp add: BUF_CAPACITY_def MIN_FRAME_LEN_def segment_example HEADER_LEN_def)

end
