(* ===== verification/Node_Config.thy ===== *)
theory Node_Config
  imports Core_Types
begin

text \<open>
  The node's configuration, \<open>ferriskv-node/src/config.rs\<close>: the records, their defaults, and the
  validation the node runs before it starts, with the fuzz target over it.

  A path is its components. What the file system holds is an argument: \<open>exists\<close> for
  \<open>Path::exists\<close>, \<open>read\<close> for \<open>std::fs::read\<close>. The configuration parser (the crates \<open>config\<close> and
  \<open>serde\<close>) is third-party code and an argument of the fuzz target.
\<close>

section \<open>Definitions\<close>

record path =
  absolute :: bool
  comps :: "string list"

definition path_is_empty :: "path \<Rightarrow> bool" where
  "path_is_empty p \<longleftrightarrow> \<not> absolute p \<and> comps p = []"

text \<open>\<open>Path::parent\<close>: none for the root and for the empty path.\<close>

definition path_parent :: "path \<Rightarrow> path option" where
  "path_parent p = (if comps p = [] then None else Some (p\<lparr>comps := butlast (comps p)\<rparr>))"

fun join_comps :: "string list \<Rightarrow> string" where
  "join_comps [] = ''''"
| "join_comps [c] = c"
| "join_comps (c # cs) = c @ ''/'' @ join_comps cs"

definition path_display :: "path \<Rightarrow> string" where
  "path_display p = (if absolute p then ''/'' else '''') @ join_comps (comps p)"

type_synonym read_file = "path \<Rightarrow> io_error + bytes"

record tls_config =
  cert_path :: path
  key_path :: path

definition tls_validate :: "(path \<Rightarrow> bool) \<Rightarrow> tls_config \<Rightarrow> string + unit" where
  "tls_validate exists t =
     (if \<not> exists (cert_path t) then
        Inl (''tls.cert_path does not exist: '' @ path_display (cert_path t))
      else if \<not> exists (key_path t) then
        Inl (''tls.key_path does not exist: '' @ path_display (key_path t))
      else Inr ())"

definition tls_load :: "read_file \<Rightarrow> tls_config \<Rightarrow> string + bytes \<times> bytes" where
  "tls_load read t =
     (case read (cert_path t) of
        Inl e \<Rightarrow> Inl (''read '' @ path_display (cert_path t) @ '': '' @ e)
      | Inr cert \<Rightarrow>
          (case read (key_path t) of
             Inl e \<Rightarrow> Inl (''read '' @ path_display (key_path t) @ '': '' @ e)
           | Inr key \<Rightarrow> Inr (cert, key)))"

record auth_config =
  insecure :: bool
  public_key_path :: "path option"

definition auth_config_default :: auth_config where
  "auth_config_default = \<lparr>insecure = False, public_key_path = None\<rparr>"

definition auth_validate :: "auth_config \<Rightarrow> string + unit" where
  "auth_validate a =
     (if insecure a then Inr ()
      else if public_key_path a = None then
        Inl ''auth: set insecure=true or provide public_key_path''
      else Inr ())"

definition load_public_key :: "read_file \<Rightarrow> auth_config \<Rightarrow> string + bytes option" where
  "load_public_key read a =
     (case public_key_path a of
        Some path \<Rightarrow>
          (case read path of
             Inl e \<Rightarrow> Inl (''read public_key_path '' @ path_display path @ '': '' @ e)
           | Inr bytes \<Rightarrow> Inr (Some bytes))
      | None \<Rightarrow> Inr None)"

record quota_config =
  default_max_bytes :: u64
  default_max_ops_per_sec :: u32

definition quota_config_default :: quota_config where
  "quota_config_default = \<lparr>default_max_bytes = 0, default_max_ops_per_sec = 0\<rparr>"

datatype backend = MemoryBackend | FjallBackend

record node_config =
  node_id :: str
  listen :: string
  data_dir :: path
  coord_endpoints :: "str list"
  backend :: backend
  limits :: limits
  auth :: auth_config
  tls :: "tls_config option"
  admin_listen :: "string option"
  ttl_sweep_interval_secs :: u64
  shutdown_timeout_secs :: u64
  quota :: quota_config
  watch_buffer :: usize
  watch_heartbeat_secs :: u64
  wal_rotate_bytes :: u64

definition default_backend :: backend where
  "default_backend = FjallBackend"

definition default_shutdown_secs :: u64 where
  "default_shutdown_secs = 10"

definition default_ttl_sweep_interval_secs :: u64 where
  "default_ttl_sweep_interval_secs = 60"

definition default_wal_rotate_bytes :: u64 where
  "default_wal_rotate_bytes = 64 * 1024 * 1024"

definition default_watch_buffer :: usize where
  "default_watch_buffer = 1024"

definition default_watch_heartbeat_secs :: u64 where
  "default_watch_heartbeat_secs = 30"

text \<open>The checks, in order; the first that fails is the error.\<close>

definition node_config_validate :: "(path \<Rightarrow> bool) \<Rightarrow> node_config \<Rightarrow> string + unit" where
  "node_config_validate exists c =
     (if node_id c = [] then Inl ''node_id must not be empty''
      else if length (node_id c) > 255 then Inl ''node_id exceeds 255 bytes''
      else case limits_validate (limits c) of Inl e \<Rightarrow> Inl e | Inr _ \<Rightarrow>
       (case auth_validate (auth c) of Inl e \<Rightarrow> Inl e | Inr _ \<Rightarrow>
       (case (case tls c of Some t \<Rightarrow> tls_validate exists t | None \<Rightarrow> Inr ()) of Inl e \<Rightarrow> Inl e | Inr _ \<Rightarrow>
         if shutdown_timeout_secs c = 0 then Inl ''shutdown_timeout_secs must be > 0''
         else if wal_rotate_bytes c < 4096 then Inl ''wal_rotate_bytes must be at least 4096''
         else if watch_buffer c < 2 then Inl ''watch_buffer must be at least 2''
         else if watch_heartbeat_secs c = 0 then Inl ''watch_heartbeat_secs must be > 0''
         else
           (case path_parent (data_dir c) of
              None \<Rightarrow> Inr ()
            | Some parent \<Rightarrow>
                if \<not> path_is_empty parent \<and> \<not> exists parent then
                  Inl (''data_dir parent does not exist: '' @ path_display parent)
                else Inr ()))))"

subsection \<open>Fuzz target\<close>

definition fuzz_node_config :: "(str \<Rightarrow> node_config option) \<Rightarrow> (path \<Rightarrow> bool) \<Rightarrow> bytes \<Rightarrow> bool" where
  "fuzz_node_config parse exists data =
     (if \<not> utf8_valid data then True
      else
        (case parse data of
           None \<Rightarrow> True
         | Some cfg \<Rightarrow>
             (case node_config_validate exists cfg of
                Inl _ \<Rightarrow> True
              | Inr _ \<Rightarrow>
                  node_id cfg \<noteq> [] \<and> shutdown_timeout_secs cfg > 0 \<and> wal_rotate_bytes cfg \<ge> 4096)))"

section \<open>Lemmas\<close>

lemma tls_validate_Inr_iff:
  "tls_validate exists t = Inr u \<longleftrightarrow> exists (cert_path t) \<and> exists (key_path t)"
  by (simp add: tls_validate_def)

lemma auth_validate_Inr_iff:
  "auth_validate a = Inr u \<longleftrightarrow> insecure a \<or> public_key_path a \<noteq> None"
  by (simp add: auth_validate_def)

lemma node_config_validate_Inr_iff:
  "node_config_validate exists c = Inr u \<longleftrightarrow>
     node_id c \<noteq> [] \<and> length (node_id c) \<le> 255 \<and> limits_validate (limits c) = Inr ()
     \<and> auth_validate (auth c) = Inr ()
     \<and> (\<forall>t. tls c = Some t \<longrightarrow> tls_validate exists t = Inr ())
     \<and> shutdown_timeout_secs c \<noteq> 0 \<and> wal_rotate_bytes c \<ge> 4096 \<and> watch_buffer c \<ge> 2
     \<and> watch_heartbeat_secs c \<noteq> 0
     \<and> (\<forall>p. path_parent (data_dir c) = Some p \<longrightarrow> path_is_empty p \<or> exists p)"
  by (auto simp: node_config_validate_def not_less split: sum.splits option.splits)

section \<open>Properties\<close>


end
