(* ===== verification/Node_Service.thy ===== *)
theory Node_Service
  imports Quota Throttle Watch Ttl Wal Node_Config
begin

text \<open>
  The node service of \<open>ferriskv-node/src/service.rs\<close> and the sweeper of \<open>ttl.rs\<close>: opening a node from
  what a previous run left on disk, the write path, the read path, and the eviction of expired keys.

  The third-party code a node runs on is the record \<open>env\<close>; what one call reads of the outside world
  (the time, the outcome of each file operation) is the record \<open>world\<close>. The state of a node is
  passed explicitly; the calls are the atomic steps of the model. Logging and metrics are left out.
\<close>

section \<open>Definitions\<close>

subsection \<open>State\<close>

record ('f, 'l, 'c) env =
  fjall :: "'f fjall_api"
  crc32 :: "bytes \<Rightarrow> u32"
  broadcast :: "'c broadcast_api"
  governor :: "'l governor_api"
  json :: quota_json

record world =
  w_time :: system_time
  w_instant :: instant
  w_append :: io
  w_rotate :: io

record ('f, 'l, 'c) node =
  config :: node_config
  store :: "'f storage_backend"
  nwal :: wal
  nclock :: clock
  index :: ttl_index
  hub :: "'c watch_hub"
  nquotas :: quota_store
  nthrottle :: "'l throttle"

record accounting =
  acc_tenant :: str
  delta :: i64

record bootstrap =
  ttl_entries :: usize
  tenants :: usize

text \<open>What is on disk: the \<open>fjall\<close> directory and the log segment.\<close>

record 'f disk =
  d_fjall :: 'f
  d_wal :: bytes

subsection \<open>The write path\<close>

definition admit ::
    "('f, 'l, 'c) env \<Rightarrow> world \<Rightarrow> ('f, 'l, 'c) node \<Rightarrow> str \<Rightarrow> u32 \<Rightarrow> unit result \<times> ('f, 'l, 'c) node" where
  "admit E w n tenant cost =
     (let ops = max_ops_per_sec (quota_of (nquotas n) tenant)
      in case throttle_check (governor E) (w_instant w) (nthrottle n) tenant ops cost of
           (r, th) \<Rightarrow> (r, n\<lparr>nthrottle := th\<rparr>))"

definition publish_change ::
    "('f, 'l, 'c) env \<Rightarrow> ('f, 'l, 'c) node \<Rightarrow> bytes \<Rightarrow> change_kind \<Rightarrow> bytes \<Rightarrow> ('f, 'l, 'c) node" where
  "publish_change E n encoded_key k v =
     (case key_decode encoded_key of
        Inl _ \<Rightarrow> n
      | Inr (tenant, subspace, payload) \<Rightarrow>
          if subspace \<noteq> Data then n
          else if \<not> is_watched (broadcast E) (hub n) tenant then n
          else n\<lparr>hub := publish (broadcast E) (hub n) tenant \<lparr>kind = k, ckey = payload, cvalue = v\<rparr>\<rparr>)"

definition rotate_wal_if_needed ::
    "('f, 'l, 'c) env \<Rightarrow> world \<Rightarrow> ('f, 'l, 'c) node \<Rightarrow> ('f, 'l, 'c) node" where
  "rotate_wal_if_needed E w n =
     (if \<not> is_durable (store n) then n
      else if segment_bytes (winner (nwal n)) < wal_rotate_bytes (config n) then n
      else
        (case backend_flush (fjall E) (store n) of
           (Inl _, s) \<Rightarrow> n\<lparr>store := s\<rparr>
         | (Inr _, s) \<Rightarrow> n\<lparr>store := s, nwal := snd (rotate (w_rotate w) (nwal n))\<rparr>))"

definition plan_accounting ::
    "('f, 'l, 'c) env \<Rightarrow> ('f, 'l, 'c) node \<Rightarrow> bytes \<Rightarrow> usize \<Rightarrow> accounting option result" where
  "plan_accounting E n encoded_key new_value_len =
     (case key_decode encoded_key of
        Inl _ \<Rightarrow> Inr None
      | Inr (tenant, subspace, payload) \<Rightarrow>
          if subspace \<noteq> Data then Inr None
          else
            (case backend_get (fjall E) (store n) encoded_key of
               Inl e \<Rightarrow> Inl e
             | Inr got \<Rightarrow>
                 (case (case got of
                          Some raw \<Rightarrow> map_sum id (entry_bytes (length payload)) (payload_len raw)
                        | None \<Rightarrow> Inr 0) of
                    Inl e \<Rightarrow> Inl e
                  | Inr previous \<Rightarrow>
                      (let next = entry_bytes (length payload) new_value_len
                       in Inr (Some \<lparr>acc_tenant = tenant, delta = next - previous\<rparr>)))))"

definition plan_delete_accounting ::
    "('f, 'l, 'c) env \<Rightarrow> ('f, 'l, 'c) node \<Rightarrow> bytes \<Rightarrow> accounting option result" where
  "plan_delete_accounting E n encoded_key =
     (case key_decode encoded_key of
        Inl _ \<Rightarrow> Inr None
      | Inr (tenant, subspace, payload) \<Rightarrow>
          if subspace \<noteq> Data then Inr None
          else
            (case backend_get (fjall E) (store n) encoded_key of
               Inl e \<Rightarrow> Inl e
             | Inr None \<Rightarrow> Inr None
             | Inr (Some raw) \<Rightarrow>
                 (case payload_len raw of
                    Inl e \<Rightarrow> Inl e
                  | Inr len \<Rightarrow>
                      (let freed = entry_bytes (length payload) len
                       in Inr (Some \<lparr>acc_tenant = tenant, delta = - freed\<rparr>)))))"

definition commit_accounting ::
    "('f, 'l, 'c) env \<Rightarrow> ('f, 'l, 'c) node \<Rightarrow> accounting option \<Rightarrow> ('f, 'l, 'c) node" where
  "commit_accounting E n acc =
     (case acc of
        None \<Rightarrow> n
      | Some plan \<Rightarrow>
          (case quota_apply (fjall E) (nquotas n) (store n) (acc_tenant plan) (delta plan) of
             (_, q, s) \<Rightarrow> n\<lparr>nquotas := q, store := s\<rparr>))"

definition put_with_ttl ::
    "('f, 'l, 'c) env \<Rightarrow> world \<Rightarrow> ('f, 'l, 'c) node \<Rightarrow> bytes \<Rightarrow> bytes \<Rightarrow> u64 \<Rightarrow>
     unit result \<times> ('f, 'l, 'c) node" where
  "put_with_ttl E w n key v ttl_ms =
     (let expires_at = (if ttl_ms > 0 then Some (saturating_add (now_ms (w_time w) (nclock n)) ttl_ms)
                        else None)
      in case plan_accounting E n key (length v) of
           Inl e \<Rightarrow> (Inl e, n)
         | Inr acc \<Rightarrow>
             (case (case acc of
                      Some plan \<Rightarrow> check_write (nquotas n) (acc_tenant plan) (delta plan)
                    | None \<Rightarrow> Inr ()) of
                Inl e \<Rightarrow> (Inl e, n)
              | Inr _ \<Rightarrow>
                  (let encoded = value_encode v expires_at
                   in case append (crc32 E) (w_append w) (nwal n) wal_op.Put key encoded of
                        (Inl e, wl) \<Rightarrow> (Inl e, n\<lparr>nwal := wl\<rparr>)
                      | (Inr _, wl) \<Rightarrow>
                          (case backend_put (fjall E) (store n) key encoded of
                             (Inl e, s) \<Rightarrow> (Inl e, n\<lparr>nwal := wl, store := s\<rparr>)
                           | (Inr _, s) \<Rightarrow>
                               (let n = n\<lparr>nwal := wl, store := s\<rparr>;
                                    n = (case expires_at of
                                           Some e \<Rightarrow> n\<lparr>index := schedule (index n) key e\<rparr>
                                         | None \<Rightarrow> n);
                                    n = commit_accounting E n acc;
                                    n = publish_change E n key change_kind.Put v
                                in (Inr (), rotate_wal_if_needed E w n))))))"

definition node_delete ::
    "('f, 'l, 'c) env \<Rightarrow> world \<Rightarrow> ('f, 'l, 'c) node \<Rightarrow> bytes \<Rightarrow> unit result \<times> ('f, 'l, 'c) node" where
  "node_delete E w n key =
     (case plan_delete_accounting E n key of
        Inl e \<Rightarrow> (Inl e, n)
      | Inr acc \<Rightarrow>
          (case append (crc32 E) (w_append w) (nwal n) wal_op.Delete key [] of
             (Inl e, wl) \<Rightarrow> (Inl e, n\<lparr>nwal := wl\<rparr>)
           | (Inr _, wl) \<Rightarrow>
               (case backend_delete (fjall E) (store n) key of
                  (Inl e, s) \<Rightarrow> (Inl e, n\<lparr>nwal := wl, store := s\<rparr>)
                | (Inr _, s) \<Rightarrow>
                    (let n = n\<lparr>nwal := wl, store := s\<rparr>;
                         n = commit_accounting E n acc;
                         n = publish_change E n key change_kind.Delete []
                     in (Inr (), rotate_wal_if_needed E w n)))))"

subsection \<open>The read path\<close>

definition node_get ::
    "('f, 'l, 'c) env \<Rightarrow> world \<Rightarrow> ('f, 'l, 'c) node \<Rightarrow> bytes \<Rightarrow> bytes option result" where
  "node_get E w n key =
     (case backend_get (fjall E) (store n) key of
        Inl e \<Rightarrow> Inl e
      | Inr None \<Rightarrow> Inr None
      | Inr (Some raw) \<Rightarrow>
          (case is_expired raw (now_ms (w_time w) (nclock n)) of
             Inl e \<Rightarrow> Inl e
           | Inr True \<Rightarrow> Inr None
           | Inr False \<Rightarrow>
               (case value_decode raw of Inl e \<Rightarrow> Inl e | Inr sv \<Rightarrow> Inr (Some (sv_value sv)))))"

definition filter_entry :: "u64 \<Rightarrow> bytes \<times> bytes \<Rightarrow> (bytes \<times> bytes) option" where
  "filter_entry now kv =
     (case is_expired (snd kv) now of
        Inr True \<Rightarrow> None
      | Inr False \<Rightarrow>
          (case value_decode (snd kv) of Inr sv \<Rightarrow> Some (fst kv, sv_value sv) | Inl _ \<Rightarrow> None)
      | Inl _ \<Rightarrow> None)"

definition filter_scan :: "world \<Rightarrow> ('f, 'l, 'c) node \<Rightarrow> (bytes \<times> bytes) list \<Rightarrow> (bytes \<times> bytes) list" where
  "filter_scan w n raw = List.map_filter (filter_entry (now_ms (w_time w) (nclock n))) raw"

definition node_scan ::
    "('f, 'l, 'c) env \<Rightarrow> world \<Rightarrow> ('f, 'l, 'c) node \<Rightarrow> bytes \<Rightarrow> (bytes \<times> bytes) list result" where
  "node_scan E w n pre = map_sum id (filter_scan w n) (backend_scan (fjall E) (store n) pre)"

definition node_scan_range ::
    "('f, 'l, 'c) env \<Rightarrow> world \<Rightarrow> ('f, 'l, 'c) node \<Rightarrow> bytes \<Rightarrow> bytes \<Rightarrow>
     (bytes \<times> bytes) list result" where
  "node_scan_range E w n start stop =
     map_sum id (filter_scan w n) (backend_scan_range (fjall E) (store n) start stop)"

subsection \<open>Opening a node\<close>

fun replay_loop ::
    "'f fjall_api \<Rightarrow> 'f storage_backend \<Rightarrow> wal_record list \<Rightarrow> unit result \<times> 'f storage_backend" where
  "replay_loop F s [] = (Inr (), s)"
| "replay_loop F s (record # rs) =
     (case (case op record of
              wal_op.Put \<Rightarrow> backend_put F s (rkey record) (rvalue record)
            | wal_op.Delete \<Rightarrow> backend_delete F s (rkey record)) of
        (Inl e, s') \<Rightarrow> (Inl e, s')
      | (Inr _, s') \<Rightarrow> replay_loop F s' rs)"

definition replay ::
    "'f fjall_api \<Rightarrow> 'f storage_backend \<Rightarrow> wal_record list \<Rightarrow> usize result \<times> 'f storage_backend" where
  "replay F s rs = (case replay_loop F s rs of (r, s') \<Rightarrow> (map_sum id (\<lambda>_. length rs) r, s'))"

text \<open>One entry of the scan; an entry whose value does not decode is skipped.\<close>

definition bootstrap_entry ::
    "bytes \<times> bytes \<Rightarrow> usize \<times> (str, u64) dashmap \<times> ttl_index \<Rightarrow> usize \<times> (str, u64) dashmap \<times> ttl_index" where
  "bootstrap_entry kv acc =
     (case (kv, acc) of
        ((k, v), (ttls, totals, ix)) \<Rightarrow>
          (case value_decode v of
             Inl _ \<Rightarrow> acc
           | Inr stored \<Rightarrow>
               (let (ttls, ix) = (case expires_at_ms stored of
                                    Some e \<Rightarrow> (ttls + 1, schedule ix k e)
                                  | None \<Rightarrow> (ttls, ix));
                    totals = (case key_decode k of
                                Inr (tenant, Data, payload) \<Rightarrow>
                                  dm_insert tenant
                                    ((case dm_get totals tenant of Some u \<Rightarrow> u | None \<Rightarrow> 0)
                                     + entry_bytes (length payload) (length (sv_value stored))) totals
                              | _ \<Rightarrow> totals)
                in (ttls, totals, ix))))"

definition bootstrap_from_storage ::
    "'f fjall_api \<Rightarrow> 'f storage_backend \<Rightarrow> ttl_index \<Rightarrow> quota_store \<Rightarrow>
     bootstrap result \<times> ttl_index \<times> quota_store" where
  "bootstrap_from_storage F s ix qs =
     (case backend_scan F s [] of
        Inl e \<Rightarrow> (Inl e, ix, qs)
      | Inr es \<Rightarrow>
          (case fold bootstrap_entry es (0, [], ix) of
             (ttls, totals, ix') \<Rightarrow>
               (Inr \<lparr>ttl_entries = ttls, tenants = length totals\<rparr>, ix', reset_usage qs totals)))"

text \<open>
  The outcomes of the file operations while a node opens: creating its directory, creating the
  \<open>fjall\<close> directory, opening and rotating the log.
\<close>

record open_world =
  o_mkdir :: "io_error option"
  o_fjall_mkdir :: "io_error option"
  o_wal :: io
  o_rotate :: io

definition disk_of :: "'f disk \<Rightarrow> 'f storage_backend \<Rightarrow> bytes \<Rightarrow> 'f disk" where
  "disk_of d s file =
     \<lparr>d_fjall = (case s of Fjall f \<Rightarrow> f | Memory _ \<Rightarrow> d_fjall d), d_wal = file\<rparr>"

definition open_backend ::
    "'f fjall_api \<Rightarrow> open_world \<Rightarrow> node_config \<Rightarrow> 'f disk \<Rightarrow> 'f storage_backend result" where
  "open_backend F ow cfg d =
     (case backend cfg of
        MemoryBackend \<Rightarrow> Inr (Memory mem_new)
      | FjallBackend \<Rightarrow> map_sum id Fjall (fjall_open F (o_fjall_mkdir ow) (d_fjall d)))"

text \<open>A durable backend is flushed and the replayed log rotated; either may fail.\<close>

definition settle ::
    "('f, 'l, 'c) env \<Rightarrow> open_world \<Rightarrow> 'f storage_backend \<Rightarrow> wal \<Rightarrow> unit result \<times> 'f storage_backend \<times> wal" where
  "settle E ow s w =
     (if is_durable s then
        (case backend_flush (fjall E) s of
           (Inl e, s') \<Rightarrow> (Inl e, s', w)
         | (Inr _, s') \<Rightarrow> (case rotate (o_rotate ow) w of (r, w') \<Rightarrow> (r, s', w')))
      else (Inr (), s, w))"

definition open_with_clock ::
    "('f, 'l, 'c) env \<Rightarrow> open_world \<Rightarrow> node_config \<Rightarrow> clock \<Rightarrow> 'f disk \<Rightarrow>
     ('f, 'l, 'c) node result \<times> 'f disk" where
  "open_with_clock E ow cfg clk d =
     (case o_mkdir ow of
        Some e \<Rightarrow> (Inl (Io e), d)
      | None \<Rightarrow>
     (case open_backend (fjall E) ow cfg d of
        Inl e \<Rightarrow> (Inl e, d)
      | Inr s \<Rightarrow>
     (case wal_open (crc32 E) (o_wal ow) (d_wal d) of
        (Inl e, file) \<Rightarrow> (Inl e, disk_of d s file)
      | (Inr (w, recovery), file) \<Rightarrow>
     (case replay (fjall E) s (records recovery) of
        (Inl e, s) \<Rightarrow> (Inl e, disk_of d s file)
      | (Inr replayed, s) \<Rightarrow>
     (case settle E ow s w of
        (Inl e, s, w) \<Rightarrow> (Inl e, disk_of d s (segment w))
      | (Inr _, s, w) \<Rightarrow>
     (let qs = quota_store_new \<lparr>max_bytes = default_max_bytes (quota cfg),
                                 max_ops_per_sec = default_max_ops_per_sec (quota cfg)\<rparr>
      in case load_quotas (fjall E) (json E) qs s of
        (Inl e, _) \<Rightarrow> (Inl e, disk_of d s (segment w))
      | (Inr loaded, qs) \<Rightarrow>
     (case bootstrap_from_storage (fjall E) s ttl_new qs of
        (Inl e, _) \<Rightarrow> (Inl e, disk_of d s (segment w))
      | (Inr _, ix, qs) \<Rightarrow>
          (Inr \<lparr>config = cfg, store = s, nwal = w, nclock = clk, index = ix,
                hub = hub_new (watch_buffer cfg), nquotas = qs,
                nthrottle = throttle_new (default_max_ops_per_sec (quota cfg))\<rparr>,
           disk_of d s (segment w)))))))))"

definition node_open ::
    "('f, 'l, 'c) env \<Rightarrow> open_world \<Rightarrow> node_config \<Rightarrow> 'f disk \<Rightarrow> ('f, 'l, 'c) node result \<times> 'f disk" where
  "node_open E ow cfg d = open_with_clock E ow cfg system d"

subsection \<open>The sweeper\<close>

text \<open>
  One candidate of a sweep. The sweeper reads the clock once, and each eviction is a call of the
  service with what it reads of the world.
\<close>

definition sweep_key ::
    "('f, 'l, 'c) env \<Rightarrow> u64 \<Rightarrow> world \<Rightarrow> bytes \<Rightarrow> ('f, 'l, 'c) node \<times> u64 \<Rightarrow> ('f, 'l, 'c) node \<times> u64" where
  "sweep_key E now w key st =
     (case st of
        (n, removed) \<Rightarrow>
          (case backend_get (fjall E) (store n) key of
             Inl _ \<Rightarrow> (n, removed)
           | Inr None \<Rightarrow> (n, removed)
           | Inr (Some raw) \<Rightarrow>
               (case is_expired raw now of
                  Inr True \<Rightarrow>
                    (case node_delete E w n key of
                       (Inr _, n') \<Rightarrow> (n', removed + 1)
                     | (Inl _, n') \<Rightarrow> (n', removed))
                | Inr False \<Rightarrow>
                    (case value_decode raw of
                       Inr sv \<Rightarrow>
                         (case expires_at_ms sv of
                            Some e \<Rightarrow> (n\<lparr>index := schedule (index n) key e\<rparr>, removed)
                          | None \<Rightarrow> (n, removed))
                     | Inl _ \<Rightarrow> (n, removed))
                | Inl _ \<Rightarrow> (n, removed))))"

fun sweep_loop ::
    "('f, 'l, 'c) env \<Rightarrow> u64 \<Rightarrow> (nat \<Rightarrow> world) \<Rightarrow> bytes list \<Rightarrow> ('f, 'l, 'c) node \<times> u64 \<Rightarrow>
     ('f, 'l, 'c) node \<times> u64" where
  "sweep_loop E now ws [] st = st"
| "sweep_loop E now ws (k # ks) st =
     sweep_loop E now (\<lambda>i. ws (i + 1)) ks (sweep_key E now (ws 0) k st)"

definition sweep_once ::
    "('f, 'l, 'c) env \<Rightarrow> system_time \<Rightarrow> (nat \<Rightarrow> world) \<Rightarrow> ('f, 'l, 'c) node \<Rightarrow> u64 \<times> ('f, 'l, 'c) node" where
  "sweep_once E t ws n =
     (let now = now_ms t (nclock n)
      in case drain_due (index n) now of
           (candidates, ix) \<Rightarrow>
             (case sweep_loop E now ws candidates (n\<lparr>index := ix\<rparr>, 0) of
                (n', removed) \<Rightarrow> (removed, n')))"

text \<open>
  When the sweeper wakes next, in milliseconds on the timer's own scale: at once if something is
  due, otherwise when the earliest key is, or after the fallback interval.
\<close>

definition compute_wakeup :: "system_time \<Rightarrow> nat \<Rightarrow> ('f, 'l, 'c) node \<Rightarrow> nat \<Rightarrow> nat" where
  "compute_wakeup t now n fallback =
     (let fallback_at = now + fallback
      in case next_due_ms (index n) of
           Some due \<Rightarrow>
             (let clock_now = now_ms t (nclock n)
              in if due \<le> clock_now then now
                 else min (now + unat (due - clock_now)) fallback_at)
         | None \<Rightarrow> fallback_at)"

text \<open>
  The loop of the sweeper: each turn ends with one of the branches of \<open>select!\<close>, the sleep, a
  notification or the shutdown. A turn other than the last is a sweep.
\<close>

datatype wake = Slept | Notified | Shutdown

fun sweeper_loop ::
    "('f, 'l, 'c) env \<Rightarrow> (wake \<times> system_time \<times> (nat \<Rightarrow> world)) list \<Rightarrow> ('f, 'l, 'c) node \<Rightarrow> ('f, 'l, 'c) node" where
  "sweeper_loop E [] n = n"
| "sweeper_loop E ((wk, t, ws) # turns) n =
     (case wk of
        Shutdown \<Rightarrow> n
      | Slept \<Rightarrow> sweeper_loop E turns (snd (sweep_once E t ws n))
      | Notified \<Rightarrow>
          sweeper_loop E turns (snd (sweep_once E t ws (n\<lparr>index := (index n)\<lparr>notify := False\<rparr>\<rparr>))))"

definition run_sweeper ::
    "('f, 'l, 'c) env \<Rightarrow> nat \<Rightarrow> (wake \<times> system_time \<times> (nat \<Rightarrow> world)) list \<Rightarrow> ('f, 'l, 'c) node \<Rightarrow>
     ('f, 'l, 'c) node" where
  "run_sweeper E fallback turns n = (if fallback = 0 then n else sweeper_loop E turns n)"

end
