(* ===== verification/Node_Recovery.thy ===== *)
theory Node_Recovery
  imports Node_Service
begin

text \<open>
  What a node recovers. The log is replayed over whatever the backend still holds after a crash:
  nothing, for the memory backend; for \<open>fjall\<close> the last persisted map, with the keys written since
  in any state. \<open>recoverable\<close> says that this gives the current map back on every key that is not
  the node's own bookkeeping; the lemmas show how each write keeps it, and that opening a node
  recovers the map, the usage counters and the expiry index.
\<close>

section \<open>Definitions\<close>

text \<open>Keys the node writes for itself, outside the log: quotas and usage.\<close>

definition bookkeeping :: "bytes \<Rightarrow> bool" where
  "bookkeeping k =
     (case key_decode k of Inr (_, Metadata, _) \<Rightarrow> True | Inr (_, Stats, _) \<Rightarrow> True | _ \<Rightarrow> False)"

fun apply_record :: "wal_record \<Rightarrow> (bytes \<rightharpoonup> bytes) \<Rightarrow> (bytes \<rightharpoonup> bytes)" where
  "apply_record r m =
     (case op r of wal_op.Put \<Rightarrow> m(rkey r \<mapsto> rvalue r) | wal_op.Delete \<Rightarrow> m(rkey r := None))"

declare apply_record.simps [simp del]

definition replay_map :: "wal_record list \<Rightarrow> (bytes \<rightharpoonup> bytes) \<Rightarrow> (bytes \<rightharpoonup> bytes)" where
  "replay_map rs m = fold apply_record rs m"

text \<open>The maps a backend may stand for when it is opened again after a crash.\<close>

fun crash_map ::
    "('f \<Rightarrow> (bytes \<rightharpoonup> bytes)) \<Rightarrow> ('f \<Rightarrow> bytes set) \<Rightarrow> 'f storage_backend \<Rightarrow> (bytes \<rightharpoonup> bytes) \<Rightarrow> bool" where
  "crash_map fd ft (Memory _) m \<longleftrightarrow> m = Map.empty"
| "crash_map fd ft (Fjall f) m \<longleftrightarrow> (\<forall>k. k \<notin> ft f \<longrightarrow> m k = fd f k)"

definition same_data :: "(bytes \<rightharpoonup> bytes) \<Rightarrow> (bytes \<rightharpoonup> bytes) \<Rightarrow> bool" where
  "same_data m m' \<longleftrightarrow> (\<forall>k. \<not> bookkeeping k \<longrightarrow> m k = m' k)"

definition recoverable ::
    "('f \<Rightarrow> (bytes \<rightharpoonup> bytes)) \<Rightarrow> ('f \<Rightarrow> bytes set) \<Rightarrow> 'f storage_backend \<Rightarrow> wal_record list \<Rightarrow>
     (bytes \<rightharpoonup> bytes) \<Rightarrow> bool" where
  "recoverable fd ft s rs m \<longleftrightarrow> (\<forall>m'. crash_map fd ft s m' \<longrightarrow> same_data (replay_map rs m') m)"

definition contents :: "('f \<Rightarrow> (bytes \<rightharpoonup> bytes)) \<Rightarrow> ('f, 'l, 'c) node \<Rightarrow> (bytes \<rightharpoonup> bytes)" where
  "contents fv n = backend_view fv (store n)"

text \<open>
  What a running node keeps: every value it stores for a client decodes, the counters are the bytes
  each tenant's data takes, and every expiry in storage is in the index.
\<close>

definition values_ok :: "(bytes \<rightharpoonup> bytes) \<Rightarrow> bool" where
  "values_ok m \<longleftrightarrow> (\<forall>k raw. m k = Some raw \<longrightarrow> \<not> bookkeeping k \<longrightarrow> (\<exists>v. value_decode raw = Inr v))"

definition usage_exact :: "(bytes \<rightharpoonup> bytes) \<Rightarrow> quota_store \<Rightarrow> bool" where
  "usage_exact m q \<longleftrightarrow> (\<forall>t. used_bytes q t = word_of_nat (tenant_bytes m t))"

definition indexed :: "(bytes \<rightharpoonup> bytes) \<Rightarrow> ttl_index \<Rightarrow> bool" where
  "indexed m ix \<longleftrightarrow>
     (\<forall>k raw v e. m k = Some raw \<longrightarrow> value_decode raw = Inr v \<longrightarrow> expires_at_ms v = Some e \<longrightarrow>
        (e, k) \<in> scheduled ix)"

definition node_ok ::
    "('f, 'l, 'c) env \<Rightarrow> ('f \<Rightarrow> (bytes \<rightharpoonup> bytes)) \<Rightarrow> ('f \<Rightarrow> bool) \<Rightarrow> ('f \<Rightarrow> (bytes \<rightharpoonup> bytes)) \<Rightarrow>
     ('f \<Rightarrow> bytes set) \<Rightarrow> ('f, 'l, 'c) node \<Rightarrow> log \<Rightarrow> bool" where
  "node_ok E fv fi fd ft n l \<longleftrightarrow>
     backend_wf fi (store n) \<and> wal_holds (crc32 E) (nwal n) l
     \<and> recoverable fd ft (store n) (entries l) (contents fv n)
     \<and> values_ok (contents fv n) \<and> usage_exact (contents fv n) (nquotas n)
     \<and> ttl_wf (index n) \<and> indexed (contents fv n) (index n)"

text \<open>
  A disk from which a node recovers the map \<open>m\<close>: its segment holds a log, possibly followed by a
  torn frame, that gives \<open>m\<close> back over what the backend kept; or it has no segment yet.
\<close>

definition disk_holds ::
    "('f, 'l, 'c) env \<Rightarrow> ('f \<Rightarrow> bool) \<Rightarrow> ('f \<Rightarrow> (bytes \<rightharpoonup> bytes)) \<Rightarrow> ('f \<Rightarrow> bytes set) \<Rightarrow> backend \<Rightarrow>
     'f disk \<Rightarrow> (bytes \<rightharpoonup> bytes) \<Rightarrow> bool" where
  "disk_holds E fi fd ft b d m \<longleftrightarrow>
     (b = FjallBackend \<longrightarrow> fi (d_fjall d))
     \<and> (\<exists>l file torn.
          (d_wal d = [] \<and> l = \<lparr>base = 0, entries = []\<rparr>
           \<or> d_wal d = file @ torn \<and> holds (crc32 E) file l \<and> parse_frame (crc32 E) torn = None
             \<and> length (d_wal d) < 2 ^ 64)
          \<and> recoverable fd ft (if b = FjallBackend then Fjall (d_fjall d) else Memory mem_new) (entries l) m)"

definition node_disk :: "'f disk \<Rightarrow> ('f, 'l, 'c) node \<Rightarrow> 'f disk" where
  "node_disk d n = disk_of d (store n) (segment (nwal n))"

text \<open>What one entry adds to a tenant's total, a total, and the expiries among some entries.\<close>

definition entry_weight :: "str \<Rightarrow> bytes \<Rightarrow> bytes \<Rightarrow> nat" where
  "entry_weight t k raw = (if data_owner k = Some t then charge k raw else 0)"

definition usage_total :: "(str, u64) dashmap \<Rightarrow> str \<Rightarrow> u64" where
  "usage_total totals t = (case dm_get totals t of Some u \<Rightarrow> u | None \<Rightarrow> 0)"

definition expiries :: "(bytes \<times> bytes) set \<Rightarrow> (u64 \<times> bytes) set" where
  "expiries es = {(e, k). \<exists>raw v. (k, raw) \<in> es \<and> value_decode raw = Inr v \<and> expires_at_ms v = Some e}"

section \<open>Lemmas\<close>

subsection \<open>Replaying\<close>

lemma bookkeeping_raw_key [simp]:
  "tenant_ok t \<Longrightarrow> bookkeeping (raw_key t s p) \<longleftrightarrow> s = Metadata \<or> s = Stats"
  by (cases s) (simp_all add: bookkeeping_def)

lemma data_owner_not_bookkeeping: "data_owner k = Some t \<Longrightarrow> \<not> bookkeeping k"
  by (auto simp: data_owner_Some_iff bookkeeping_def)

lemma bookkeeping_data_owner: "bookkeeping k \<Longrightarrow> data_owner k = None"
  using data_owner_not_bookkeeping by fastforce

lemma same_data_refl [simp]: "same_data m m"
  by (simp add: same_data_def)

lemma same_data_sym: "same_data m m' \<Longrightarrow> same_data m' m"
  by (auto simp: same_data_def)

lemma same_data_trans: "same_data m m' \<Longrightarrow> same_data m' m'' \<Longrightarrow> same_data m m''"
  by (simp add: same_data_def)

lemma same_data_upd: "same_data m m' \<Longrightarrow> same_data (m(k := v)) (m'(k := v))"
  by (simp add: same_data_def)

lemma same_data_bookkeeping: "bookkeeping k \<Longrightarrow> same_data (m(k := v)) m"
  by (auto simp: same_data_def)

lemma apply_record_local: "m k = m' k \<Longrightarrow> apply_record r m k = apply_record r m' k"
  by (simp add: apply_record.simps split: wal_op.split)

lemma apply_record_other: "k \<noteq> rkey r \<Longrightarrow> apply_record r m k = m k"
  by (simp add: apply_record.simps split: wal_op.split)

lemma same_data_apply: "same_data m m' \<Longrightarrow> same_data (apply_record r m) (apply_record r m')"
  unfolding same_data_def using apply_record_local by blast

lemma replay_map_simps [simp]:
  "replay_map [] m = m"
  "replay_map (r # rs) m = replay_map rs (apply_record r m)"
  "replay_map (rs @ [r]) m = apply_record r (replay_map rs m)"
  by (simp_all add: replay_map_def)

lemma replay_map_local: "m k = m' k \<Longrightarrow> replay_map rs m k = replay_map rs m' k"
proof (induction rs arbitrary: m m')
  case (Cons r rs)
  have "apply_record r m k = apply_record r m' k"
    using Cons.prems by (rule apply_record_local)
  then show ?case using Cons.IH [of "apply_record r m" "apply_record r m'"] by simp
qed simp

text \<open>Replaying a log twice is replaying it once: each key ends as its last record has it.\<close>

lemma replay_map_fixed:
  "replay_map rs m k = m k \<or> (\<forall>m'. replay_map rs m' k = replay_map rs m k)"
proof (induction rs rule: rev_induct)
  case (snoc r rs)
  show ?case
  proof (cases "k = rkey r")
    case True
    then show ?thesis by (simp add: apply_record.simps split: wal_op.split)
  next
    case False
    with snoc show ?thesis by (simp add: apply_record_other)
  qed
qed simp

lemma finite_dom_apply_record: "finite (dom m) \<Longrightarrow> finite (dom (apply_record r m))"
  by (simp add: apply_record.simps split: wal_op.split)

subsection \<open>What writes do to the crash maps\<close>

lemma crash_map_exists: "\<exists>m. crash_map fd ft s m"
  by (cases s) auto

lemma crash_map_put:
  assumes "fjall_durable F fv fi fd ft" and "backend_wf fi s"
    and "backend_put F s k v = (r, s')" and "crash_map fd ft s' m"
  shows "\<exists>m'. crash_map fd ft s m' \<and> (\<forall>k'. k' \<noteq> k \<longrightarrow> m' k' = m k')"
proof (cases s)
  case (Memory a)
  with assms show ?thesis by (auto simp: mem_put_def)
next
  case (Fjall f)
  obtain f' q where i: "fj_insert F f k v = (q, f')" and s': "s' = Fjall f'"
    using assms(3) Fjall by (auto simp: fjall_put_def split: prod.splits)
  have "fd f' = fd f \<and> ft f' = insert k (ft f)"
    using fjall_durableD(1) [OF assms(1) _ i] assms(2) Fjall by simp
  then have "crash_map fd ft s (m(k := fd f k))" using assms(4) Fjall s' by auto
  then show ?thesis by force
qed

lemma crash_map_delete:
  assumes "fjall_durable F fv fi fd ft" and "backend_wf fi s"
    and "backend_delete F s k = (r, s')" and "crash_map fd ft s' m"
  shows "\<exists>m'. crash_map fd ft s m' \<and> (\<forall>k'. k' \<noteq> k \<longrightarrow> m' k' = m k')"
proof (cases s)
  case (Memory a)
  with assms show ?thesis by (auto simp: mem_delete_def)
next
  case (Fjall f)
  obtain f' q where i: "fj_remove F f k = (q, f')" and s': "s' = Fjall f'"
    using assms(3) Fjall by (auto simp: fjall_delete_def split: prod.splits)
  have "fd f' = fd f \<and> ft f' = insert k (ft f)"
    using fjall_durableD(2) [OF assms(1) _ i] assms(2) Fjall by simp
  then have "crash_map fd ft s (m(k := fd f k))" using assms(4) Fjall s' by auto
  then show ?thesis by force
qed

lemma crash_map_flush_ok:
  assumes "fjall_durable F fv fi fd ft" and "backend_wf fi s" and "is_durable s"
    and "backend_flush F s = (Inr u, s')" and "crash_map fd ft s' m"
  shows "m = backend_view fv s"
proof -
  obtain f where s: "s = Fjall f" using assms(3) by (cases s) auto
  obtain f' where p: "fj_persist F f = (Inr (), f')" and s': "s' = Fjall f'"
    using assms(4) s by (auto simp: fjall_flush_def split: prod.splits)
  have "fd f' = fv f \<and> ft f' = {}"
    using fjall_durableD(3) [OF assms(1) _ p] assms(2) s by simp
  then show ?thesis using assms(5) s s' by auto
qed

lemma crash_map_flush_failed:
  assumes "fjall_durable F fv fi fd ft" and "backend_wf fi s"
    and "backend_flush F s = (Inl e, s')" and "crash_map fd ft s' m"
  shows "crash_map fd ft s m"
proof -
  obtain f where s: "s = Fjall f" using assms(3) by (cases s) (auto simp: mem_flush_def)
  obtain f' e' where p: "fj_persist F f = (Inl e', f')" and s': "s' = Fjall f'"
    using assms(3) s by (auto simp: fjall_flush_def from_fjall_def split: prod.splits sum.splits)
      (metis map_sum.simps(2) old.sum.exhaust sum.distinct(2))
  have "fd f' = fd f \<and> ft f' = ft f"
    using fjall_durableD(4) [OF assms(1) _ p] assms(2) s by simp
  then show ?thesis using assms(4) s s' by simp
qed

subsection \<open>Recoverability\<close>

lemma recoverable_logged:
  assumes "recoverable fd ft s rs m"
    and "\<And>m'. crash_map fd ft s' m' \<Longrightarrow>
      \<exists>m''. crash_map fd ft s m'' \<and> (\<forall>k'. k' \<noteq> rkey r \<longrightarrow> m'' k' = m' k')"
  shows "recoverable fd ft s' (rs @ [r]) (apply_record r m)"
  unfolding recoverable_def same_data_def
proof (intro allI impI)
  fix m' k assume c: "crash_map fd ft s' m'" and k: "\<not> bookkeeping k"
  obtain m'' where m'': "crash_map fd ft s m''" "\<forall>k'. k' \<noteq> rkey r \<longrightarrow> m'' k' = m' k'"
    using assms(2) [OF c] by blast
  then have same: "replay_map rs m'' k = m k"
    using assms(1) k by (simp add: recoverable_def same_data_def)
  show "replay_map (rs @ [r]) m' k = apply_record r m k"
  proof (cases "k = rkey r")
    case True
    then show ?thesis by (simp add: apply_record.simps split: wal_op.split)
  next
    case False
    then have "replay_map rs m' k = replay_map rs m'' k"
      using m''(2) by (intro replay_map_local) simp
    with same False show ?thesis by (simp add: apply_record_other)
  qed
qed

lemma recoverable_bookkeeping:
  assumes "recoverable fd ft s rs m" and "bookkeeping key"
    and "\<And>m'. crash_map fd ft s' m' \<Longrightarrow>
      \<exists>m''. crash_map fd ft s m'' \<and> (\<forall>k'. k' \<noteq> key \<longrightarrow> m'' k' = m' k')"
  shows "recoverable fd ft s' rs m"
  unfolding recoverable_def same_data_def
proof (intro allI impI)
  fix m' k assume c: "crash_map fd ft s' m'" and k: "\<not> bookkeeping k"
  obtain m'' where m'': "crash_map fd ft s m''" "\<forall>k'. k' \<noteq> key \<longrightarrow> m'' k' = m' k'"
    using assms(3) [OF c] by blast
  then have "replay_map rs m'' k = m k"
    using assms(1) k by (simp add: recoverable_def same_data_def)
  moreover have "replay_map rs m' k = replay_map rs m'' k"
    using m''(2) k assms(2) by (intro replay_map_local) auto
  ultimately show "replay_map rs m' k = m k" by simp
qed

lemma recoverable_same_data:
  "recoverable fd ft s rs m \<Longrightarrow> same_data m m' \<Longrightarrow> recoverable fd ft s rs m'"
  by (auto simp: recoverable_def intro: same_data_trans)

text \<open>Re-applying records that did land changes nothing.\<close>

lemma recoverable_replay_noop:
  assumes "recoverable fd ft s rs m"
  shows "same_data (replay_map rs m) m"
  unfolding same_data_def
proof (intro allI impI)
  fix k assume "\<not> bookkeeping k"
  moreover obtain m' where "crash_map fd ft s m'" using crash_map_exists by blast
  ultimately have "replay_map rs m' k = m k"
    using assms by (simp add: recoverable_def same_data_def)
  then show "replay_map rs m k = m k" using replay_map_fixed [of rs m k] by metis
qed

lemma recoverable_flushed:
  assumes "fjall_durable F fv fi fd ft" and "backend_wf fi s" and "is_durable s"
    and "backend_flush F s = (Inr u, s')" and "recoverable fd ft s rs m"
    and "same_data (backend_view fv s) m"
  shows "recoverable fd ft s' rs m" and "recoverable fd ft s' [] m"
proof -
  have cm: "m' = backend_view fv s" if "crash_map fd ft s' m'" for m'
    using crash_map_flush_ok [OF assms(1-4) that] .
  show "recoverable fd ft s' [] m"
    unfolding recoverable_def using cm assms(6) by auto
  have "replay_map rs (backend_view fv s) k = replay_map rs m k" if "\<not> bookkeeping k" for k
    using assms(6) that by (intro replay_map_local) (simp add: same_data_def)
  then have "same_data (replay_map rs (backend_view fv s)) m"
    using recoverable_replay_noop [OF assms(5)] by (simp add: same_data_def)
  then show "recoverable fd ft s' rs m"
    unfolding recoverable_def using cm by auto
qed

subsection \<open>Opening a node\<close>

lemma replay_loop_view:
  assumes "fjall_ok F fv fi" and "backend_wf fi s" and "replay_loop F s rs = (Inr u, s')"
  shows "backend_wf fi s' \<and> backend_view fv s' = replay_map rs (backend_view fv s)
    \<and> is_durable s' = is_durable s"
  using assms(2,3)
proof (induction rs arbitrary: s)
  case (Cons r rs)
  note st = backend_storage [OF assms(1)]
  obtain s1 where s1: "(case op r of wal_op.Put \<Rightarrow> backend_put F s (rkey r) (rvalue r)
      | wal_op.Delete \<Rightarrow> backend_delete F s (rkey r)) = (Inr (), s1)"
    and rest: "replay_loop F s1 rs = (Inr u, s')"
    using Cons.prems(2) by (auto split: prod.splits sum.splits)
  have "backend_wf fi s1 \<and> backend_view fv s1 = apply_record r (backend_view fv s)
      \<and> is_durable s1 = is_durable s"
    using s1 storage.put_view [OF st Cons.prems(1)] storage.delete_view [OF st Cons.prems(1)]
    by (cases s) (auto simp: apply_record.simps map_prod_eq_iff split: wal_op.splits)
  with Cons.IH [of s1] rest show ?case by simp
qed simp

lemma wal_open_Inr_io_ok:
  "wal_open crc io fl = (Inr x, fl') \<Longrightarrow> wal_open crc io_ok fl = (Inr x, fl')"
  by (auto simp: wal_open_def open_recover_def on_io_def io_ok_def Let_def
      split: option.splits if_splits sum.splits prod.splits)

lemma wal_open_fresh:
  "\<exists>w rec. wal_open crc io_ok [] = (Inr (w, rec), encode_header 0) \<and> records rec = []
     \<and> wal_holds crc w \<lparr>base = 0, entries = []\<rparr>"
  by (simp add: wal_open_def open_recover_def wal_holds_def holds_def bw_new_def log_next_def)

lemma open_backend_crash_map:
  assumes "fjall_durable F fv fi fd ft" and "backend cfg = FjallBackend \<longrightarrow> fi (d_fjall d)"
    and "open_backend F ow cfg d = Inr s"
  shows "backend_wf fi s \<and> is_durable s = (backend cfg = FjallBackend)
    \<and> crash_map fd ft (if backend cfg = FjallBackend then Fjall (d_fjall d) else Memory mem_new)
        (backend_view fv s)"
proof (cases "backend cfg")
  case MemoryBackend
  with assms show ?thesis
    by (auto simp: open_backend_def mem_new_def mem_wf_def mem_view_def dashmap_simps fun_eq_iff)
next
  case FjallBackend
  then obtain f where f: "fj_open F (d_fjall d) = Inr f" and s: "s = Fjall f"
    using assms(3) by (auto simp: open_backend_def fjall_open_def map_sum_eq_Inr_iff split: option.splits)
  from fjall_durableD(5) [OF assms(1) _ f] assms(2) FjallBackend show ?thesis
    by (simp add: s)
qed

text \<open>One pass over storage fills the index and the counters.\<close>

lemma bootstrap_entry_step:
  assumes "bootstrap_entry (k, raw) (c, totals, ix) = (c', totals', ix')" and "ttl_wf ix" and "dm_wf totals"
  shows "ttl_wf ix' \<and> dm_wf totals' \<and> scheduled ix' = scheduled ix \<union> expiries {(k, raw)}
    \<and> usage_total totals' t = usage_total totals t + word_of_nat (entry_weight t k raw)"
proof (cases "value_decode raw")
  case (Inl e)
  then show ?thesis
    using assms by (auto simp: bootstrap_entry_def expiries_def entry_weight_def charge_def
        split: sum.splits prod.splits subspace.splits)
next
  case (Inr v)
  have ix: "ix' = (case expires_at_ms v of Some e \<Rightarrow> schedule ix k e | None \<Rightarrow> ix)"
    and tot: "totals' = (case key_decode k of
        Inr (tenant, Data, p) \<Rightarrow> dm_insert tenant
          ((case dm_get totals tenant of Some u \<Rightarrow> u | None \<Rightarrow> 0)
           + entry_bytes (length p) (length (sv_value v))) totals
      | _ \<Rightarrow> totals)"
    using assms(1) Inr by (auto simp: bootstrap_entry_def usage_total_def split: option.splits)
  have "ttl_wf ix' \<and> scheduled ix' = scheduled ix \<union> expiries {(k, raw)}"
    using ix Inr assms(2) by (auto simp: expiries_def schedule_wf split: option.splits)
  moreover have "dm_wf totals'
      \<and> usage_total totals' t = usage_total totals t + word_of_nat (entry_weight t k raw)"
    using assms(3) Inr
    by (auto simp: tot entry_weight_def charge_def data_owner_def usage_total_def entry_bytes_def
        dashmap_simps split: sum.splits prod.splits subspace.splits)
  ultimately show ?thesis by simp
qed

lemma bootstrap_fold:
  assumes "fold bootstrap_entry es (c, totals, ix) = (c', totals', ix')" and "ttl_wf ix" and "dm_wf totals"
  shows "ttl_wf ix' \<and> dm_wf totals' \<and> scheduled ix' = scheduled ix \<union> expiries (set es)
    \<and> usage_total totals' t = usage_total totals t + word_of_nat (\<Sum>(k, raw)\<leftarrow>es. entry_weight t k raw)"
  using assms
proof (induction es arbitrary: c totals ix)
  case Nil
  then show ?case by (simp add: expiries_def)
next
  case (Cons e es)
  obtain k raw where e: "e = (k, raw)" by (cases e)
  obtain c1 totals1 ix1 where s: "bootstrap_entry (k, raw) (c, totals, ix) = (c1, totals1, ix1)"
    by (cases "bootstrap_entry (k, raw) (c, totals, ix)") auto
  note step = bootstrap_entry_step [OF s Cons.prems(2,3), of t]
  have "expiries (set (e # es)) = expiries {(k, raw)} \<union> expiries (set es)"
    by (auto simp: expiries_def e)
  with step Cons.IH [of c1 totals1 ix1] Cons.prems(1) s show ?case
    by (auto simp: e)
qed

lemma dm_get_fold_insert:
  "distinct (map fst xs) \<Longrightarrow>
     dm_get (fold (\<lambda>(k, v). dm_insert k v) xs m) = dm_get m ++ map_of xs"
proof (induction xs arbitrary: m)
  case (Cons x xs)
  obtain k v where x: "x = (k, v)" by (cases x)
  with Cons.prems have "k \<notin> dom (map_of xs)" by (simp add: dom_map_of_conv_image_fst)
  with Cons x show ?case
    by (auto simp: dashmap_simps fun_eq_iff map_add_def split: option.split)
qed simp

lemma reset_usage_total:
  assumes "dm_wf totals"
  shows "used_bytes (reset_usage st totals) t = usage_total totals t"
proof -
  have "dm_get (usage (reset_usage st totals)) = dm_get totals"
    using assms by (simp add: reset_usage_def dm_get_fold_insert dm_wf_def dashmap_simps)
      (simp add: dm_get_def fun_eq_iff)
  then show ?thesis by (simp add: used_bytes_def usage_total_def)
qed

lemma bootstrap_ok:
  assumes "fjall_ok F fv fi" and "backend_wf fi s"
    and "bootstrap_from_storage F s ttl_new qs = (Inr b, ix, qs')"
  shows "ttl_wf ix" and "indexed (backend_view fv s) ix" and "usage_exact (backend_view fv s) qs'"
    and "quotas qs' = quotas qs" and "default_quota qs' = default_quota qs"
proof -
  obtain es c totals where es: "backend_scan F s [] = Inr es"
    and f: "fold bootstrap_entry es (0, [], ttl_new) = (c, totals, ix)"
    and qs': "qs' = reset_usage qs totals"
    using assms(3) by (auto simp: bootstrap_from_storage_def split: sum.splits prod.splits)
  have li: "lists_entries (backend_view fv s) (prefix []) es"
    using storage.scan_lists [OF backend_storage [OF assms(1)] assms(2) es] .
  then have d: "distinct (map fst es)" and m: "set es = {(k, v). backend_view fv s k = Some v}"
    by (simp_all add: lists_entries_def ordered_entries_def)
  note b = bootstrap_fold [OF f ttl_wf_new(1) dm_wf_Nil]
  show "ttl_wf ix" using b by blast
  show "indexed (backend_view fv s) ix"
    using b m unfolding indexed_def by (auto simp: expiries_def)
  have "tenant_bytes (backend_view fv s) t = (\<Sum>(k, raw)\<leftarrow>es. entry_weight t k raw)" for t
    unfolding tenant_bytes_def entry_weight_def by (rule map_total_list [OF d m])
  then show "usage_exact (backend_view fv s) qs'"
    using b by (simp add: usage_exact_def qs' reset_usage_total usage_total_def dashmap_simps)
  show "quotas qs' = quotas qs" "default_quota qs' = default_quota qs"
    by (simp_all add: qs' reset_usage_def)
qed

lemma settle_ok:
  assumes "fjall_ok (fjall E) fv fi" and "fjall_durable (fjall E) fv fi fd ft"
    and "backend_wf fi s" and "wal_holds (crc32 E) w l"
    and "settle E ow s w = (Inr u, s', w')"
    and "\<not> is_durable s \<longrightarrow> recoverable fd ft s (entries l) (backend_view fv s)"
  shows "\<exists>l'. backend_wf fi s' \<and> backend_view fv s' = backend_view fv s \<and> wal_holds (crc32 E) w' l'
    \<and> recoverable fd ft s' (entries l') (backend_view fv s)"
proof (cases "is_durable s")
  case False
  with assms show ?thesis by (auto simp: settle_def)
next
  case True
  then obtain u where f: "backend_flush (fjall E) s = (Inr u, s')" and r: "rotate (o_rotate ow) w = (Inr u, w')"
    using assms(5) by (auto simp: settle_def split: prod.splits sum.splits)
  have "backend_wf fi s' \<and> backend_view fv s' = backend_view fv s"
    using storage.flush_view [OF backend_storage [OF assms(1)] assms(3) f] .
  moreover have "wal_holds (crc32 E) w' (log_rotate l)"
    using assms(4) r by (rule rotate_ok)
  moreover have "recoverable fd ft s' (entries (log_rotate l)) (backend_view fv s)"
    using crash_map_flush_ok [OF assms(2,3) True f] by (auto simp: recoverable_def)
  ultimately show ?thesis by blast
qed

text \<open>Opening a node gives back the map its disk holds, with everything a running node keeps.\<close>

lemma open_recovers:
  assumes "fjall_ok (fjall E) fv fi" and "fjall_durable (fjall E) fv fi fd ft"
    and "disk_holds E fi fd ft (backend cfg) d m" and "values_ok m"
    and "open_with_clock E ow cfg clk d = (Inr n, d')"
  shows "same_data (contents fv n) m \<and> (\<exists>l. node_ok E fv fi fd ft n l) \<and> config n = cfg \<and> nclock n = clk
    \<and> d' = disk_of d (store n) (segment (nwal n))"
proof -
  let ?b = "if backend cfg = FjallBackend then Fjall (d_fjall d) else Memory mem_new"
  obtain l fl torn where fi: "backend cfg = FjallBackend \<longrightarrow> fi (d_fjall d)"
    and wal: "d_wal d = [] \<and> l = \<lparr>base = 0, entries = []\<rparr>
           \<or> d_wal d = fl @ torn \<and> holds (crc32 E) fl l \<and> parse_frame (crc32 E) torn = None
             \<and> length (d_wal d) < 2 ^ 64"
    and rec: "recoverable fd ft ?b (entries l) m"
    using assms(3) unfolding disk_holds_def by blast
  obtain s0 w0 rc fl' s1 s w u q0 q1 ix b where
    o: "open_backend (fjall E) ow cfg d = Inr s0"
    and wo: "wal_open (crc32 E) (o_wal ow) (d_wal d) = (Inr (w0, rc), fl')"
    and rp: "replay_loop (fjall E) s0 (records rc) = (Inr (), s1)"
    and se: "settle E ow s1 w0 = (Inr u, s, w)"
    and lq: "load_quotas (fjall E) (json E) (quota_store_new \<lparr>max_bytes = default_max_bytes (quota cfg),
               max_ops_per_sec = default_max_ops_per_sec (quota cfg)\<rparr>) s = q0"
    and bs: "bootstrap_from_storage (fjall E) s ttl_new (snd q0) = (Inr b, ix, q1)"
    and n: "store n = s" "nwal n = w" "index n = ix" "nquotas n = q1" "config n = cfg" "nclock n = clk"
    and d': "d' = disk_of d s (segment w)"
    using assms(5)
    by (auto simp: open_with_clock_def replay_def Let_def map_sum_eq_Inr_iff
        split: option.splits sum.splits prod.splits)
  note ob = open_backend_crash_map [OF assms(2) fi o]
  have "records rc = entries l \<and> wal_holds (crc32 E) w0 l"
    using wal wal_open_Inr_io_ok [OF wo] wal_open_fresh [of "crc32 E"] wal_open_torn [of "crc32 E" fl l torn]
    by auto
  then have rr: "records rc = entries l" and wh: "wal_holds (crc32 E) w0 l" by simp_all
  have v1: "backend_wf fi s1" "backend_view fv s1 = replay_map (entries l) (backend_view fv s0)"
    "is_durable s1 = is_durable s0"
    using replay_loop_view [OF assms(1) _ rp] ob rr by auto
  have sd: "same_data (backend_view fv s1) m"
    using rec ob v1 by (simp add: recoverable_def)
  have mem: "recoverable fd ft s1 (entries l) (backend_view fv s1)" if nd: "\<not> is_durable s1"
  proof -
    obtain a b where "s0 = Memory a" "s1 = Memory b" using nd v1(3) by (cases s0; cases s1) auto
    moreover have "backend_view fv s0 = Map.empty" using ob nd v1(3) by (simp split: if_splits)
    ultimately show ?thesis using v1(2) by (simp add: recoverable_def)
  qed
  obtain l' where l': "backend_wf fi s" "backend_view fv s = backend_view fv s1"
    "wal_holds (crc32 E) w l'" "recoverable fd ft s (entries l') (backend_view fv s1)"
    using settle_ok [OF assms(1,2) v1(1) wh se] mem by blast
  have "values_ok (backend_view fv s)"
    using assms(4) sd l'(2) by (auto simp: values_ok_def same_data_def)
  with bootstrap_ok [OF assms(1) l'(1) bs] l' sd have "node_ok E fv fi fd ft n l'"
    by (simp add: node_ok_def contents_def n)
  with sd l'(2) n d' show ?thesis by (auto simp: contents_def)
qed

end
