(* ===== verification/Node_Writes.thy ===== *)
theory Node_Writes
  imports Node_Recovery
begin

text \<open>
  The write path of a node keeps what a running node relies on: each stage of \<open>put_with_ttl\<close> and
  \<open>delete\<close> has a lemma, and the properties compose them. Shown here: a write that reports success
  has exactly its effect, the counters stay exact, a quota refusal leaves no trace, and after a
  crash at any point a node recovers the map before or after the interrupted write.
\<close>

section \<open>Definitions\<close>

text \<open>The expiry stamp a put gives its value.\<close>

definition expiry_of :: "world \<Rightarrow> ('f, 'l, 'c) node \<Rightarrow> u64 \<Rightarrow> u64 option" where
  "expiry_of w n ttl_ms =
     (if ttl_ms > 0 then Some (saturating_add (now_ms (w_time w) (nclock n)) ttl_ms) else None)"

text \<open>
  A rotation does not fail while it writes the 14 bytes of the new header (see the properties of
  the log for what happens if it does).
\<close>

definition rotate_safe :: "io \<Rightarrow> bool" where
  "rotate_safe io \<longleftrightarrow> io 1 \<noteq> None \<or> io 2 = None"

text \<open>The backend a node would be opened with again.\<close>

definition backend_of :: "('f, 'l, 'c) node \<Rightarrow> backend" where
  "backend_of n = (if is_durable (store n) then FjallBackend else MemoryBackend)"

text \<open>A segment no open accepts.\<close>

definition refused :: "(bytes \<Rightarrow> u32) \<Rightarrow> bytes \<Rightarrow> bool" where
  "refused crc fl \<longleftrightarrow> (\<forall>io. \<exists>e. wal_open crc io fl = (Inl e, fl))"

text \<open>What a client sees of a map at an instant: the values that have not expired.\<close>

definition live_at :: "(bytes \<rightharpoonup> bytes) \<Rightarrow> u64 \<Rightarrow> (bytes \<rightharpoonup> bytes)" where
  "live_at m now k =
     (case m k of
        None \<Rightarrow> None
      | Some raw \<Rightarrow>
          (case value_decode raw of
             Inl _ \<Rightarrow> None
           | Inr v \<Rightarrow> if \<exists>e. expires_at_ms v = Some e \<and> e \<le> now then None else Some (sv_value v)))"

text \<open>The totals of every tenant fit a signed 64-bit integer.\<close>

definition totals_fit :: "(bytes \<rightharpoonup> bytes) \<Rightarrow> bool" where
  "totals_fit m \<longleftrightarrow> (\<forall>t. tenant_bytes m t < 2 ^ 63)"

text \<open>The plan for changing the entry at a key to \<open>x\<close>.\<close>

definition plan_for :: "(bytes \<rightharpoonup> bytes) \<Rightarrow> bytes \<Rightarrow> bytes option \<Rightarrow> accounting option" where
  "plan_for m k x =
     (case data_owner k of
        None \<Rightarrow> None
      | Some t \<Rightarrow>
          Some \<lparr>acc_tenant = t,
                delta = word_of_nat (charge_at (m(k := x)) k) - word_of_nat (charge_at m k)\<rparr>)"

subsection \<open>An example\<close>

text \<open>
  A node just opened on an empty durable backend, at sequence 3 of its log, one second after the
  epoch, over the reference third-party code.
\<close>

definition env_example :: "(ref_fjall, u32 \<times> instant \<times> nat, channel) env" where
  "env_example = \<lparr>fjall = fjall_reference, crc32 = (\<lambda>_. 7), broadcast = broadcast_reference,
     governor = governor_reference, json = quota_json_reference\<rparr>"

definition config_example :: node_config where
  "config_example = \<lparr>node_id = [0x6E], listen = ''127.0.0.1:7000'',
     data_dir = \<lparr>absolute = True, comps = [''data'']\<rparr>, coord_endpoints = [], backend = FjallBackend,
     limits = \<lparr>max_key_size = 16, max_value_size = 16, max_batch_ops = 4, max_scan_limit = 8\<rparr>,
     auth = \<lparr>insecure = True, public_key_path = None\<rparr>, tls = None,
     admin_listen = None, ttl_sweep_interval_secs = 60, shutdown_timeout_secs = 10,
     quota = quota_config_default, watch_buffer = 2, watch_heartbeat_secs = 30,
     wal_rotate_bytes = 4096\<rparr>"

definition node_example :: "(ref_fjall, u32 \<times> instant \<times> nat, channel) node" where
  "node_example = \<lparr>config = config_example, store = Fjall ref_empty, nwal = wal_example,
     nclock = Manual 1000, index = ttl_new, hub = hub_new 2, nquotas = quota_store_new UNLIMITED,
     nthrottle = throttle_new 0\<rparr>"

definition world_example :: world where
  "world_example = \<lparr>w_time = 0, w_instant = 0, w_append = io_ok, w_rotate = io_ok\<rparr>"

section \<open>Lemmas\<close>

subsection \<open>Stages that touch one part of the state\<close>

lemma publish_change_frame [simp]:
  "store (publish_change E n k kd v) = store n" "nwal (publish_change E n k kd v) = nwal n"
  "index (publish_change E n k kd v) = index n" "nquotas (publish_change E n k kd v) = nquotas n"
  "config (publish_change E n k kd v) = config n" "nclock (publish_change E n k kd v) = nclock n"
  "nthrottle (publish_change E n k kd v) = nthrottle n"
  by (simp_all add: publish_change_def split: sum.split prod.split)

lemma rotate_wal_frame [simp]:
  "index (rotate_wal_if_needed E w n) = index n" "nquotas (rotate_wal_if_needed E w n) = nquotas n"
  "config (rotate_wal_if_needed E w n) = config n" "nclock (rotate_wal_if_needed E w n) = nclock n"
  "hub (rotate_wal_if_needed E w n) = hub n" "nthrottle (rotate_wal_if_needed E w n) = nthrottle n"
  by (simp_all add: rotate_wal_if_needed_def split: prod.split sum.split)

lemma commit_accounting_frame [simp]:
  "index (commit_accounting E n acc) = index n" "nwal (commit_accounting E n acc) = nwal n"
  "config (commit_accounting E n acc) = config n" "nclock (commit_accounting E n acc) = nclock n"
  "hub (commit_accounting E n acc) = hub n" "nthrottle (commit_accounting E n acc) = nthrottle n"
  by (simp_all add: commit_accounting_def split: option.split prod.split)

lemma node_ok_publish [simp]: "node_ok E fv fi fd ft (publish_change E n k kd v) l = node_ok E fv fi fd ft n l"
  by (simp add: node_ok_def contents_def)

lemma contents_publish [simp]: "contents fv (publish_change E n k kd v) = contents fv n"
  by (simp add: contents_def)

lemma rotate_any:
  assumes "wal_holds crc w l" and "rotate_safe io" and "rotate io w = (r, w')"
  shows "wal_holds crc w' l \<or> wal_holds crc w' (log_rotate l)"
  using assms
  by (auto simp: rotate_safe_def wal_holds_def rotate_def flush_buf_def holds_def on_io_def bw_new_def Let_def
      split: option.splits)

lemma finite_contents: "fjall_ok (fjall E) fv fi \<Longrightarrow> backend_wf fi (store n) \<Longrightarrow> finite (dom (contents fv n))"
  unfolding contents_def using storage.finite_view [OF backend_storage] .

lemma rotate_wal_ok:
  assumes "fjall_ok (fjall E) fv fi" and "fjall_durable (fjall E) fv fi fd ft"
    and "node_ok E fv fi fd ft n l" and "rotate_safe (w_rotate w)"
  shows "contents fv (rotate_wal_if_needed E w n) = contents fv n
    \<and> (\<exists>l'. node_ok E fv fi fd ft (rotate_wal_if_needed E w n) l')"
proof (cases "is_durable (store n) \<and> \<not> segment_bytes (winner (nwal n)) < wal_rotate_bytes (config n)")
  case False
  then have "rotate_wal_if_needed E w n = n" by (auto simp: rotate_wal_if_needed_def)
  with assms(3) show ?thesis by auto
next
  case True
  obtain q s where f: "backend_flush (fjall E) (store n) = (q, s)" by fastforce
  have wf: "backend_wf fi (store n)" and wh: "wal_holds (crc32 E) (nwal n) l"
    and rec: "recoverable fd ft (store n) (entries l) (contents fv n)"
    using assms(3) by (simp_all add: node_ok_def)
  have v: "backend_wf fi s \<and> backend_view fv s = contents fv n"
    using storage.flush_view [OF backend_storage [OF assms(1)] wf f] by (simp add: contents_def)
  show ?thesis
  proof (cases q)
    case (Inl e)
    have "rotate_wal_if_needed E w n = n\<lparr>store := s\<rparr>"
      using True f Inl by (simp add: rotate_wal_if_needed_def)
    moreover have "recoverable fd ft s (entries l) (contents fv n)"
      using rec crash_map_flush_failed [OF assms(2) wf f [unfolded Inl]] by (simp add: recoverable_def)
    ultimately show ?thesis
      using v assms(3) by (auto simp: node_ok_def contents_def)
  next
    case (Inr u)
    obtain r wl where r: "rotate (w_rotate w) (nwal n) = (r, wl)" by fastforce
    have n': "rotate_wal_if_needed E w n = n\<lparr>store := s, nwal := wl\<rparr>"
      using True f Inr r by (simp add: rotate_wal_if_needed_def)
    have "recoverable fd ft s (entries l) (contents fv n)" "recoverable fd ft s [] (contents fv n)"
      using recoverable_flushed [OF assms(2) wf _ f [unfolded Inr] rec] True by (simp_all add: contents_def)
    with rotate_any [OF wh assms(4) r] v assms(3) show ?thesis
      by (auto simp: n' node_ok_def contents_def intro: exI [of _ l] exI [of _ "log_rotate l"])
  qed
qed

text \<open>Recording usage writes one bookkeeping key, without an expiry, or nothing.\<close>

lemma commit_accounting_contents:
  assumes "fjall_ok (fjall E) fv fi" and "fjall_durable (fjall E) fv fi fd ft" and "backend_wf fi (store n)"
    and "\<And>plan. acc = Some plan \<Longrightarrow> utf8_valid (acc_tenant plan)"
  obtains k b where "bookkeeping k" and "backend_wf fi (store (commit_accounting E n acc))"
    and "contents fv (commit_accounting E n acc) = contents fv n
      \<or> contents fv (commit_accounting E n acc) = (contents fv n)(k \<mapsto> value_encode b None)"
    and "\<And>m. crash_map fd ft (store (commit_accounting E n acc)) m \<Longrightarrow>
      \<exists>m'. crash_map fd ft (store n) m' \<and> (\<forall>k'. k' \<noteq> k \<longrightarrow> m' k' = m k')"
proof -
  let ?n = "commit_accounting E n acc"
  consider "store ?n = store n" | k b q t where "utf8_valid t" "key_encode t Stats USAGE_KEY = Inr k"
    "backend_put (fjall E) (store n) k (value_encode b None) = (q, store ?n)"
  proof (cases acc)
    case None
    then show ?thesis using that(1) by (simp add: commit_accounting_def)
  next
    case (Some plan)
    obtain r q s where a: "quota_apply (fjall E) (nquotas n) (store n) (acc_tenant plan) (delta plan) = (r, q, s)"
      by (metis prod_cases3)
    then have "store ?n = s" using Some by (simp add: commit_accounting_def)
    with quota_apply_backend [OF a] that assms(4) [OF Some] show ?thesis by metis
  qed
  then show ?thesis
  proof cases
    case 1
    moreover have "bookkeeping (raw_key [0x61] Stats [])"
      by (simp add: tenant_ok_def MAX_TENANT_LEN_def)
    ultimately show ?thesis
      using that [of "raw_key [0x61] Stats []"] assms(3) by (auto simp: contents_def)
  next
    case (2 k b q t)
    then have "bookkeeping k" by (auto simp: key_encode_Inr_iff tenant_ok_def)
    moreover have "backend_wf fi (store ?n) \<and> (backend_view fv (store ?n) = (backend_view fv (store n))(k \<mapsto> value_encode b None)
        \<or> backend_view fv (store ?n) = backend_view fv (store n))"
      using storage.put_any [OF backend_storage [OF assms(1)] assms(3) 2(3)] by blast
    ultimately show ?thesis
      using that [of k b] crash_map_put [OF assms(2,3) 2(3)] by (auto simp: contents_def)
  qed
qed

subsection \<open>Accounting\<close>

lemma data_owner_cases:
  obtains "data_owner k = None" and "\<And>t p. key_decode k \<noteq> Inr (t, Data, p)"
  | t p where "data_owner k = Some t" and "key_decode k = Inr (t, Data, p)" and "tenant_ok t"
  by (cases "data_owner k") (auto simp: data_owner_Some_iff key_decode_Inr_iff,
      metis data_owner_Some_iff key_decode_Inr_iff not_Some_eq)

lemma plan_accounting_Inr:
  assumes "fjall_ok (fjall E) fv fi" and "backend_wf fi (store n)"
    and "plan_accounting E n k (length v) = Inr acc"
  shows "acc = plan_for (contents fv n) k (Some (value_encode v e))"
proof (cases rule: data_owner_cases [of k])
  case 1
  then show ?thesis
    using assms(3) by (auto simp: plan_accounting_def plan_for_def split: sum.splits prod.splits if_splits)
next
  case (2 t p)
  have g: "got = contents fv n k" if "backend_get (fjall E) (store n) k = Inr got" for got
    using storage.get_view [OF backend_storage [OF assms(1)] assms(2) that] by (simp add: contents_def)
  show ?thesis
    using assms(3) 2
    by (auto simp: plan_accounting_def plan_for_def charge_at_def charge_def payload_len_decode
        entry_bytes_def Let_def map_sum_eq_Inr_iff split: sum.splits option.splits dest!: g)
qed

lemma plan_delete_accounting_Inr:
  assumes "fjall_ok (fjall E) fv fi" and "backend_wf fi (store n)"
    and "plan_delete_accounting E n k = Inr acc"
  shows "acc = plan_for (contents fv n) k None \<or> acc = None \<and> contents fv n k = None"
proof (cases rule: data_owner_cases [of k])
  case 1
  then show ?thesis
    using assms(3) by (auto simp: plan_delete_accounting_def plan_for_def split: sum.splits prod.splits if_splits)
next
  case (2 t p)
  have g: "got = contents fv n k" if "backend_get (fjall E) (store n) k = Inr got" for got
    using storage.get_view [OF backend_storage [OF assms(1)] assms(2) that] by (simp add: contents_def)
  show ?thesis
    using assms(3) 2
    by (auto simp: plan_delete_accounting_def plan_for_def charge_at_def charge_def payload_len_decode
        entry_bytes_def Let_def map_sum_eq_Inr_iff split: sum.splits option.splits dest!: g)
qed

lemma commit_accounting_quotas:
  "nquotas (commit_accounting E n acc) =
     (case acc of
        None \<Rightarrow> nquotas n
      | Some plan \<Rightarrow>
          if delta plan = 0 then nquotas n else snd (adjust (nquotas n) (acc_tenant plan) (delta plan)))"
  by (auto simp: commit_accounting_def split: option.split prod.split dest: quota_apply_store)

lemma commit_accounting_usage:
  assumes "usage_exact m (nquotas n)" and "finite (dom m)" and "totals_fit m" and "totals_fit (m(k := x))"
    and "acc = plan_for m k x \<or> acc = None \<and> m(k := x) = m"
  shows "usage_exact (m(k := x)) (nquotas (commit_accounting E n acc))"
  using assms(5)
proof
  assume "acc = None \<and> m(k := x) = m"
  then show ?thesis using assms(1) by (simp add: commit_accounting_quotas)
next
  assume acc: "acc = plan_for m k x"
  show ?thesis
  proof (cases "data_owner k")
    case None
    then have "tenant_bytes (m(k := x)) t = tenant_bytes m t" for t
      using tenant_bytes_fun_upd [OF assms(2), of k x t] by simp
    with None acc assms(1) show ?thesis
      by (simp add: commit_accounting_quotas plan_for_def usage_exact_def)
  next
    case (Some t)
    let ?d = "word_of_nat (charge_at (m(k := x)) k) - word_of_nat (charge_at m k) :: i64"
    have exact: "apply_delta [] (word_of_nat (tenant_bytes m t)) ?d = word_of_nat (tenant_bytes (m(k := x)) t)"
      using apply_delta_tenant_bytes [OF assms(2) Some] assms(3,4) by (simp add: totals_fit_def)
    have other: "tenant_bytes (m(k := x)) t' = tenant_bytes m t'" if "t' \<noteq> t" for t'
      using tenant_bytes_fun_upd [OF assms(2), of k x t'] Some that by simp
    have zero: "word_of_nat (tenant_bytes (m(k := x)) t) = (word_of_nat (tenant_bytes m t) :: u64)" if "?d = 0"
      using exact that by (simp add: apply_delta_def)
    have "nquotas (commit_accounting E n acc)
        = (if ?d = 0 then nquotas n else snd (adjust (nquotas n) t ?d))"
      using acc Some by (simp add: commit_accounting_quotas plan_for_def)
    then have "used_bytes (nquotas (commit_accounting E n acc)) t' = word_of_nat (tenant_bytes (m(k := x)) t')"
      for t'
      using assms(1) exact other [of t'] zero
      by (cases "t' = t") (auto simp: usage_exact_def used_bytes_adjust)
    then show ?thesis by (simp add: usage_exact_def)
  qed
qed

subsection \<open>A logged write\<close>

lemma indexed_no_expiry: "indexed m ix \<Longrightarrow> indexed (m(k \<mapsto> value_encode b None)) ix"
  by (auto simp: indexed_def split: if_splits)

lemma indexed_put:
  "indexed m ix \<Longrightarrow> indexed (m(k \<mapsto> value_encode v e))
     (case e of Some x \<Rightarrow> schedule ix k x | None \<Rightarrow> ix)"
  by (cases e) (auto simp: indexed_def split: if_splits)

lemma indexed_remove: "indexed m ix \<Longrightarrow> indexed (m(k := None)) ix"
  by (auto simp: indexed_def split: if_splits)

text \<open>
  The node after the log and storage took a write and before its usage is recorded: \<open>x\<close> is the new
  entry at \<open>k\<close>, \<open>r\<close> the record in the log.
\<close>

lemma logged_write_ok:
  assumes ctx: "fjall_ok (fjall E) fv fi" "fjall_durable (fjall E) fv fi fd ft"
    and ok: "node_ok E fv fi fd ft n l" and k: "\<not> bookkeeping k" and m: "contents fv n = m"
    and fit: "totals_fit m" "totals_fit (m(k := x))"
    and acc: "acc = plan_for m k x \<or> acc = None \<and> m(k := x) = m"
    and wal: "wal_holds (crc32 E) (nwal n1) (log_append oper k raw l)"
    and oper: "x = (case oper of wal_op.Put \<Rightarrow> Some raw | wal_op.Delete \<Rightarrow> None)"
    and st: "backend_wf fi (store n1)" "contents fv n1 = m(k := x)"
      "\<And>m'. crash_map fd ft (store n1) m' \<Longrightarrow>
         \<exists>m''. crash_map fd ft (store n) m'' \<and> (\<forall>k'. k' \<noteq> k \<longrightarrow> m'' k' = m' k')"
    and ix: "ttl_wf (index n1)" "indexed (m(k := x)) (index n1)"
    and val: "\<And>b. x = Some b \<Longrightarrow> \<exists>v. value_decode b = Inr v"
    and q: "nquotas n1 = nquotas n"
  shows "node_ok E fv fi fd ft (commit_accounting E n1 acc) (log_append oper k raw l)
    \<and> same_data (contents fv (commit_accounting E n1 acc)) (m(k := x))"
proof -
  let ?n = "commit_accounting E n1 acc" and ?l = "log_append oper k raw l"
  have fin: "finite (dom m)" using finite_contents [OF ctx(1), of n] ok m by (simp add: node_ok_def)
  have plan: "utf8_valid (acc_tenant plan)" if "acc = Some plan" for plan
    using acc that by (auto simp: plan_for_def data_owner_Some_iff key_decode_Inr_iff tenant_ok_def
        split: option.splits)
  obtain bk b where bk: "bookkeeping bk" and wf: "backend_wf fi (store ?n)"
    and c: "contents fv ?n = contents fv n1 \<or> contents fv ?n = (contents fv n1)(bk \<mapsto> value_encode b None)"
    and cm: "\<And>m. crash_map fd ft (store ?n) m \<Longrightarrow>
      \<exists>m'. crash_map fd ft (store n1) m' \<and> (\<forall>k'. k' \<noteq> bk \<longrightarrow> m' k' = m k')"
    using commit_accounting_contents [OF ctx st(1) plan] by metis
  have sd: "same_data (contents fv ?n) (m(k := x))"
    using c st(2) same_data_bookkeeping [OF bk] by auto
  have "apply_record \<lparr>seq = log_next l, op = oper, rkey = k, rvalue = raw\<rparr> m = m(k := x)"
    using oper by (cases oper) (simp_all add: apply_record.simps)
  then have "recoverable fd ft (store n1) (entries ?l) (m(k := x))"
    using recoverable_logged [of fd ft "store n" "entries l" m "store n1"
        "\<lparr>seq = log_next l, op = oper, rkey = k, rvalue = raw\<rparr>"] st(3) ok m
    by (simp add: node_ok_def)
  from recoverable_bookkeeping [OF this bk cm]
  have rec: "recoverable fd ft (store ?n) (entries ?l) (contents fv ?n)"
    using sd by (blast intro: recoverable_same_data same_data_sym)
  have "values_ok (m(k := x))"
    using ok m val by (auto simp: node_ok_def values_ok_def)
  with sd have vals: "values_ok (contents fv ?n)" by (auto simp: values_ok_def same_data_def)
  have "usage_exact (m(k := x)) (nquotas ?n)"
    using commit_accounting_usage [OF _ fin fit acc, of n1 E] ok m q by (simp add: node_ok_def)
  moreover have "tenant_bytes (contents fv ?n) t = tenant_bytes (m(k := x)) t" for t
    using c st(2) tenant_bytes_bookkeeping [of "m(k := x)" bk _ t] bookkeeping_data_owner [OF bk] fin
    by auto
  ultimately have us: "usage_exact (contents fv ?n) (nquotas ?n)" by (simp add: usage_exact_def)
  have "indexed (contents fv ?n) (index ?n)"
    using c st(2) ix(2) indexed_no_expiry by auto
  with wf wal rec vals us ix(1) sd show ?thesis by (simp add: node_ok_def)
qed

lemma put_with_ttl_Inr:
  assumes "put_with_ttl E w n k v ttl = (Inr u, n')"
  obtains acc sq wl s where "plan_accounting E n k (length v) = Inr acc"
    and "\<And>plan. acc = Some plan \<Longrightarrow> check_write (nquotas n) (acc_tenant plan) (delta plan) = Inr ()"
    and "append (crc32 E) (w_append w) (nwal n) wal_op.Put k (value_encode v (expiry_of w n ttl)) = (Inr sq, wl)"
    and "backend_put (fjall E) (store n) k (value_encode v (expiry_of w n ttl)) = (Inr (), s)"
    and "n' = rotate_wal_if_needed E w (publish_change E (commit_accounting E
      (n\<lparr>nwal := wl, store := s, index := (case expiry_of w n ttl of
           Some e \<Rightarrow> schedule (index n) k e | None \<Rightarrow> index n)\<rparr>) acc) k change_kind.Put v)"
  using assms
  by (auto simp: put_with_ttl_def expiry_of_def [symmetric] Let_def
      split: sum.splits prod.splits option.splits)

lemma put_with_ttl_Inl:
  assumes "put_with_ttl E w n k v ttl = (Inl e, n')"
  obtains "n' = n"
  | wl where "append (crc32 E) (w_append w) (nwal n) wal_op.Put k (value_encode v (expiry_of w n ttl)) = (Inl e, wl)"
    and "n' = n\<lparr>nwal := wl\<rparr>"
  | sq wl s where "append (crc32 E) (w_append w) (nwal n) wal_op.Put k (value_encode v (expiry_of w n ttl)) = (Inr sq, wl)"
    and "backend_put (fjall E) (store n) k (value_encode v (expiry_of w n ttl)) = (Inl e, s)"
    and "n' = n\<lparr>nwal := wl, store := s\<rparr>"
proof -
  let ?raw = "value_encode v (expiry_of w n ttl)"
  note d = assms [unfolded put_with_ttl_def expiry_of_def [symmetric] Let_def]
  obtain ra wl where a: "append (crc32 E) (w_append w) (nwal n) wal_op.Put k ?raw = (ra, wl)" by fastforce
  obtain rp s where p: "backend_put (fjall E) (store n) k ?raw = (rp, s)" by fastforce
  show ?thesis
  proof (cases "plan_accounting E n k (length v)")
    case (Inl x)
    with d that(1) show ?thesis by simp
  next
    case (Inr acc)
    show ?thesis
    proof (cases "case acc of Some plan \<Rightarrow> check_write (nquotas n) (acc_tenant plan) (delta plan) | None \<Rightarrow> Inr ()")
      case (Inl x)
      with d Inr that(1) show ?thesis by simp
    next
      case ok: (Inr u)
      show ?thesis
      proof (cases ra)
        case (Inl x)
        with d Inr ok a have "x = e" "n' = n\<lparr>nwal := wl\<rparr>" by simp_all
        with a Inl show ?thesis by (intro that(2)) simp_all
      next
        case ra: (Inr sq)
        with d Inr ok a p have "rp = Inl e" "n' = n\<lparr>nwal := wl, store := s\<rparr>" by (cases rp; simp)+
        with a p ra show ?thesis by (intro that(3)) simp_all
      qed
    qed
  qed
qed

lemma node_delete_Inl:
  assumes "node_delete E w n k = (Inl e, n')"
  obtains "n' = n"
  | wl where "append (crc32 E) (w_append w) (nwal n) wal_op.Delete k [] = (Inl e, wl)" and "n' = n\<lparr>nwal := wl\<rparr>"
  | sq wl s where "append (crc32 E) (w_append w) (nwal n) wal_op.Delete k [] = (Inr sq, wl)"
    and "backend_delete (fjall E) (store n) k = (Inl e, s)" and "n' = n\<lparr>nwal := wl, store := s\<rparr>"
proof -
  obtain ra wl where a: "append (crc32 E) (w_append w) (nwal n) wal_op.Delete k [] = (ra, wl)" by fastforce
  obtain rp s where p: "backend_delete (fjall E) (store n) k = (rp, s)" by fastforce
  note d = assms [unfolded node_delete_def Let_def]
  show ?thesis
  proof (cases "plan_delete_accounting E n k")
    case (Inl x)
    with d that(1) show ?thesis by simp
  next
    case (Inr acc)
    show ?thesis
    proof (cases ra)
      case (Inl x)
      with d Inr a have "x = e" "n' = n\<lparr>nwal := wl\<rparr>" by simp_all
      with a Inl show ?thesis by (intro that(2)) simp_all
    next
      case ra: (Inr sq)
      with d Inr a p have "rp = Inl e" "n' = n\<lparr>nwal := wl, store := s\<rparr>" by (cases rp; simp)+
      with a p ra show ?thesis by (intro that(3)) simp_all
    qed
  qed
qed

lemma node_delete_Inr:
  assumes "node_delete E w n k = (Inr u, n')"
  obtains acc sq wl s where "plan_delete_accounting E n k = Inr acc"
    and "append (crc32 E) (w_append w) (nwal n) wal_op.Delete k [] = (Inr sq, wl)"
    and "backend_delete (fjall E) (store n) k = (Inr (), s)"
    and "n' = rotate_wal_if_needed E w (publish_change E (commit_accounting E
      (n\<lparr>nwal := wl, store := s\<rparr>) acc) k change_kind.Delete [])"
  using assms
  by (auto simp: node_delete_def Let_def split: sum.splits prod.splits)

lemma backend_put_durable [simp]: "backend_put F s k v = (r, s') \<Longrightarrow> is_durable s' = is_durable s"
  by (cases s) (auto simp: map_prod_eq_iff)

lemma backend_delete_durable [simp]: "backend_delete F s k = (r, s') \<Longrightarrow> is_durable s' = is_durable s"
  by (cases s) (auto simp: map_prod_eq_iff)

lemma backend_flush_durable [simp]: "backend_flush F s = (r, s') \<Longrightarrow> is_durable s' = is_durable s"
  by (cases s) (auto simp: map_prod_eq_iff)

lemma commit_accounting_durable [simp]: "is_durable (store (commit_accounting E n acc)) = is_durable (store n)"
  by (auto simp: commit_accounting_def split: option.split prod.split dest!: quota_apply_backend)

lemma put_committed:
  assumes ctx: "fjall_ok (fjall E) fv fi" "fjall_durable (fjall E) fv fi fd ft"
    and ok: "node_ok E fv fi fd ft n l" and k: "\<not> bookkeeping k"
    and len: "length k < 2 ^ 32" "length v + 9 < 2 ^ 32"
    and put: "put_with_ttl E w n k v ttl = (Inr u, n')"
    and fit: "totals_fit (contents fv n)"
      "totals_fit ((contents fv n)(k \<mapsto> value_encode v (expiry_of w n ttl)))"
  shows "\<exists>n2 sq wl l2. n' = rotate_wal_if_needed E w n2 \<and> node_ok E fv fi fd ft n2 l2
    \<and> same_data (contents fv n2) ((contents fv n)(k \<mapsto> value_encode v (expiry_of w n ttl)))
    \<and> append (crc32 E) (w_append w) (nwal n) wal_op.Put k (value_encode v (expiry_of w n ttl)) = (Inr sq, wl)
    \<and> nwal n2 = wl \<and> backend_of n2 = backend_of n"
proof -
  let ?raw = "value_encode v (expiry_of w n ttl)"
  let ?ix = "case expiry_of w n ttl of Some e \<Rightarrow> schedule (index n) k e | None \<Rightarrow> index n"
  from put obtain acc sq wl s where plan: "plan_accounting E n k (length v) = Inr acc"
    and a: "append (crc32 E) (w_append w) (nwal n) wal_op.Put k ?raw = (Inr sq, wl)"
    and p: "backend_put (fjall E) (store n) k ?raw = (Inr (), s)"
    and n': "n' = rotate_wal_if_needed E w (publish_change E (commit_accounting E
      (n\<lparr>nwal := wl, store := s, index := ?ix\<rparr>) acc) k change_kind.Put v)"
    by (rule put_with_ttl_Inr)
  let ?n1 = "n\<lparr>nwal := wl, store := s, index := ?ix\<rparr>"
  have wf: "backend_wf fi (store n)" and wh: "wal_holds (crc32 E) (nwal n) l"
    and iw: "ttl_wf (index n)" "indexed (contents fv n) (index n)"
    using ok by (simp_all add: node_ok_def)
  have "length ?raw < 2 ^ 32" using len(2) by (simp add: length_value_encode split: option.split)
  then have wal: "wal_holds (crc32 E) wl (log_append wal_op.Put k ?raw l)"
    using append_ok [OF wh len(1) _ a] by simp
  have sv: "backend_wf fi s \<and> backend_view fv s = (contents fv n)(k \<mapsto> ?raw)"
    using storage.put_view [OF backend_storage [OF ctx(1)] wf p] by (simp add: contents_def)
  have acc: "acc = plan_for (contents fv n) k (Some ?raw)"
    using plan_accounting_Inr [OF ctx(1) wf plan] .
  have "ttl_wf ?ix" using iw(1) by (simp add: schedule_wf split: option.split)
  then have "node_ok E fv fi fd ft (commit_accounting E ?n1 acc) (log_append wal_op.Put k ?raw l)
    \<and> same_data (contents fv (commit_accounting E ?n1 acc)) ((contents fv n)(k \<mapsto> ?raw))"
  proof (intro logged_write_ok [OF ctx ok k refl fit])
    show "\<exists>m''. crash_map fd ft (store n) m'' \<and> (\<forall>k'. k' \<noteq> k \<longrightarrow> m'' k' = m' k')"
      if "crash_map fd ft (store ?n1) m'" for m'
      using crash_map_put [OF ctx(2) wf p] that by simp
    show "indexed ((contents fv n)(k \<mapsto> ?raw)) (index ?n1)" using indexed_put [OF iw(2)] by simp
  qed (use wal sv acc in \<open>auto simp: contents_def [of fv ?n1]\<close>)
  moreover have "is_durable s = is_durable (store n)" using p by simp
  ultimately show ?thesis
    using n' a by (intro exI [of _ "publish_change E (commit_accounting E ?n1 acc) k change_kind.Put v"]
        exI [of _ sq] exI [of _ wl] exI [of _ "log_append wal_op.Put k ?raw l"]) (simp add: backend_of_def)
qed

lemma put_ok:
  assumes ctx: "fjall_ok (fjall E) fv fi" "fjall_durable (fjall E) fv fi fd ft"
    and "node_ok E fv fi fd ft n l" and "\<not> bookkeeping k"
    and "length k < 2 ^ 32" "length v + 9 < 2 ^ 32"
    and "put_with_ttl E w n k v ttl = (Inr u, n')" and safe: "rotate_safe (w_rotate w)"
    and "totals_fit (contents fv n)"
      "totals_fit ((contents fv n)(k \<mapsto> value_encode v (expiry_of w n ttl)))"
  shows "(\<exists>l'. node_ok E fv fi fd ft n' l')
    \<and> same_data (contents fv n') ((contents fv n)(k \<mapsto> value_encode v (expiry_of w n ttl)))"
  using put_committed [OF assms(1-7,9,10)] rotate_wal_ok [OF ctx _ safe] by metis

lemma delete_committed:
  assumes ctx: "fjall_ok (fjall E) fv fi" "fjall_durable (fjall E) fv fi fd ft"
    and ok: "node_ok E fv fi fd ft n l" and k: "\<not> bookkeeping k" and len: "length k < 2 ^ 32"
    and del: "node_delete E w n k = (Inr u, n')"
    and fit: "totals_fit (contents fv n)"
  shows "\<exists>n2 sq wl l2. n' = rotate_wal_if_needed E w n2 \<and> node_ok E fv fi fd ft n2 l2
    \<and> same_data (contents fv n2) ((contents fv n)(k := None))
    \<and> append (crc32 E) (w_append w) (nwal n) wal_op.Delete k [] = (Inr sq, wl)
    \<and> nwal n2 = wl \<and> backend_of n2 = backend_of n"
proof -
  from del obtain acc sq wl s where plan: "plan_delete_accounting E n k = Inr acc"
    and a: "append (crc32 E) (w_append w) (nwal n) wal_op.Delete k [] = (Inr sq, wl)"
    and p: "backend_delete (fjall E) (store n) k = (Inr (), s)"
    and n': "n' = rotate_wal_if_needed E w (publish_change E (commit_accounting E
      (n\<lparr>nwal := wl, store := s\<rparr>) acc) k change_kind.Delete [])"
    by (rule node_delete_Inr)
  let ?n1 = "n\<lparr>nwal := wl, store := s\<rparr>"
  have wf: "backend_wf fi (store n)" and wh: "wal_holds (crc32 E) (nwal n) l"
    and iw: "ttl_wf (index n)" "indexed (contents fv n) (index n)"
    using ok by (simp_all add: node_ok_def)
  have wal: "wal_holds (crc32 E) wl (log_append wal_op.Delete k [] l)"
    using append_ok [OF wh len _ a] by simp
  have sv: "backend_wf fi s \<and> backend_view fv s = (contents fv n)(k := None)"
    using storage.delete_view [OF backend_storage [OF ctx(1)] wf p] by (simp add: contents_def)
  have acc: "acc = plan_for (contents fv n) k None \<or> acc = None \<and> (contents fv n)(k := None) = contents fv n"
    using plan_delete_accounting_Inr [OF ctx(1) wf plan] by auto
  have fit': "totals_fit ((contents fv n)(k := None))"
    using fit tenant_bytes_remove [OF finite_contents [OF ctx(1) wf], of k]
    by (simp add: totals_fit_def) (metis add_lessD1)
  have "node_ok E fv fi fd ft (commit_accounting E ?n1 acc) (log_append wal_op.Delete k [] l)
    \<and> same_data (contents fv (commit_accounting E ?n1 acc)) ((contents fv n)(k := None))"
  proof (rule logged_write_ok [OF ctx ok k refl fit fit' acc])
    show "\<exists>m''. crash_map fd ft (store n) m'' \<and> (\<forall>k'. k' \<noteq> k \<longrightarrow> m'' k' = m' k')"
      if "crash_map fd ft (store ?n1) m'" for m'
      using crash_map_delete [OF ctx(2) wf p] that by simp
    show "indexed ((contents fv n)(k := None)) (index ?n1)" using indexed_remove [OF iw(2)] by simp
  qed (use wal sv iw(1) in \<open>auto simp: contents_def [of fv ?n1]\<close>)
  moreover have "is_durable s = is_durable (store n)" using p by simp
  ultimately show ?thesis
    using n' a by (intro exI [of _ "publish_change E (commit_accounting E ?n1 acc) k change_kind.Delete []"]
        exI [of _ sq] exI [of _ wl] exI [of _ "log_append wal_op.Delete k [] l"]) (simp add: backend_of_def)
qed

lemma delete_ok:
  assumes ctx: "fjall_ok (fjall E) fv fi" "fjall_durable (fjall E) fv fi fd ft"
    and "node_ok E fv fi fd ft n l" and "\<not> bookkeeping k" and "length k < 2 ^ 32"
    and "node_delete E w n k = (Inr u, n')" and safe: "rotate_safe (w_rotate w)"
    and "totals_fit (contents fv n)"
  shows "(\<exists>l'. node_ok E fv fi fd ft n' l') \<and> same_data (contents fv n') ((contents fv n)(k := None))"
  using delete_committed [OF assms(1-6,8)] rotate_wal_ok [OF ctx _ safe] by metis

subsection \<open>Crashes\<close>

lemma rotate_wal_durable [simp]: "is_durable (store (rotate_wal_if_needed E w n)) = is_durable (store n)"
  by (auto simp: rotate_wal_if_needed_def split: prod.split sum.split)

lemma put_durable: "put_with_ttl E w n k v ttl = (r, n') \<Longrightarrow> backend_of n' = backend_of n"
  by (auto simp: put_with_ttl_def backend_of_def Let_def split: sum.splits prod.splits option.splits if_splits)

lemma delete_durable: "node_delete E w n k = (r, n') \<Longrightarrow> backend_of n' = backend_of n"
  by (auto simp: node_delete_def backend_of_def Let_def split: sum.splits prod.splits)

text \<open>A disk with a log, perhaps a torn frame after it, and the backend of a node.\<close>

lemma disk_holdsI:
  assumes "backend_wf fi s" and "recoverable fd ft s (entries l) m"
    and "holds (crc32 E) fl l" and "parse_frame (crc32 E) torn = None" and "length (fl @ torn) < 2 ^ 64"
  shows "disk_holds E fi fd ft (if is_durable s then FjallBackend else MemoryBackend)
    (disk_of d s (fl @ torn)) m"
proof -
  have "recoverable fd ft (if is_durable s then Fjall (d_fjall (disk_of d s (fl @ torn))) else Memory mem_new)
      (entries l) m"
    using assms(2) by (cases s) (auto simp: disk_of_def recoverable_def)
  moreover have "is_durable s \<longrightarrow> fi (d_fjall (disk_of d s (fl @ torn)))"
    using assms(1) by (cases s) (auto simp: disk_of_def)
  ultimately show ?thesis
    using assms(3-5) unfolding disk_holds_def
    by (intro conjI exI [of _ l] exI [of _ fl] exI [of _ torn]) (auto simp: disk_of_def)
qed

lemma disk_holds_empty_segment:
  assumes "backend_wf fi s" and "recoverable fd ft s [] m"
  shows "disk_holds E fi fd ft (if is_durable s then FjallBackend else MemoryBackend) (disk_of d s []) m"
  using assms unfolding disk_holds_def
  by (cases s) (auto simp: disk_of_def recoverable_def)

lemma node_ok_disk:
  assumes "node_ok E fv fi fd ft n l" and "length (segment (nwal n)) < 2 ^ 64" and "same_data (contents fv n) m"
  shows "disk_holds E fi fd ft (backend_of n) (node_disk d n) m"
proof -
  have "recoverable fd ft (store n) (entries l) m"
    using assms(1,3) by (auto simp: node_ok_def intro: recoverable_same_data)
  then show ?thesis
    using disk_holdsI [of fi "store n" fd ft l m E "segment (nwal n)" "[]" d] assms(1,2)
    by (simp add: node_ok_def wal_holds_def backend_of_def node_disk_def)
qed

lemma refused_cut_header:
  assumes "0 < m"
  shows "refused crc (written m (encode_header b))"
proof -
  let ?h = "written m (encode_header b)"
  have "?h \<noteq> []" using assms by (auto simp: written_def HEADER_LEN_def)
  moreover have "length ?h < HEADER_LEN" using length_written [of "encode_header b" m] by simp
  ultimately show ?thesis
    by (auto simp: refused_def wal_open_def open_recover_def parse_header_def on_io_def split: option.split)
qed

text \<open>
  After the housekeeping rotation, whatever fails in it, the disk holds the map; or the segment is
  a cut header, which the next open refuses.
\<close>

text \<open>
  A rotation that fails while it writes the header: nothing was written, and the flushed backend alone
  gives the map back, or a part was, and the file is refused.
\<close>

lemma rotate_cut_disk:
  assumes ctx: "fjall_ok (fjall E) fv fi" "fjall_durable (fjall E) fv fi fd ft"
    and ok: "node_ok E fv fi fd ft n l" and m: "same_data (contents fv n) m"
    and s: "is_durable (store n)" "backend_flush (fjall E) (store n) = (Inr (), store n')"
    and seg: "segment (nwal n') = written j (encode_header b)"
  shows "disk_holds E fi fd ft (backend_of n) (node_disk d n') m \<or> refused (crc32 E) (segment (nwal n'))"
proof (cases "j = 0")
  case False
  with refused_cut_header [of j] seg show ?thesis by simp
next
  case True
  have wf: "backend_wf fi (store n)" and rec: "recoverable fd ft (store n) (entries l) (contents fv n)"
    using ok by (simp_all add: node_ok_def)
  have "backend_wf fi (store n') \<and> recoverable fd ft (store n') [] m"
    using storage.flush_view [OF backend_storage [OF ctx(1)] wf s(2)] m recoverable_flushed(2) [OF ctx(2) wf s rec]
    by (auto simp: contents_def intro: recoverable_same_data)
  with disk_holds_empty_segment [of fi "store n'" fd ft m E d] True s seg show ?thesis
    by (simp add: written_def node_disk_def backend_of_def)
qed

text \<open>A rotation whose flush failed left the log as it was.\<close>

lemma flush_failed_disk:
  assumes ctx: "fjall_ok (fjall E) fv fi" "fjall_durable (fjall E) fv fi fd ft"
    and ok: "node_ok E fv fi fd ft n l" and len: "length (segment (nwal n)) < 2 ^ 64" and m: "same_data (contents fv n) m"
    and f: "backend_flush (fjall E) (store n) = (Inl q, s)"
  shows "disk_holds E fi fd ft (backend_of n) (node_disk d (n\<lparr>store := s\<rparr>)) m"
proof -
  have wf: "backend_wf fi (store n)" and wh: "wal_holds (crc32 E) (nwal n) l"
    and rec: "recoverable fd ft (store n) (entries l) (contents fv n)"
    using ok by (simp_all add: node_ok_def)
  have "recoverable fd ft s (entries l) (contents fv n)"
    using rec crash_map_flush_failed [OF ctx(2) wf f] by (simp add: recoverable_def)
  then have "backend_wf fi s" "recoverable fd ft s (entries l) m"
    using storage.flush_view [OF backend_storage [OF ctx(1)] wf f] m by (auto intro: recoverable_same_data)
  with disk_holdsI [of fi s fd ft l m E "segment (nwal n)" "[]" d] wh len f show ?thesis
    by (simp add: wal_holds_def backend_of_def node_disk_def)
qed

lemma rotate_wal_disk:
  assumes ctx: "fjall_ok (fjall E) fv fi" "fjall_durable (fjall E) fv fi fd ft"
    and ok: "node_ok E fv fi fd ft n l" and len: "length (segment (nwal n)) < 2 ^ 64"
    and m: "same_data (contents fv n) m"
  shows "disk_holds E fi fd ft (backend_of n) (node_disk d (rotate_wal_if_needed E w n)) m
    \<or> refused (crc32 E) (segment (nwal (rotate_wal_if_needed E w n)))"
proof -
  let ?n = "rotate_wal_if_needed E w n"
  have wf: "backend_wf fi (store n)" and wh: "wal_holds (crc32 E) (nwal n) l"
    using ok by (simp_all add: node_ok_def)
  have seg: "length (segment (nwal ?n)) < 2 ^ 64" if "rotate_safe (w_rotate w)"
    using len wh that
    by (auto simp: rotate_wal_if_needed_def rotate_def wal_holds_def flush_buf_def on_io_def HEADER_LEN_def
        rotate_safe_def Let_def split: prod.split sum.split option.split)
  show ?thesis
  proof (cases "rotate_safe (w_rotate w)")
    case True
    obtain l' where "contents fv ?n = contents fv n" "node_ok E fv fi fd ft ?n l'"
      using rotate_wal_ok [OF ctx ok True] by blast
    with node_ok_disk [of E fv fi fd ft ?n l' m d] seg [OF True] m show ?thesis
      by (simp add: backend_of_def)
  next
    case False
    then obtain e j where io: "w_rotate w 1 = None" "w_rotate w 2 = Some (e, j)"
      unfolding rotate_safe_def by (metis not_Some_eq surj_pair)
    have rot: "segment (snd (rotate (w_rotate w) (nwal n))) = written j (encode_header (log_next l))"
      using io wh by (simp add: rotate_def wal_holds_def flush_buf_def on_io_def Let_def)
    obtain q s where f: "backend_flush (fjall E) (store n) = (q, s)" by fastforce
    consider "?n = n" | q s where "backend_flush (fjall E) (store n) = (Inl q, s)" "?n = n\<lparr>store := s\<rparr>"
      | s where "is_durable (store n)" "backend_flush (fjall E) (store n) = (Inr (), s)" "store ?n = s"
        "segment (nwal ?n) = written j (encode_header (log_next l))"
    proof (cases "is_durable (store n) \<and> \<not> segment_bytes (winner (nwal n)) < wal_rotate_bytes (config n)")
      case False
      then show ?thesis using that(1) by (auto simp: rotate_wal_if_needed_def)
    next
      case True
      then show ?thesis
        using that(2) that(3) f rot by (cases q) (simp_all add: rotate_wal_if_needed_def)
    qed
    then show ?thesis
    proof cases
      case 1
      with node_ok_disk [OF ok len m] show ?thesis by simp
    next
      case (2 q s)
      with flush_failed_disk [OF ctx ok len m 2(1)] show ?thesis by simp
    next
      case (3 s)
      with rotate_cut_disk [OF ctx ok m 3(1), of ?n] show ?thesis by simp
    qed
  qed
qed

lemma length_encode_frame:
  "length (encode_frame crc sq oper k v) = MIN_FRAME_LEN + length k + length v"
  using length_frame_of [of crc "\<lparr>seq = sq, op = oper, rkey = k, rvalue = v\<rparr>"] by (simp add: frame_of_def)

lemma append_segment:
  assumes "wal_holds crc wl l" and "length k < 2 ^ 32" "length raw < 2 ^ 32"
    and "length (segment wl) < 2 ^ 63" and "append crc io wl oper k raw = (r, wl')"
  shows "length (segment wl') < 2 ^ 64"
proof (cases r)
  case (Inl e)
  obtain j where "segment wl' = segment wl @ written j (encode_frame crc (log_next l) oper k raw)"
    using append_failed [OF assms(1)] assms(5) Inl by blast
  with length_written [of "encode_frame crc (log_next l) oper k raw" j] assms(2-4) show ?thesis
    by (simp add: length_encode_frame MIN_FRAME_LEN_def)
next
  case (Inr sq)
  have "wal_holds crc wl' (log_append oper k raw l)"
    using append_ok [OF assms(1-3)] assms(5) Inr by blast
  then have "segment wl' = segment wl @ encode_frame crc (log_next l) oper k raw"
    using assms(1) by (simp add: wal_holds_def holds_def frame_of_def)
  with assms(2-4) show ?thesis by (simp add: length_encode_frame MIN_FRAME_LEN_def)
qed

lemma failed_append_disk:
  assumes "node_ok E fv fi fd ft n l" and "length k < 2 ^ 32" "length raw < 2 ^ 32"
    and "length (segment (nwal n)) < 2 ^ 63"
    and "append (crc32 E) io (nwal n) oper k raw = (Inl e, wl)"
  shows "disk_holds E fi fd ft (backend_of n) (node_disk d (n\<lparr>nwal := wl\<rparr>)) (contents fv n)"
proof -
  have wh: "wal_holds (crc32 E) (nwal n) l" using assms(1) by (simp add: node_ok_def)
  obtain j where seg: "segment wl = segment (nwal n) @ written j (encode_frame (crc32 E) (log_next l) oper k raw)"
    using append_failed [OF wh assms(5)] by blast
  have "length (segment wl) < 2 ^ 64" using append_segment [OF wh assms(2-5)] .
  with disk_holdsI [of fi "store n" fd ft l "contents fv n" E "segment (nwal n)"
      "written j (encode_frame (crc32 E) (log_next l) oper k raw)" d]
    parse_frame_written [OF assms(2,3)] assms(1) seg show ?thesis
    by (simp add: node_ok_def wal_holds_def backend_of_def node_disk_def)
qed

lemma failed_store_disk:
  assumes "node_ok E fv fi fd ft n l" and "length k < 2 ^ 32" "length raw < 2 ^ 32"
    and "length (segment (nwal n)) < 2 ^ 63"
    and "append (crc32 E) io (nwal n) oper k raw = (Inr sq, wl)"
    and "x = (case oper of wal_op.Put \<Rightarrow> Some raw | wal_op.Delete \<Rightarrow> None)"
    and "backend_wf fi s" and "is_durable s = is_durable (store n)"
    and "\<And>m'. crash_map fd ft s m' \<Longrightarrow>
         \<exists>m''. crash_map fd ft (store n) m'' \<and> (\<forall>k'. k' \<noteq> k \<longrightarrow> m'' k' = m' k')"
  shows "disk_holds E fi fd ft (backend_of n) (node_disk d (n\<lparr>nwal := wl, store := s\<rparr>)) ((contents fv n)(k := x))"
proof -
  let ?r = "\<lparr>seq = log_next l, op = oper, rkey = k, rvalue = raw\<rparr>"
  have wh: "wal_holds (crc32 E) (nwal n) l" and rec: "recoverable fd ft (store n) (entries l) (contents fv n)"
    using assms(1) by (simp_all add: node_ok_def)
  have wh': "wal_holds (crc32 E) wl (log_append oper k raw l)"
    using append_ok [OF wh assms(2,3,5)] by simp
  have "apply_record ?r (contents fv n) = (contents fv n)(k := x)"
    using assms(6) by (cases oper) (simp_all add: apply_record.simps)
  then have "recoverable fd ft s (entries (log_append oper k raw l)) ((contents fv n)(k := x))"
    using recoverable_logged [OF rec, of s ?r] assms(9) by simp
  with disk_holdsI [of fi s fd ft "log_append oper k raw l" "(contents fv n)(k := x)" E "segment wl" "[]" d]
    append_segment [OF wh assms(2-5)] wh' assms(7,8) show ?thesis
    by (simp add: wal_holds_def backend_of_def node_disk_def)
qed

text \<open>
  The disk after a write, however it ended: it holds the map before or after it, the latter if it
  reported success, or the next open refuses it.
\<close>

lemma put_disk:
  assumes ctx: "fjall_ok (fjall E) fv fi" "fjall_durable (fjall E) fv fi fd ft"
    and ok: "node_ok E fv fi fd ft n l" and k: "\<not> bookkeeping k"
    and len: "length k < 2 ^ 32" "length v + 9 < 2 ^ 32" "length (segment (nwal n)) < 2 ^ 63"
    and put: "put_with_ttl E w n k v ttl = (r, n')"
    and fit: "totals_fit (contents fv n)"
      "totals_fit ((contents fv n)(k \<mapsto> value_encode v (expiry_of w n ttl)))"
  shows "(\<exists>m. disk_holds E fi fd ft (backend_of n) (node_disk d n') m
      \<and> (m = (contents fv n)(k \<mapsto> value_encode v (expiry_of w n ttl)) \<or> m = contents fv n \<and> r \<noteq> Inr ()))
    \<or> refused (crc32 E) (segment (nwal n'))"
proof -
  let ?raw = "value_encode v (expiry_of w n ttl)"
  have wf: "backend_wf fi (store n)" and wh: "wal_holds (crc32 E) (nwal n) l" using ok by (simp_all add: node_ok_def)
  have lr: "length ?raw < 2 ^ 32" using len(2) by (simp add: length_value_encode split: option.split)
  show ?thesis
  proof (cases r)
    case (Inl e)
    from put [unfolded Inl] show ?thesis
    proof (cases rule: put_with_ttl_Inl)
      case 1
      with node_ok_disk [OF ok, of "contents fv n" d] len(3) Inl show ?thesis by auto
    next
      case (2 wl)
      with failed_append_disk [OF ok len(1) lr len(3) 2(1), of d] Inl show ?thesis by auto
    next
      case (3 sq wl s)
      have "backend_wf fi s" using storage.put_any [OF backend_storage [OF ctx(1)] wf 3(2)] by simp
      with failed_store_disk [OF ok len(1) lr len(3) 3(1) _ _ _ crash_map_put [OF ctx(2) wf 3(2)], of "Some ?raw" s d]
        backend_put_durable [OF 3(2)] 3(3) show ?thesis by auto
    qed
  next
    case (Inr u)
    obtain n2 sq wl l2 where n2: "n' = rotate_wal_if_needed E w n2" "node_ok E fv fi fd ft n2 l2"
      "same_data (contents fv n2) ((contents fv n)(k \<mapsto> ?raw))"
      "append (crc32 E) (w_append w) (nwal n) wal_op.Put k ?raw = (Inr sq, wl)"
      "nwal n2 = wl" "backend_of n2 = backend_of n"
      using put_committed [OF ctx ok k len(1,2) put [unfolded Inr] fit] by blast
    have "length (segment (nwal n2)) < 2 ^ 64"
      using append_segment [OF wh len(1) lr len(3) n2(4)] n2(5) by simp
    from rotate_wal_disk [OF ctx n2(2) this n2(3), of d w] n2 show ?thesis by auto
  qed
qed

lemma delete_disk:
  assumes ctx: "fjall_ok (fjall E) fv fi" "fjall_durable (fjall E) fv fi fd ft"
    and ok: "node_ok E fv fi fd ft n l" and k: "\<not> bookkeeping k"
    and len: "length k < 2 ^ 32" "length (segment (nwal n)) < 2 ^ 63"
    and del: "node_delete E w n k = (r, n')" and fit: "totals_fit (contents fv n)"
  shows "(\<exists>m. disk_holds E fi fd ft (backend_of n) (node_disk d n') m
      \<and> (m = (contents fv n)(k := None) \<or> m = contents fv n \<and> r \<noteq> Inr ()))
    \<or> refused (crc32 E) (segment (nwal n'))"
proof -
  have wf: "backend_wf fi (store n)" and wh: "wal_holds (crc32 E) (nwal n) l" using ok by (simp_all add: node_ok_def)
  show ?thesis
  proof (cases r)
    case (Inl e)
    from del [unfolded Inl] show ?thesis
    proof (cases rule: node_delete_Inl)
      case 1
      with node_ok_disk [OF ok, of "contents fv n" d] len(2) Inl show ?thesis by auto
    next
      case (2 wl)
      with failed_append_disk [OF ok len(1) _ len(2) 2(1), of d] Inl show ?thesis by auto
    next
      case (3 sq wl s)
      have "backend_wf fi s" using storage.delete_any [OF backend_storage [OF ctx(1)] wf 3(2)] by simp
      with failed_store_disk [OF ok len(1) _ len(2) 3(1) _ _ _ crash_map_delete [OF ctx(2) wf 3(2)], of None s d]
        backend_delete_durable [OF 3(2)] 3(3) show ?thesis by auto
    qed
  next
    case (Inr u)
    obtain n2 sq wl l2 where n2: "n' = rotate_wal_if_needed E w n2" "node_ok E fv fi fd ft n2 l2"
      "same_data (contents fv n2) ((contents fv n)(k := None))"
      "append (crc32 E) (w_append w) (nwal n) wal_op.Delete k [] = (Inr sq, wl)"
      "nwal n2 = wl" "backend_of n2 = backend_of n"
      using delete_committed [OF ctx ok k len(1) del [unfolded Inr] fit] by blast
    have "length (segment (nwal n2)) < 2 ^ 64"
      using append_segment [OF wh len(1) _ len(2) n2(4)] n2(5) by simp
    from rotate_wal_disk [OF ctx n2(2) this n2(3), of d w] n2 show ?thesis by auto
  qed
qed

subsection \<open>Reads\<close>

lemma node_get_live:
  assumes "fjall_ok (fjall E) fv fi" and "backend_wf fi (store n)" and "node_get E w n k = Inr r"
  shows "r = live_at (contents fv n) (now_ms (w_time w) (nclock n)) k"
proof -
  obtain got where g: "backend_get (fjall E) (store n) k = Inr got"
    using assms(3) by (cases "backend_get (fjall E) (store n) k") (auto simp: node_get_def)
  have "got = contents fv n k"
    using storage.get_view [OF backend_storage [OF assms(1)] assms(2) g] by (simp add: contents_def)
  then show ?thesis
    using assms(3) g
    by (auto simp: node_get_def live_at_def is_expired_decode split: option.splits sum.splits bool.splits)
qed

lemma live_at_same_data: "same_data m m' \<Longrightarrow> \<not> bookkeeping k \<Longrightarrow> live_at m now k = live_at m' now k"
  by (simp add: live_at_def same_data_def)

lemma live_at_put:
  "live_at (m(k \<mapsto> value_encode v e)) now k'
     = (if k' = k then if \<exists>x. e = Some x \<and> x \<le> now then None else Some v else live_at m now k')"
  by (auto simp: live_at_def)

lemma live_at_remove: "live_at (m(k := None)) now k' = (if k' = k then None else live_at m now k')"
  by (simp add: live_at_def)

subsection \<open>Quota checks\<close>

lemma check_write_plan:
  assumes "usage_exact m q" and "finite (dom m)" and "totals_fit m" and "totals_fit (m(k := x))"
    and "data_owner k = Some t" and "plan_for m k x = Some plan"
  shows "acc_tenant plan = t \<and> (check_write q t (delta plan) = Inr () \<longleftrightarrow>
    max_bytes (quota_of q t) = 0 \<or> tenant_bytes (m(k := x)) t \<le> tenant_bytes m t
    \<or> tenant_bytes (m(k := x)) t \<le> unat (max_bytes (quota_of q t)))"
proof -
  let ?c = "charge_at m k" and ?c' = "charge_at (m(k := x)) k"
  have plan: "plan = \<lparr>acc_tenant = t, delta = word_of_nat ?c' - word_of_nat ?c\<rparr>"
    using assms(5,6) by (simp add: plan_for_def)
  have b: "tenant_bytes m t < 2 ^ 63" "tenant_bytes (m(k := x)) t < 2 ^ 63"
    using assms(3,4) by (simp_all add: totals_fit_def)
  have "?c \<le> tenant_bytes m t" "?c' \<le> tenant_bytes (m(k := x)) t"
    using assms(2,5) by (auto intro: charge_at_le)
  then have d: "sint (delta plan) = int ?c' - int ?c"
    using b sint_diff_of_nat [of ?c' ?c] by (simp add: plan)
  have u: "unat (used_bytes q t) = tenant_bytes m t"
    using assms(1) b(1) by (simp add: usage_exact_def unat_u64_of_nat)
  have "tenant_bytes (m(k := x)) t + ?c = tenant_bytes m t + ?c'"
    using tenant_bytes_fun_upd [OF assms(2), of k x t] assms(5) by (simp add: charge_at_def)
  then have c: "sint (delta plan) \<le> 0 \<longleftrightarrow> tenant_bytes (m(k := x)) t \<le> tenant_bytes m t"
    and c': "int (tenant_bytes m t) + sint (delta plan) = int (tenant_bytes (m(k := x)) t)"
    using d by linarith+
  have "acc_tenant plan = t" using plan by simp
  moreover have "check_write q t (delta plan) = Inr () \<longleftrightarrow>
      max_bytes (quota_of q t) = 0 \<or> sint (delta plan) \<le> 0
      \<or> int (tenant_bytes m t) + sint (delta plan) \<le> int (unat (max_bytes (quota_of q t)))"
    using check_write_Inr_iff [of q t "delta plan"] b(1) by (simp only: u)
  ultimately show ?thesis by (simp only: c c' of_nat_le_iff simp_thms)
qed

subsection \<open>The example is a running node\<close>

lemma example_ctx:
  "fjall_ok (fjall env_example) ref_view ref_wf"
  "fjall_durable (fjall env_example) ref_view ref_wf (\<lambda>s. dm_get (synced s)) (\<lambda>s. set (dirty s))"
  using fjall_ok_reference fjall_durable_reference by (simp_all add: env_example_def)

lemma contents_example: "contents ref_view node_example = Map.empty"
  by (simp add: contents_def node_example_def ref_view_def ref_empty_def dashmap_simps)

lemma node_ok_example:
  "node_ok env_example ref_view ref_wf (\<lambda>s. dm_get (synced s)) (\<lambda>s. set (dirty s)) node_example
     \<lparr>base = 3, entries = []\<rparr>"
  unfolding node_ok_def contents_example
  by (auto simp: node_example_def env_example_def ref_wf_def ref_empty_def wal_holds_example
      recoverable_def same_data_def values_ok_def usage_exact_def tenant_bytes_def indexed_def
      used_bytes_def quota_store_new_def dashmap_simps)

lemma totals_fit_example:
  "totals_fit Map.empty"
  "length v < 2 ^ 32 \<Longrightarrow> totals_fit (Map.empty(raw_key [0x61] Data [] \<mapsto> value_encode v e))"
proof -
  have a: "tenant_ok [0x61]" by (simp add: tenant_ok_def MAX_TENANT_LEN_def)
  show "totals_fit Map.empty" by (simp add: totals_fit_def tenant_bytes_def)
  show "totals_fit (Map.empty(raw_key [0x61] Data [] \<mapsto> value_encode v e))" if "length v < 2 ^ 32"
    unfolding totals_fit_def
  proof
    fix t
    show "tenant_bytes (Map.empty(raw_key [0x61] Data [] \<mapsto> value_encode v e)) t < 2 ^ 63"
      using a that tenant_bytes_fun_upd [of Map.empty "raw_key [0x61] Data []" "Some (value_encode v e)" t]
      by (simp add: charge_at_def tenant_bytes_def [of Map.empty] split: if_splits)
  qed
qed

lemma put_example:
  "fst (put_with_ttl env_example world_example node_example (raw_key [0x61] Data []) [5] 10) = Inr ()"
  by code_simp

section \<open>Properties\<close>

text \<open>
  C3: a put that reports success has exactly its effect. The node keeps what it relies on: its
  counters are the bytes each tenant's data takes, its index knows every expiry, its log and backend
  give the new map back after a crash. A read of the key returns the value until its time to live
  is over and nothing afterwards; every other key of a client reads as before.
\<close>

theorem node_put_effect:
  assumes "fjall_ok (fjall E) fv fi" and "fjall_durable (fjall E) fv fi fd ft"
    and "node_ok E fv fi fd ft n l" and "\<not> bookkeeping k"
    and "length k < 2 ^ 32" and "length v + 9 < 2 ^ 32" and "rotate_safe (w_rotate w)"
    and "totals_fit (contents fv n)"
    and "totals_fit ((contents fv n)(k \<mapsto> value_encode v (expiry_of w n ttl)))"
    and "put_with_ttl E w n k v ttl = (Inr (), n')"
  shows "(\<exists>l'. node_ok E fv fi fd ft n' l')
    \<and> (\<not> bookkeeping k' \<longrightarrow> node_get E w' n' k' = Inr r \<longrightarrow>
         (let now = now_ms (w_time w') (nclock n') in
          r = (if k' = k then
                 if ttl > 0 \<and> saturating_add (now_ms (w_time w) (nclock n)) ttl \<le> now then None else Some v
               else live_at (contents fv n) now k')))"
proof -
  have ok: "\<exists>l'. node_ok E fv fi fd ft n' l'"
    and sd: "same_data (contents fv n') ((contents fv n)(k \<mapsto> value_encode v (expiry_of w n ttl)))"
    using put_ok [OF assms(1-6,10,7-9)] by blast+
  then have "backend_wf fi (store n')" by (auto simp: node_ok_def)
  from node_get_live [OF assms(1) this, of w' k' r] show ?thesis
    using ok live_at_same_data [OF sd, of k'] by (auto simp: live_at_put expiry_of_def Let_def)
qed

theorem node_put_effect_witness:
  "let n' = snd (put_with_ttl env_example world_example node_example (raw_key [0x61] Data []) [5] 10)
   in node_get env_example world_example n' (raw_key [0x61] Data []) = Inr (Some [5])"
proof -
  let ?k = "raw_key [0x61] Data []"
  let ?p = "put_with_ttl env_example world_example node_example ?k [5] 10"
  let ?g = "node_get env_example world_example (snd ?p) ?k"
  have k: "\<not> bookkeeping ?k" by (simp add: tenant_ok_def MAX_TENANT_LEN_def)
  have "isl ?g = False" by code_simp
  then obtain r where g: "?g = Inr r" by (cases ?g) auto
  have n: "now_ms 0 (nclock (snd ?p)) = 1000" "now_ms 0 (nclock node_example) = 1000" by code_simp+
  have "saturating_add (1000 :: u64) 10 = 1010" by code_simp
  with node_put_effect [OF example_ctx node_ok_example k, of "[5]" world_example 10 "snd ?p" ?k world_example r]
    put_example totals_fit_example g n k
  show ?thesis
    by (simp add: contents_example prod_eq_iff raw_key_def rotate_safe_def world_example_def io_ok_def)
qed

end
