(* ===== verification/Node_Correctness.thy ===== *)
theory Node_Correctness
  imports Node_Writes
begin

text \<open>
  What the data path of \<^verbatim>\<open>ferriskv-node/src/service.rs\<close> promises its callers, from the lemmas of the
  recovery and the write theories: what a delete does, that puts and deletes are atomic under
  crashes, that a restart gives the same data, that the quota bounds what a tenant stores, and that
  the scans list the live entries of their range in order.
\<close>

section \<open>Definitions\<close>

text \<open>A backend whose calls succeed, and a map whose quota records have a value header.\<close>

definition backend_total :: "'f fjall_api \<Rightarrow> ('f \<Rightarrow> bool) \<Rightarrow> bool" where
  "backend_total F fi \<longleftrightarrow>
     (\<forall>s k v. fi s \<longrightarrow> fst (fj_insert F s k v) = Inr ())
     \<and> (\<forall>s k. fi s \<longrightarrow> fst (fj_remove F s k) = Inr ())
     \<and> (\<forall>s p. fi s \<longrightarrow> (\<exists>xs. fj_prefix F s p = map Inr xs))
     \<and> (\<forall>s. fi s \<longrightarrow> fst (fj_persist F s) = Inr ())
     \<and> (\<forall>s. fi s \<longrightarrow> (\<exists>s'. fj_open F s = Inr s'))"

definition quota_records_ok :: "(bytes \<rightharpoonup> bytes) \<Rightarrow> bool" where
  "quota_records_ok m \<longleftrightarrow>
     (\<forall>k raw t. m k = Some raw \<longrightarrow> key_decode k = Inr (t, Metadata, QUOTA_KEY) \<longrightarrow> (\<exists>v. value_decode raw = Inr v))"

subsection \<open>Examples\<close>

text \<open>A world in which every call of an append fails, storing nothing, and one to open a node in.\<close>

definition world_failing :: world where
  "world_failing = world_example\<lparr>w_append := (\<lambda>_. Some (''StorageFull'', 0))\<rparr>"

definition open_example :: open_world where
  "open_example = \<lparr>o_mkdir = None, o_fjall_mkdir = None, o_wal = io_ok, o_rotate = io_ok\<rparr>"

definition disk_example :: "ref_fjall disk" where
  "disk_example = \<lparr>d_fjall = ref_empty, d_wal = []\<rparr>"

text \<open>The node of the example with a limit of four bytes for every tenant.\<close>

definition node_limited :: "(ref_fjall, u32 \<times> instant \<times> nat, channel) node" where
  "node_limited = node_example\<lparr>nquotas := quota_store_new \<lparr>max_bytes = 4, max_ops_per_sec = 0\<rparr>\<rparr>"

text \<open>The environment of the example when the first insertion at a key fails, without an effect.\<close>

definition env_poisoned :: "(ref_fjall, u32 \<times> instant \<times> nat, channel) env" where
  "env_poisoned = env_example\<lparr>fjall := fjall_reference\<lparr>fj_insert :=
     (\<lambda>s k v. (if k \<in> set (dirty s) then Inr () else Inl ''Poisoned'',
        s\<lparr>live := (if k \<in> set (dirty s) then dm_insert k v (live s) else live s), dirty := k # dirty s\<rparr>))\<rparr>\<rparr>"

section \<open>Lemmas\<close>

lemma set_map_filter_eq: "set (List.map_filter f xs) = {y. \<exists>x\<in>set xs. f x = Some y}"
  by (force simp: List.map_filter_def)

subsection \<open>Opening after a crash\<close>

lemma refused_open: "refused (crc32 E) (d_wal d) \<Longrightarrow> open_with_clock E ow cfg clk d \<noteq> (Inr n, d')"
proof
  assume r: "refused (crc32 E) (d_wal d)" and o: "open_with_clock E ow cfg clk d = (Inr n, d')"
  obtain e where e: "wal_open (crc32 E) (o_wal ow) (d_wal d) = (Inl e, d_wal d)"
    using r unfolding refused_def by blast
  show False
    using o by (simp add: open_with_clock_def e split: option.splits sum.splits)
qed

lemma values_ok_put: "values_ok m \<Longrightarrow> values_ok (m(k \<mapsto> value_encode v e))"
  by (simp add: values_ok_def)

lemma values_ok_remove: "values_ok m \<Longrightarrow> values_ok (m(k := None))"
  by (simp add: values_ok_def)

text \<open>From a disk that holds one of two maps or is refused, an open node has one of them.\<close>

lemma open_after_crash:
  assumes "fjall_ok (fjall E) fv fi" and "fjall_durable (fjall E) fv fi fd ft"
    and "(\<exists>m. disk_holds E fi fd ft (backend cfg) d m \<and> (m = m2 \<or> m = m1 \<and> failed)) \<or> refused (crc32 E) (d_wal d)"
    and "values_ok m1" and "values_ok m2" and "open_with_clock E ow cfg clk d = (Inr n, d')"
  shows "(\<exists>l. node_ok E fv fi fd ft n l) \<and> (same_data (contents fv n) m2 \<or> same_data (contents fv n) m1 \<and> failed)"
proof -
  obtain m where h: "disk_holds E fi fd ft (backend cfg) d m" and m: "m = m2 \<or> m = m1 \<and> failed"
    using assms(3) refused_open [of E d] assms(6) by blast
  have "values_ok m" using m assms(4,5) by blast
  from open_recovers [OF assms(1,2) h this assms(6)] m show ?thesis by blast
qed

lemma tenant_bytes_same_data:
  assumes "same_data m m'" and "finite (dom m)" and "finite (dom m')"
  shows "tenant_bytes m t = tenant_bytes m' t"
proof -
  have "m k = m' k" if "data_owner k = Some t" for k
    using assms(1) data_owner_not_bookkeeping [OF that] by (simp add: same_data_def)
  then show ?thesis
    unfolding tenant_bytes_def map_total_def
    using assms(2,3) by (intro sum.mono_neutral_cong) (auto simp: domIff)
qed

subsection \<open>Opening succeeds\<close>

lemma open_stages:
  assumes "o_mkdir ow = None" and "open_backend (fjall E) ow cfg d = Inr s0"
    and "wal_open (crc32 E) (o_wal ow) (d_wal d) = (Inr (w0, rc), fl)"
    and "replay_loop (fjall E) s0 (records rc) = (Inr (), s1)" and "settle E ow s1 w0 = (Inr (), s, w)"
    and "fst (load_quotas (fjall E) (json E) (quota_store_new \<lparr>max_bytes = default_max_bytes (quota cfg),
               max_ops_per_sec = default_max_ops_per_sec (quota cfg)\<rparr>) s) = Inr c"
    and "backend_scan (fjall E) s [] = Inr es"
  shows "\<exists>n. fst (open_with_clock E ow cfg clk d) = Inr n"
proof -
  obtain q where "load_quotas (fjall E) (json E) (quota_store_new \<lparr>max_bytes = default_max_bytes (quota cfg),
               max_ops_per_sec = default_max_ops_per_sec (quota cfg)\<rparr>) s = (Inr c, q)"
    using assms(6) by (metis prod.collapse)
  with assms(1-5,7) show ?thesis
    by (simp add: open_with_clock_def replay_def Let_def bootstrap_from_storage_def split: prod.split)
qed

lemma load_quotas_loop_total:
  assumes "\<And>k raw t. (k, raw) \<in> set es \<Longrightarrow> key_decode k = Inr (t, Metadata, QUOTA_KEY) \<Longrightarrow> \<exists>v. value_decode raw = Inr v"
  shows "\<exists>c. fst (load_quotas_loop J es st i) = Inr c"
  using assms
proof (induction es arbitrary: st i)
  case (Cons kr es)
  obtain key raw where kr: "kr = (key, raw)" by (cases kr)
  have ih: "\<exists>c. fst (load_quotas_loop J es st i) = Inr c" for st i
    using Cons.prems by (intro Cons.IH) (meson list.set_intros(2))
  show ?case
  proof (cases "\<exists>t. key_decode key = Inr (t, Metadata, QUOTA_KEY)")
    case True
    then obtain t v where "key_decode key = Inr (t, Metadata, QUOTA_KEY)" "value_decode raw = Inr v"
      using Cons.prems [of key raw] kr by auto
    with ih kr show ?thesis by (simp split: sum.split)
  next
    case False
    with ih kr show ?thesis by (auto split: sum.split)
  qed
qed simp

lemma replay_loop_total:
  assumes "fjall_ok F fv fi" and "backend_total F fi" and "backend_wf fi s"
  shows "\<exists>s'. replay_loop F s rs = (Inr (), s')"
  using assms(3)
proof (induction rs arbitrary: s)
  case (Cons r rs)
  note st = backend_storage [OF assms(1)]
  obtain q s1 where s1: "(case op r of wal_op.Put \<Rightarrow> backend_put F s (rkey r) (rvalue r)
      | wal_op.Delete \<Rightarrow> backend_delete F s (rkey r)) = (q, s1)" by fastforce
  have "q = Inr ()"
    using s1 assms(2) Cons.prems
    by (cases s) (auto simp: backend_total_def mem_put_def mem_delete_def fjall_put_def fjall_delete_def
        map_prod_eq_iff split: wal_op.splits prod.splits, (metis fst_conv from_fjall_Inr_iff)+)
  moreover have "backend_wf fi s1"
    using s1 storage.put_any [OF st Cons.prems] storage.delete_any [OF st Cons.prems] by (auto split: wal_op.splits)
  ultimately show ?case using Cons.IH [of s1] s1 by simp
qed simp

lemma backend_scan_total:
  assumes "backend_total F fi" and "backend_wf fi s"
  shows "\<exists>es. backend_scan F s p = Inr es"
  using assms by (cases s) (simp_all add: mem_scan_def fjall_scan_def collect_Inr_iff backend_total_def)

lemma settle_total:
  assumes "fjall_ok (fjall E) fv fi" and "backend_total (fjall E) fi" and "backend_wf fi s"
    and "wal_holds (crc32 E) w l" and "o_rotate ow = io_ok"
  shows "\<exists>s' w'. settle E ow s w = (Inr (), s', w') \<and> backend_wf fi s' \<and> backend_view fv s' = backend_view fv s"
proof (cases s)
  case (Memory x)
  with assms show ?thesis by (simp add: settle_def)
next
  case (Fjall f)
  obtain s' where f: "backend_flush (fjall E) s = (Inr (), s')"
    using assms(2,3) Fjall by (cases "fj_persist (fjall E) f") (auto simp: backend_total_def fjall_flush_def)
  obtain w' where "rotate io_ok w = (Inr (), w')" using rotate_io_ok [OF assms(4)] by blast
  with f assms(5) Fjall storage.flush_view [OF backend_storage [OF assms(1)] assms(3) f] show ?thesis
    by (simp add: settle_def)
qed

lemma open_succeeds:
  assumes "fjall_ok (fjall E) fv fi" and "fjall_durable (fjall E) fv fi fd ft" and "backend_total (fjall E) fi"
    and "ow = \<lparr>o_mkdir = None, o_fjall_mkdir = None, o_wal = io_ok, o_rotate = io_ok\<rparr>"
    and "node_ok E fv fi fd ft n l" and "length (segment (nwal n)) < 2 ^ 64" and "backend cfg = backend_of n"
    and "\<And>m. crash_map fd ft (store n) m \<Longrightarrow> quota_records_ok (replay_map (entries l) m)"
  shows "\<exists>n'. fst (open_with_clock E ow cfg clk (node_disk d n)) = Inr n'"
proof -
  let ?d = "node_disk d n"
  have wf: "backend_wf fi (store n)" and h: "holds (crc32 E) (segment (nwal n)) l"
    using assms(5) by (simp_all add: node_ok_def wal_holds_def)
  have fi: "backend cfg = FjallBackend \<longrightarrow> fi (d_fjall ?d)"
    using wf assms(7) by (cases "store n") (simp_all add: node_disk_def disk_of_def backend_of_def)
  then have "\<exists>s0. open_backend (fjall E) ow cfg ?d = Inr s0"
    using assms(3,4) by (cases "backend cfg") (simp_all add: open_backend_def fjall_open_def backend_total_def map_sum_eq_Inr_iff)
  then obtain s0 where s0: "open_backend (fjall E) ow cfg ?d = Inr s0" by blast
  note ob = open_backend_crash_map [OF assms(2) fi s0]
  have cm: "crash_map fd ft (store n) (backend_view fv s0)"
    using ob assms(7) by (cases "store n") (auto simp: backend_of_def node_disk_def disk_of_def)
  obtain w0 rc fl where wo: "wal_open (crc32 E) (o_wal ow) (d_wal ?d) = (Inr (w0, rc), fl)"
    and rc: "records rc = entries l" and wh: "wal_holds (crc32 E) w0 l"
    using wal_open_torn [OF h, of "[]"] assms(4,6) by (auto simp: node_disk_def disk_of_def)
  obtain s1 where s1: "replay_loop (fjall E) s0 (records rc) = (Inr (), s1)"
    using replay_loop_total [OF assms(1,3)] ob by blast
  have v1: "backend_wf fi s1" "backend_view fv s1 = replay_map (entries l) (backend_view fv s0)"
    using replay_loop_view [OF assms(1) _ s1] ob rc by auto
  obtain s w where se: "settle E ow s1 w0 = (Inr (), s, w)" and v: "backend_wf fi s" "backend_view fv s = backend_view fv s1"
    using settle_total [OF assms(1,3) v1(1) wh, of ow] assms(4) by auto
  obtain es where es: "backend_scan (fjall E) s [] = Inr es" using backend_scan_total [OF assms(3) v(1)] by blast
  then have "set es = {(k, x). backend_view fv s k = Some x}"
    using storage.scan_lists [OF backend_storage [OF assms(1)] v(1)] by (force simp: lists_entries_def)
  then have "\<exists>c. fst (load_quotas_loop (json E) es q 0) = Inr c" for q
    using assms(8) [OF cm] v(2) v1(2) by (intro load_quotas_loop_total) (simp add: quota_records_ok_def)
  then have "\<exists>c. fst (load_quotas (fjall E) (json E) q s) = Inr c" for q
    using es by (simp add: load_quotas_def Let_def)
  then show ?thesis using open_stages [OF _ s0 wo s1 se _ es] assms(4) by fastforce
qed

subsection \<open>What a write leaves alone\<close>

text \<open>However a write ends, it changes no entry of a client but the one of its key.\<close>

lemma rotate_wal_view:
  assumes "fjall_ok (fjall E) fv fi" and "backend_wf fi (store n)"
  shows "backend_wf fi (store (rotate_wal_if_needed E w n)) \<and> contents fv (rotate_wal_if_needed E w n) = contents fv n"
proof -
  obtain q s where f: "backend_flush (fjall E) (store n) = (q, s)" by fastforce
  have "backend_wf fi s \<and> backend_view fv s = contents fv n"
    using storage.flush_view [OF backend_storage [OF assms(1)] assms(2) f] by (simp add: contents_def)
  then show ?thesis
    using assms(2) f by (simp add: rotate_wal_if_needed_def contents_def split: sum.split)
qed

lemma commit_frame:
  assumes "fjall_ok (fjall E) fv fi" and "fjall_durable (fjall E) fv fi fd ft" and "backend_wf fi (store n)"
    and "acc = plan_for m k x \<or> acc = None"
  shows "backend_wf fi (store (commit_accounting E n acc)) \<and> same_data (contents fv (commit_accounting E n acc)) (contents fv n)"
proof -
  have "utf8_valid (acc_tenant plan)" if "acc = Some plan" for plan
    using assms(4) that
    by (cases rule: data_owner_cases [of k]) (auto simp: plan_for_def tenant_ok_def)
  with commit_accounting_contents [OF assms(1-3), of acc] show ?thesis
    by (metis same_data_bookkeeping same_data_refl)
qed

lemma put_frame:
  assumes "fjall_ok (fjall E) fv fi" and "fjall_durable (fjall E) fv fi fd ft" and "backend_wf fi (store n)"
    and "put_with_ttl E w n k v ttl = (r, n')"
  shows "backend_wf fi (store n') \<and> config n' = config n \<and> nclock n' = nclock n
    \<and> (\<exists>x. same_data (contents fv n') ((contents fv n)(k := x)))"
proof (cases r)
  case (Inl e)
  from assms(4) [unfolded Inl] show ?thesis
  proof (cases rule: put_with_ttl_Inl)
    case 1
    with assms(3) show ?thesis by (metis fun_upd_triv same_data_refl)
  next
    case (2 wl)
    with assms(3) show ?thesis by (simp add: contents_def) (metis fun_upd_triv same_data_refl)
  next
    case (3 sq wl s)
    with storage.put_any [OF backend_storage [OF assms(1)] assms(3) 3(2)] show ?thesis
      by (simp add: contents_def) (metis fun_upd_triv same_data_refl)
  qed
next
  case (Inr u)
  let ?raw = "value_encode v (expiry_of w n ttl)"
  let ?ix = "case expiry_of w n ttl of Some e \<Rightarrow> schedule (index n) k e | None \<Rightarrow> index n"
  from assms(4) [unfolded Inr] obtain acc wl s where plan: "plan_accounting E n k (length v) = Inr acc"
    and p: "backend_put (fjall E) (store n) k ?raw = (Inr (), s)"
    and n': "n' = rotate_wal_if_needed E w (publish_change E (commit_accounting E
      (n\<lparr>nwal := wl, store := s, index := ?ix\<rparr>) acc) k change_kind.Put v)"
    by (rule put_with_ttl_Inr)
  have s: "backend_wf fi s \<and> backend_view fv s = (contents fv n)(k \<mapsto> ?raw)"
    using storage.put_view [OF backend_storage [OF assms(1)] assms(3) p] by (simp add: contents_def)
  have "acc = plan_for (contents fv n) k (Some ?raw)" using plan_accounting_Inr [OF assms(1,3) plan] .
  with commit_frame [OF assms(1,2), of "n\<lparr>nwal := wl, store := s, index := ?ix\<rparr>" acc] s
  have "backend_wf fi (store (commit_accounting E (n\<lparr>nwal := wl, store := s, index := ?ix\<rparr>) acc))"
    "same_data (contents fv (commit_accounting E (n\<lparr>nwal := wl, store := s, index := ?ix\<rparr>) acc)) ((contents fv n)(k \<mapsto> ?raw))"
    by (auto simp: contents_def [of fv "n\<lparr>nwal := wl, store := s, index := ?ix\<rparr>"])
  with rotate_wal_view [OF assms(1), of "publish_change E (commit_accounting E
      (n\<lparr>nwal := wl, store := s, index := ?ix\<rparr>) acc) k change_kind.Put v" w] n' show ?thesis
    by auto
qed

lemma delete_frame:
  assumes "fjall_ok (fjall E) fv fi" and "fjall_durable (fjall E) fv fi fd ft" and "backend_wf fi (store n)"
    and "node_delete E w n k = (r, n')"
  shows "backend_wf fi (store n') \<and> config n' = config n \<and> nclock n' = nclock n
    \<and> (\<exists>x. (x = None \<or> x = contents fv n k) \<and> same_data (contents fv n') ((contents fv n)(k := x)))"
proof (cases r)
  case (Inl e)
  from assms(4) [unfolded Inl] show ?thesis
  proof (cases rule: node_delete_Inl)
    case 1
    with assms(3) show ?thesis by (metis fun_upd_triv same_data_refl)
  next
    case (2 wl)
    with assms(3) show ?thesis by (simp add: contents_def) (metis fun_upd_triv same_data_refl)
  next
    case (3 sq wl s)
    with storage.delete_any [OF backend_storage [OF assms(1)] assms(3) 3(2)] show ?thesis
      by (simp add: contents_def) (metis fun_upd_triv same_data_refl)
  qed
next
  case (Inr u)
  from assms(4) [unfolded Inr] obtain acc wl s where plan: "plan_delete_accounting E n k = Inr acc"
    and p: "backend_delete (fjall E) (store n) k = (Inr (), s)"
    and n': "n' = rotate_wal_if_needed E w (publish_change E (commit_accounting E
      (n\<lparr>nwal := wl, store := s\<rparr>) acc) k change_kind.Delete [])"
    by (rule node_delete_Inr)
  have s: "backend_wf fi s \<and> backend_view fv s = (contents fv n)(k := None)"
    using storage.delete_view [OF backend_storage [OF assms(1)] assms(3) p] by (simp add: contents_def)
  have "acc = plan_for (contents fv n) k None \<or> acc = None" using plan_delete_accounting_Inr [OF assms(1,3) plan] by blast
  with commit_frame [OF assms(1,2), of "n\<lparr>nwal := wl, store := s\<rparr>" acc] s
  have "backend_wf fi (store (commit_accounting E (n\<lparr>nwal := wl, store := s\<rparr>) acc))"
    "same_data (contents fv (commit_accounting E (n\<lparr>nwal := wl, store := s\<rparr>) acc)) ((contents fv n)(k := None))"
    by (auto simp: contents_def [of fv "n\<lparr>nwal := wl, store := s\<rparr>"])
  with rotate_wal_view [OF assms(1), of "publish_change E (commit_accounting E
      (n\<lparr>nwal := wl, store := s\<rparr>) acc) k change_kind.Delete []" w] n' show ?thesis
    by auto
qed

subsection \<open>Errors when nothing fails\<close>

text \<open>When no I/O fails, a write that is refused left no trace.\<close>

lemma put_fault_free:
  assumes "backend_total (fjall E) fi" and "node_ok E fv fi fd ft n l" and "w_append w = io_ok"
    and "put_with_ttl E w n k v ttl = (Inl e, n')"
  shows "n' = n"
  using assms(4)
proof (cases rule: put_with_ttl_Inl)
  case (2 wl)
  have "\<exists>w'. append (crc32 E) io_ok (nwal n) wal_op.Put k (value_encode v (expiry_of w n ttl)) = (Inr (log_next l), w')"
    using append_io_ok assms(2) by (simp add: node_ok_def)
  with 2 assms(3) show ?thesis by simp
next
  case (3 sq wl s)
  have "backend_wf fi (store n)" using assms(2) by (simp add: node_ok_def)
  with assms(1) 3(2) show ?thesis
    by (cases "store n")
      (auto simp: backend_total_def mem_put_def fjall_put_def map_prod_eq_iff split: prod.splits,
        metis Inl_not_Inr fst_conv from_fjall_Inr_iff)
qed simp

lemma delete_fault_free:
  assumes "backend_total (fjall E) fi" and "node_ok E fv fi fd ft n l" and "w_append w = io_ok"
    and "node_delete E w n k = (Inl e, n')"
  shows "n' = n"
  using assms(4)
proof (cases rule: node_delete_Inl)
  case (2 wl)
  have "\<exists>w'. append (crc32 E) io_ok (nwal n) wal_op.Delete k [] = (Inr (log_next l), w')"
    using append_io_ok assms(2) by (simp add: node_ok_def)
  with 2 assms(3) show ?thesis by simp
next
  case (3 sq wl s)
  have "backend_wf fi (store n)" using assms(2) by (simp add: node_ok_def)
  with assms(1) 3(2) show ?thesis
    by (cases "store n")
      (auto simp: backend_total_def mem_delete_def fjall_delete_def map_prod_eq_iff split: prod.splits,
        metis Inl_not_Inr fst_conv from_fjall_Inr_iff)
qed simp

lemma totals_fit_same_data:
  "same_data m m' \<Longrightarrow> finite (dom m) \<Longrightarrow> finite (dom m') \<Longrightarrow> totals_fit m = totals_fit m'"
  using tenant_bytes_same_data by (simp add: totals_fit_def)

subsection \<open>Where a quota error comes from\<close>

lemma append_error: "append crc io w oper k v = (Inl e, w') \<Longrightarrow> \<exists>x. e = Io x"
  by (auto simp: append_def write_flush_def bw_write_all_def flush_buf_def on_io_def Let_def
      split: if_splits option.splits prod.splits sum.splits)

lemma backend_get_error: "backend_get F s k = Inl e \<Longrightarrow> \<exists>x. e = Storage x"
  by (cases s) (auto simp: mem_get_def fjall_get_def from_fjall_def map_sum_eq_Inl_iff)

lemma backend_put_error: "backend_put F s k v = (Inl e, s') \<Longrightarrow> \<exists>x. e = Storage x"
  by (cases s) (auto simp: mem_put_def fjall_put_def from_fjall_def map_sum_eq_Inl_iff split: prod.splits)

lemma plan_accounting_error:
  "plan_accounting E n k len = Inl e \<Longrightarrow> (\<exists>x. e = Storage x) \<or> (\<exists>x. e = Corrupt x)"
  by (auto simp: plan_accounting_def payload_len_def Let_def dest: backend_get_error
      split: sum.splits prod.splits if_splits option.splits)

lemma put_refused:
  assumes "plan_accounting E n k (length v) = Inr (Some plan)"
    and "check_write (nquotas n) (acc_tenant plan) (delta plan) = Inl e"
  shows "put_with_ttl E w n k v ttl = (Inl e, n)"
  using assms by (simp add: put_with_ttl_def)

lemma put_quota_error:
  assumes "put_with_ttl E w n k v ttl = (Inl (QuotaExceeded t a b), n')"
  obtains plan where "plan_accounting E n k (length v) = Inr (Some plan)"
    and "check_write (nquotas n) (acc_tenant plan) (delta plan) = Inl (QuotaExceeded t a b)"
  using assms
  by (auto simp: put_with_ttl_def Let_def dest: append_error backend_put_error plan_accounting_error
      split: sum.splits prod.splits option.splits if_splits)

lemma put_logged_error:
  assumes "put_with_ttl E w n k v ttl = (Inl (Storage e), n')"
    and "next_seq (winner (nwal n')) \<noteq> next_seq (winner (nwal n))"
  obtains sq wl s where
    "append (crc32 E) (w_append w) (nwal n) wal_op.Put k (value_encode v (expiry_of w n ttl)) = (Inr sq, wl)"
    and "backend_put (fjall E) (store n) k (value_encode v (expiry_of w n ttl)) = (Inl (Storage e), s)"
    and "n' = n\<lparr>nwal := wl, store := s\<rparr>"
  using assms(1) by (cases rule: put_with_ttl_Inl) (use assms(2) that in \<open>auto dest: append_error\<close>)

lemma check_write_error: "check_write q t d = Inl e \<Longrightarrow> \<exists>a. e = QuotaExceeded t a (max_bytes (quota_of q t))"
  by (auto simp: check_write_def Let_def split: if_splits)

subsection \<open>Scans\<close>

lemma filter_entry_live:
  "filter_entry now (k, raw) = map_option (\<lambda>v. (k, v)) (live_at [k \<mapsto> raw] now k)"
  by (cases "value_decode raw")
    (auto simp: filter_entry_def live_at_def is_expired_decode split: option.splits bool.splits)

lemma map_filter_ordered:
  assumes "ordered_entries xs" and "\<And>k raw y. f (k, raw) = Some y \<Longrightarrow> fst y = k"
  shows "ordered_entries (List.map_filter f xs)"
  using assms(1)
proof (induction xs)
  case (Cons x xs)
  obtain k raw where x: "x = (k, raw)" by (cases x)
  have sub: "fst ` set (List.map_filter f xs) \<subseteq> fst ` set xs"
    using assms(2) by (force simp: set_map_filter_eq)
  have "\<forall>y\<in>set (List.map_filter f xs). k \<le> fst y" "k \<notin> fst ` set (List.map_filter f xs)"
    using sub Cons.prems x by (auto simp: ordered_entries_def dest!: subsetD [OF sub imageI])
  with Cons x assms(2) [of k raw] show ?case
    by (simp add: ordered_entries_def List.map_filter_simps split: option.split)
qed (simp add: ordered_entries_def List.map_filter_simps)

lemma filter_scan_lists:
  assumes "lists_entries m P xs"
  shows "lists_entries (live_at m (now_ms (w_time w) (nclock n))) P (filter_scan w n xs)"
proof -
  let ?now = "now_ms (w_time w) (nclock n)"
  have "ordered_entries (filter_scan w n xs)"
    unfolding filter_scan_def using assms
    by (intro map_filter_ordered) (auto simp: lists_entries_def filter_entry_live)
  moreover have "live_at m now k = (case m k of None \<Rightarrow> None | Some raw \<Rightarrow> live_at [k \<mapsto> raw] now k)" for now k
    by (simp add: live_at_def split: option.split)
  then have "set (filter_scan w n xs) = {(k, v). live_at m ?now k = Some v \<and> P k}"
    using assms
    by (force simp: filter_scan_def set_map_filter_eq lists_entries_def filter_entry_live split: option.splits)
  ultimately show ?thesis by (simp add: lists_entries_def)
qed

subsection \<open>The examples\<close>

lemma poisoned_ctx:
  "fjall_ok (fjall env_poisoned) ref_view ref_wf"
  "fjall_durable (fjall env_poisoned) ref_view ref_wf (\<lambda>s. dm_get (synced s)) (\<lambda>s. set (dirty s))"
  unfolding fjall_ok_def fjall_durable_def env_poisoned_def fjall_reference_def ref_view_def ref_wf_def
  by (auto simp: dashmap_simps lists_entries_sort_filter inj_map_eq_map inj_def split: if_splits)

lemma node_ok_poisoned:
  "node_ok env_poisoned ref_view ref_wf (\<lambda>s. dm_get (synced s)) (\<lambda>s. set (dirty s)) node_example
     \<lparr>base = 3, entries = []\<rparr>"
  using node_ok_example by (simp add: node_ok_def env_poisoned_def)

lemma open_poisoned:
  assumes "store n = Fjall \<lparr>live = [], synced = [], dirty = [raw_key [0x61] Data []]\<rparr>"
    and "wal_holds (crc32 env_poisoned) (nwal n) \<lparr>base = 3, entries =
      [\<lparr>seq = 3, op = wal_op.Put, rkey = raw_key [0x61] Data [], rvalue = value_encode [5] None\<rparr>]\<rparr>"
    and "length (segment (nwal n)) < 2 ^ 64"
  shows "\<exists>n'. fst (open_with_clock env_poisoned open_example config_example (Manual 1000) (node_disk disk_example n)) = Inr n'"
proof -
  let ?F = "fjall env_poisoned" and ?d = "node_disk disk_example n" and ?k = "raw_key [0x61] Data []"
  let ?r = "\<lparr>seq = 3, op = wal_op.Put, rkey = ?k, rvalue = value_encode [5] None\<rparr>"
  let ?s = "Fjall \<lparr>live = [], synced = [], dirty = [?k]\<rparr>"
  let ?s1 = "Fjall \<lparr>live = [(?k, value_encode [5] None)], synced = [], dirty = [?k, ?k]\<rparr>"
  let ?s2 = "Fjall \<lparr>live = [(?k, value_encode [5] None)], synced = [(?k, value_encode [5] None)], dirty = []\<rparr>"
  have o: "open_backend ?F open_example config_example ?d = Inr ?s"
    using assms(1)
    by (simp add: node_disk_def disk_of_def open_backend_def config_example_def open_example_def fjall_open_def
        env_poisoned_def fjall_reference_def from_fjall_def)
  obtain w0 rc fl where w: "wal_open (crc32 env_poisoned) (o_wal open_example) (d_wal ?d) = (Inr (w0, rc), fl)"
    and rc: "records rc = [?r]" and wh: "wal_holds (crc32 env_poisoned) w0 \<lparr>base = 3, entries = [?r]\<rparr>"
    using wal_open_torn [of "crc32 env_poisoned" "segment (nwal n)" "\<lparr>base = 3, entries = [?r]\<rparr>" "[]"] assms(2,3)
    by (auto simp: node_disk_def disk_of_def open_example_def wal_holds_def)
  have "replay_loop ?F ?s [?r] = (Inr (), ?s1)" by code_simp
  with rc have rp: "replay_loop ?F ?s (records rc) = (Inr (), ?s1)" by simp
  have "backend_flush ?F ?s1 = (Inr (), ?s2)" by code_simp
  then obtain w1 where se: "settle env_poisoned open_example ?s1 w0 = (Inr (), ?s2, w1)"
    using rotate_io_ok [OF wh] by (auto simp: settle_def open_example_def)
  have "isl (fst (load_quotas ?F (json env_poisoned) (quota_store_new
      \<lparr>max_bytes = default_max_bytes (quota config_example),
       max_ops_per_sec = default_max_ops_per_sec (quota config_example)\<rparr>) ?s2)) = False"
    by code_simp
  then obtain c where c: "fst (load_quotas ?F (json env_poisoned) (quota_store_new
      \<lparr>max_bytes = default_max_bytes (quota config_example),
       max_ops_per_sec = default_max_ops_per_sec (quota config_example)\<rparr>) ?s2) = Inr c"
    by (metis isl_def sum.exhaust_sel)
  have "backend_scan ?F ?s2 [] = Inr [(?k, value_encode [5] None)]" by code_simp
  from open_stages [OF _ o w rp se c this] show ?thesis by (simp add: open_example_def)
qed

lemma raw_key_example: "length (raw_key [0x61] Data []) < 2 ^ 32"
  by (simp add: raw_key_def)

lemma rotate_safe_example: "rotate_safe (w_rotate world_example)"
  by (simp add: rotate_safe_def world_example_def io_ok_def)

section \<open>Properties\<close>

text \<open>
  C6: a delete that reports success removes exactly its key, keeps everything a running node relies
  on, and frees the bytes of the entry.
\<close>

theorem node_delete_effect:
  assumes "fjall_ok (fjall E) fv fi" and "fjall_durable (fjall E) fv fi fd ft"
    and "node_ok E fv fi fd ft n l" and "\<not> bookkeeping k" and "length k < 2 ^ 32"
    and "rotate_safe (w_rotate w)" and "totals_fit (contents fv n)"
    and "node_delete E w n k = (Inr (), n')"
  shows "(\<exists>l'. node_ok E fv fi fd ft n' l')
    \<and> (\<not> bookkeeping k' \<longrightarrow> node_get E w' n' k' = Inr r \<longrightarrow>
         r = (if k' = k then None
              else live_at (contents fv n) (now_ms (w_time w') (nclock n')) k'))"
proof -
  have ok: "\<exists>l'. node_ok E fv fi fd ft n' l'" and sd: "same_data (contents fv n') ((contents fv n)(k := None))"
    using delete_ok [OF assms(1-5,8,6,7)] by blast+
  then have "backend_wf fi (store n')" by (auto simp: node_ok_def)
  from node_get_live [OF assms(1) this, of w' k' r] show ?thesis
    using ok live_at_same_data [OF sd, of k'] by (auto simp: live_at_remove)
qed

theorem node_delete_effect_witness:
  "\<exists>l'. node_ok env_example ref_view ref_wf (\<lambda>s. dm_get (synced s)) (\<lambda>s. set (dirty s))
     (snd (node_delete env_example world_example node_example [7])) l'"
proof -
  have "fst (node_delete env_example world_example node_example [7]) = Inr ()" by code_simp
  moreover have "\<not> bookkeeping [7]" by code_simp
  ultimately show ?thesis
    using node_delete_effect [OF example_ctx node_ok_example, of "[7]" world_example
        "snd (node_delete env_example world_example node_example [7])"] totals_fit_example
    by (simp add: contents_example prod_eq_iff rotate_safe_def world_example_def io_ok_def)
qed

text \<open>
  C2: a put is atomic under crashes. Whatever fails during it (any call of the log's append and
  rotation, any operation of the backend), and whether or not it reported an error, a node that
  opens on the disk it left has the map before the put or the map after it, and the latter if the
  put reported success; and it has everything a running node relies on. A crash between two steps
  leaves the disk as a failure of the second step does.
\<close>

theorem node_put_crash_atomic:
  assumes "fjall_ok (fjall E) fv fi" and "fjall_durable (fjall E) fv fi fd ft"
    and "node_ok E fv fi fd ft n l" and "\<not> bookkeeping k"
    and "length k < 2 ^ 32" and "length v + 9 < 2 ^ 32" and "length (segment (nwal n)) < 2 ^ 63"
    and "totals_fit (contents fv n)"
    and "totals_fit ((contents fv n)(k \<mapsto> value_encode v (expiry_of w n ttl)))"
    and "put_with_ttl E w n k v ttl = (r, n')"
    and "backend cfg = backend_of n" and "open_with_clock E ow cfg clk (node_disk d n') = (Inr n'', d'')"
  shows "(\<exists>l''. node_ok E fv fi fd ft n'' l'')
    \<and> (same_data (contents fv n'') ((contents fv n)(k \<mapsto> value_encode v (expiry_of w n ttl)))
       \<or> same_data (contents fv n'') (contents fv n) \<and> r \<noteq> Inr ())"
proof (rule open_after_crash [OF assms(1,2) _ _ _ assms(12)])
  show "values_ok (contents fv n)" using assms(3) by (simp add: node_ok_def)
  then show "values_ok ((contents fv n)(k \<mapsto> value_encode v (expiry_of w n ttl)))" by (rule values_ok_put)
qed (use put_disk [OF assms(1-7,10,8,9), of d] assms(11) in \<open>simp add: node_disk_def disk_of_def\<close>)

theorem node_put_crash_atomic_witness:
  "let r = put_with_ttl env_example world_failing node_example (raw_key [0x61] Data []) [5] 10
   in isl (fst r)
      \<and> (\<exists>n'' l''. fst (open_with_clock env_example open_example config_example (Manual 1000)
             (node_disk disk_example (snd r))) = Inr n''
           \<and> node_ok env_example ref_view ref_wf (\<lambda>s. dm_get (synced s)) (\<lambda>s. set (dirty s)) n'' l'')"
proof -
  let ?k = "raw_key [0x61] Data []"
  let ?p = "put_with_ttl env_example world_failing node_example ?k [5] 10"
  let ?o = "open_with_clock env_example open_example config_example (Manual 1000) (node_disk disk_example (snd ?p))"
  have k: "\<not> bookkeeping ?k" by (simp add: tenant_ok_def MAX_TENANT_LEN_def)
  have "isl (fst ?o) = False" by code_simp
  then obtain n'' where o: "?o = (Inr n'', snd ?o)" by (cases "fst ?o") (auto simp: prod_eq_iff)
  have "isl (fst ?p)" by code_simp
  moreover have "backend config_example = backend_of node_example" by code_simp
  moreover have "length (segment (nwal node_example)) < 2 ^ 63"
    by (simp add: node_example_def segment_example HEADER_LEN_def)
  ultimately show ?thesis
    using node_put_crash_atomic [OF example_ctx node_ok_example k, of "[5]" world_failing 10 "fst ?p" "snd ?p",
        OF _ _ _ _ _ _ _ o] totals_fit_example o
    by (auto simp: contents_example raw_key_def Let_def prod_eq_iff)
qed

text \<open>
  A delete is atomic under crashes in the same sense: a node that opens on the disk it left has
  the map with the key or the map without it, and the latter if the delete reported success.
\<close>

theorem node_delete_crash_atomic:
  assumes "fjall_ok (fjall E) fv fi" and "fjall_durable (fjall E) fv fi fd ft"
    and "node_ok E fv fi fd ft n l" and "\<not> bookkeeping k"
    and "length k < 2 ^ 32" and "length (segment (nwal n)) < 2 ^ 63"
    and "totals_fit (contents fv n)" and "node_delete E w n k = (r, n')"
    and "backend cfg = backend_of n" and "open_with_clock E ow cfg clk (node_disk d n') = (Inr n'', d'')"
  shows "(\<exists>l''. node_ok E fv fi fd ft n'' l'')
    \<and> (same_data (contents fv n'') ((contents fv n)(k := None))
       \<or> same_data (contents fv n'') (contents fv n) \<and> r \<noteq> Inr ())"
proof (rule open_after_crash [OF assms(1,2) _ _ _ assms(10)])
  show "values_ok (contents fv n)" using assms(3) by (simp add: node_ok_def)
  then show "values_ok ((contents fv n)(k := None))" by (rule values_ok_remove)
qed (use delete_disk [OF assms(1-6,8,7), of d] assms(9) in \<open>simp add: node_disk_def disk_of_def\<close>)

theorem node_delete_crash_atomic_witness:
  "let r = node_delete env_example world_failing node_example [7]
   in isl (fst r)
      \<and> (\<exists>n'' l''. fst (open_with_clock env_example open_example config_example (Manual 1000)
             (node_disk disk_example (snd r))) = Inr n''
           \<and> node_ok env_example ref_view ref_wf (\<lambda>s. dm_get (synced s)) (\<lambda>s. set (dirty s)) n'' l'')"
proof -
  let ?p = "node_delete env_example world_failing node_example [7]"
  let ?o = "open_with_clock env_example open_example config_example (Manual 1000) (node_disk disk_example (snd ?p))"
  have k: "\<not> bookkeeping [7]" by code_simp
  have "isl (fst ?o) = False" by code_simp
  then obtain n'' where o: "?o = (Inr n'', snd ?o)" by (cases "fst ?o") (auto simp: prod_eq_iff)
  have "isl (fst ?p)" by code_simp
  moreover have "backend config_example = backend_of node_example" by code_simp
  moreover have "length (segment (nwal node_example)) < 2 ^ 63"
    by (simp add: node_example_def segment_example HEADER_LEN_def)
  ultimately show ?thesis
    using node_delete_crash_atomic [OF example_ctx node_ok_example k, of world_failing "fst ?p" "snd ?p",
        OF _ _ _ _ _ o] totals_fit_example o
    by (auto simp: contents_example Let_def prod_eq_iff)
qed

text \<open>
  C5: a restart changes nothing a client sees. A node opened again on the disk of a running node,
  whose backend may have lost everything it had not persisted, has the same entries and the same
  usage of every tenant, and has everything a running node relies on.
\<close>

theorem node_restart_recovers:
  assumes "fjall_ok (fjall E) fv fi" and "fjall_durable (fjall E) fv fi fd ft"
    and "node_ok E fv fi fd ft n l" and "length (segment (nwal n)) < 2 ^ 64"
    and "backend cfg = backend_of n" and "open_with_clock E ow cfg clk (node_disk d n) = (Inr n', d')"
  shows "same_data (contents fv n') (contents fv n)
    \<and> (\<forall>t. used_bytes (nquotas n') t = used_bytes (nquotas n) t)
    \<and> (\<exists>l'. node_ok E fv fi fd ft n' l') \<and> config n' = cfg"
proof -
  have "disk_holds E fi fd ft (backend cfg) (node_disk d n) (contents fv n)"
    using node_ok_disk [OF assms(3,4) same_data_refl] assms(5) by simp
  moreover have "values_ok (contents fv n)" using assms(3) by (simp add: node_ok_def)
  ultimately have r: "same_data (contents fv n') (contents fv n)" "\<exists>l'. node_ok E fv fi fd ft n' l'"
    "config n' = cfg"
    using open_recovers [OF assms(1,2) _ _ assms(6)] by blast+
  have "tenant_bytes (contents fv n') t = tenant_bytes (contents fv n) t" for t
    using r assms(3) finite_contents [OF assms(1)] by (intro tenant_bytes_same_data) (auto simp: node_ok_def)
  then have "used_bytes (nquotas n') t = used_bytes (nquotas n) t" for t
    using r(2) assms(3) by (auto simp: node_ok_def usage_exact_def)
  then show ?thesis using r by blast
qed

theorem node_restart_recovers_witness:
  "\<exists>n' l'. fst (open_with_clock env_example open_example config_example (Manual 1000)
       (node_disk disk_example node_example)) = Inr n'
     \<and> node_ok env_example ref_view ref_wf (\<lambda>s. dm_get (synced s)) (\<lambda>s. set (dirty s)) n' l'"
proof -
  let ?o = "open_with_clock env_example open_example config_example (Manual 1000) (node_disk disk_example node_example)"
  have "isl (fst ?o) = False" by code_simp
  then obtain n' where o: "?o = (Inr n', snd ?o)" by (cases "fst ?o") (auto simp: prod_eq_iff)
  have "backend config_example = backend_of node_example" by code_simp
  moreover have "length (segment (nwal node_example)) < 2 ^ 64"
    by (simp add: node_example_def segment_example HEADER_LEN_def)
  ultimately show ?thesis
    using node_restart_recovers [OF example_ctx node_ok_example _ _ o] o by (auto simp: prod_eq_iff)
qed

text \<open>
  C4: the quota of a tenant is enforced exactly. A put that would take the tenant's stored bytes
  over its limit, and over what they are already, changes nothing at all; a put refused with a
  quota error was such a put, and the error names the tenant and its limit. A put that reports
  success left the tenant with exactly the bytes of its entries.
\<close>

theorem node_quota_enforced:
  assumes "fjall_ok (fjall E) fv fi" and "fjall_durable (fjall E) fv fi fd ft"
    and "node_ok E fv fi fd ft n l" and "data_owner k = Some t"
    and "length k < 2 ^ 32" and "length v + 9 < 2 ^ 32" and "rotate_safe (w_rotate w)"
    and "totals_fit (contents fv n)"
    and "totals_fit ((contents fv n)(k \<mapsto> value_encode v (expiry_of w n ttl)))"
    and "put_with_ttl E w n k v ttl = (r, n')"
  defines "before \<equiv> tenant_bytes (contents fv n) t"
    and "after \<equiv> tenant_bytes ((contents fv n)(k \<mapsto> value_encode v (expiry_of w n ttl))) t"
    and "limit \<equiv> unat (max_bytes (quota_of (nquotas n) t))"
  shows "(limit \<noteq> 0 \<and> before < after \<and> limit < after \<longrightarrow> r \<noteq> Inr () \<and> n' = n)
    \<and> (r = Inl (QuotaExceeded t' a b) \<longrightarrow>
         n' = n \<and> t' = t \<and> b = max_bytes (quota_of (nquotas n) t) \<and> limit \<noteq> 0 \<and> before < after \<and> limit < after)
    \<and> (r = Inr () \<longrightarrow> unat (used_bytes (nquotas n') t) = after)"
proof -
  let ?m = "contents fv n" and ?x = "value_encode v (expiry_of w n ttl)"
  have wf: "backend_wf fi (store n)" and u: "usage_exact ?m (nquotas n)" using assms(3) by (simp_all add: node_ok_def)
  have plan: "acc = plan_for ?m k (Some ?x)" if "plan_accounting E n k (length v) = Inr acc" for acc
    using plan_accounting_Inr [OF assms(1) wf that] .
  obtain p where p: "plan_for ?m k (Some ?x) = Some p" using assms(4) by (simp add: plan_for_def)
  note c = check_write_plan [OF u finite_contents [OF assms(1) wf] assms(8,9,4) p]
  have over: "check_write (nquotas n) t (delta p) \<noteq> Inr () \<longleftrightarrow> limit \<noteq> 0 \<and> before < after \<and> limit < after"
    using c by (auto simp: before_def after_def limit_def unat_eq_0)
  have "r \<noteq> Inr () \<and> n' = n" if o: "limit \<noteq> 0 \<and> before < after \<and> limit < after"
  proof (cases "plan_accounting E n k (length v)")
    case (Inl e)
    with assms(10) show ?thesis by (auto simp: put_with_ttl_def)
  next
    case (Inr acc)
    obtain e where "check_write (nquotas n) t (delta p) = Inl e"
      using o over by (cases "check_write (nquotas n) t (delta p)") auto
    with put_refused [of E n k v p e w ttl] Inr plan [OF Inr] p c assms(10) show ?thesis by simp
  qed
  moreover have "n' = n \<and> t' = t \<and> b = max_bytes (quota_of (nquotas n) t) \<and> limit \<noteq> 0 \<and> before < after \<and> limit < after"
    if q: "r = Inl (QuotaExceeded t' a b)"
  proof -
    obtain p' where p': "plan_accounting E n k (length v) = Inr (Some p')"
      "check_write (nquotas n) (acc_tenant p') (delta p') = Inl (QuotaExceeded t' a b)"
      using put_quota_error assms(10) q by blast
    with plan [OF p'(1)] p c have "check_write (nquotas n) t (delta p) = Inl (QuotaExceeded t' a b)" by simp
    with put_refused [OF p', of w ttl] assms(10) over check_write_error [of "nquotas n" t "delta p"] show ?thesis by auto
  qed
  moreover have "unat (used_bytes (nquotas n') t) = after" if "r = Inr ()"
  proof -
    have "put_with_ttl E w n k v ttl = (Inr (), n')" using assms(10) that by simp
    then obtain l' where ok: "node_ok E fv fi fd ft n' l'" and sd: "same_data (contents fv n') (?m(k \<mapsto> ?x))"
      using put_ok [OF assms(1-3) data_owner_not_bookkeeping [OF assms(4)] assms(5,6) _ assms(7-9)] by blast
    have "tenant_bytes (contents fv n') t = after"
      unfolding after_def using ok finite_contents [OF assms(1)] wf
      by (intro tenant_bytes_same_data [OF sd]) (auto simp: node_ok_def)
    moreover have "after < 2 ^ 63" using assms(9) by (simp add: after_def totals_fit_def)
    ultimately show ?thesis using ok by (simp add: node_ok_def usage_exact_def unat_u64_of_nat)
  qed
  ultimately show ?thesis by blast
qed

theorem node_quota_enforced_witness:
  "fst (put_with_ttl env_example world_example node_limited (raw_key [0x61] Data []) [1, 2, 3, 4, 5] 0) \<noteq> Inr ()
   \<and> snd (put_with_ttl env_example world_example node_limited (raw_key [0x61] Data []) [1, 2, 3, 4, 5] 0) = node_limited"
proof -
  let ?k = "raw_key [0x61] Data []"
  let ?p = "put_with_ttl env_example world_example node_limited ?k [1, 2, 3, 4, 5] 0"
  have t: "tenant_ok [0x61]" by (simp add: tenant_ok_def MAX_TENANT_LEN_def)
  have e: "expiry_of world_example node_limited 0 = None" by (simp add: expiry_of_def)
  have l: "unat (max_bytes (quota_of (nquotas node_limited) [0x61])) = 4" by code_simp
  have b: "tenant_bytes (Map.empty(?k \<mapsto> value_encode [1, 2, 3, 4, 5] None)) [0x61] = 5"
    using t by (simp add: tenant_bytes_def map_total_def data_owner_def charge_def)
  have ok: "node_ok env_example ref_view ref_wf (\<lambda>s. dm_get (synced s)) (\<lambda>s. set (dirty s)) node_limited
      \<lparr>base = 3, entries = []\<rparr>"
    using node_ok_example
    by (simp add: node_ok_def node_limited_def contents_def usage_exact_def node_example_def used_bytes_def
        quota_store_new_def)
  have c: "contents ref_view node_limited = Map.empty"
    using contents_example by (simp add: contents_def node_limited_def)
  show ?thesis
    using node_quota_enforced [OF example_ctx ok, of ?k "[0x61]" "[1, 2, 3, 4, 5]" world_example 0 "fst ?p" "snd ?p"]
      totals_fit_example t l b rotate_safe_example raw_key_example
    by (simp add: c e data_owner_def tenant_bytes_def [of Map.empty])
qed

text \<open>
  C36: a put that fails in the backend after its record went into the log is reported as an error,
  and yet applied by the next start: the log is replayed over the backend.
\<close>

theorem node_put_error_applied_on_restart:
  assumes "fjall_ok (fjall E) fv fi" and "fjall_durable (fjall E) fv fi fd ft"
    and "node_ok E fv fi fd ft n l" and "\<not> bookkeeping k"
    and "length k < 2 ^ 32" and "length v + 9 < 2 ^ 32" and "length (segment (nwal n)) < 2 ^ 63"
    and "put_with_ttl E w n k v ttl = (Inl (Storage e), n')" and "next_seq (winner (nwal n')) \<noteq> next_seq (winner (nwal n))"
    and "backend cfg = backend_of n" and "open_with_clock E ow cfg clk (node_disk d n') = (Inr n'', d'')"
  shows "same_data (contents fv n'') ((contents fv n)(k \<mapsto> value_encode v (expiry_of w n ttl)))"
proof -
  let ?raw = "value_encode v (expiry_of w n ttl)"
  have wf: "backend_wf fi (store n)" and vo: "values_ok (contents fv n)" using assms(3) by (simp_all add: node_ok_def)
  have lr: "length ?raw < 2 ^ 32" using assms(6) by (simp add: length_value_encode split: option.split)
  from assms(8) obtain sq wl s where
    a: "append (crc32 E) (w_append w) (nwal n) wal_op.Put k ?raw = (Inr sq, wl)"
    and p: "backend_put (fjall E) (store n) k ?raw = (Inl (Storage e), s)"
    and n': "n' = n\<lparr>nwal := wl, store := s\<rparr>"
    using put_logged_error assms(9) by blast
  have "backend_wf fi s" using storage.put_any [OF backend_storage [OF assms(1)] wf p] by simp
  then have "disk_holds E fi fd ft (backend cfg) (node_disk d n') ((contents fv n)(k \<mapsto> ?raw))"
    using failed_store_disk [OF assms(3,5) lr assms(7) a _ _ _ crash_map_put [OF assms(2) wf p], of "Some ?raw" s d]
      backend_put_durable [OF p] n' assms(10) by simp
  from open_recovers [OF assms(1,2) this values_ok_put [OF vo] assms(11)] show ?thesis by blast
qed

theorem node_put_error_applied_on_restart_witness:
  "let r = put_with_ttl env_poisoned world_example node_example (raw_key [0x61] Data []) [5] 0
   in fst r = Inl (Storage ''Poisoned'')
      \<and> (\<exists>n''. fst (open_with_clock env_poisoned open_example config_example (Manual 1000)
             (node_disk disk_example (snd r))) = Inr n''
           \<and> contents ref_view n'' (raw_key [0x61] Data []) = Some (value_encode [5] None))"
proof -
  let ?k = "raw_key [0x61] Data []"
  let ?p = "put_with_ttl env_poisoned world_example node_example ?k [5] 0"
  let ?o = "open_with_clock env_poisoned open_example config_example (Manual 1000) (node_disk disk_example (snd ?p))"
  have k: "\<not> bookkeeping ?k" by (simp add: tenant_ok_def MAX_TENANT_LEN_def)
  have r: "fst ?p = Inl (Storage ''Poisoned'')" "next_seq (winner (nwal (snd ?p))) = 4"
    "next_seq (winner (nwal node_example)) = 3" "store (snd ?p) = Fjall \<lparr>live = [], synced = [], dirty = [?k]\<rparr>"
    by code_simp+
  have p: "?p = (Inl (Storage ''Poisoned''), snd ?p)" using r(1) by (metis prod.collapse)
  have lv: "length (value_encode [5] None) < 2 ^ 32" by (simp add: length_value_encode)
  obtain sq where a: "append (crc32 env_poisoned) (w_append world_example) (nwal node_example) wal_op.Put ?k
      (value_encode [5] None) = (Inr sq, nwal (snd ?p))"
    using put_logged_error [OF p] r(2,3) by (fastforce simp: expiry_of_def)
  have ex: "wal_holds (crc32 env_poisoned) (nwal node_example) \<lparr>base = 3, entries = []\<rparr>"
    using node_ok_poisoned by (simp add: node_ok_def)
  have "length (segment (nwal (snd ?p))) < 2 ^ 64"
    using append_segment [OF ex raw_key_example lv _ a] by (simp add: node_example_def segment_example HEADER_LEN_def)
  then obtain n'' where o: "?o = (Inr n'', snd ?o)"
    using open_poisoned [OF r(4)] append_ok [OF ex raw_key_example lv a]
    by (fastforce simp: log_append_def log_next_def prod_eq_iff)
  have "backend config_example = backend_of node_example" by code_simp
  moreover have "length (segment (nwal node_example)) < 2 ^ 63"
    by (simp add: node_example_def segment_example HEADER_LEN_def)
  ultimately have "same_data (contents ref_view n'') (Map.empty(?k \<mapsto> value_encode [5] (expiry_of world_example node_example 0)))"
    using node_put_error_applied_on_restart [OF poisoned_ctx node_ok_poisoned k raw_key_example,
        of "[5]" world_example 0 "''Poisoned''" "snd ?p", OF _ _ _ _ _ o] r
    by (simp add: contents_example prod_eq_iff)
  with k o r(1) show ?thesis by (auto simp: same_data_def Let_def prod_eq_iff expiry_of_def)
qed

text \<open>
  C16: the scans answer exactly the live entries of their range or prefix, with the values the
  clients stored, by increasing key and each key once.
\<close>

theorem node_scan_exact:
  assumes "fjall_ok (fjall E) fv fi" and "node_ok E fv fi fd ft n l"
  shows "(node_scan_range E w n a b = Inr xs \<longrightarrow>
      lists_entries (live_at (contents fv n) (now_ms (w_time w) (nclock n))) (\<lambda>k. a \<le> k \<and> k < b) xs)
    \<and> (node_scan E w n p = Inr ys \<longrightarrow> lists_entries (live_at (contents fv n) (now_ms (w_time w) (nclock n))) (prefix p) ys)"
proof -
  note st = backend_storage [OF assms(1)]
  have wf: "backend_wf fi (store n)" using assms(2) by (simp add: node_ok_def)
  show ?thesis
    using storage.scan_range_lists [OF st wf, of a b] storage.scan_lists [OF st wf, of p]
    by (auto simp: node_scan_range_def node_scan_def map_sum_eq_Inr_iff contents_def
        intro!: filter_scan_lists)
qed

theorem node_scan_exact_witness:
  "lists_entries (live_at Map.empty 1000) (prefix [1])
     (case node_scan env_example world_example node_example [1] of Inr xs \<Rightarrow> xs | Inl _ \<Rightarrow> [])"
proof -
  have "node_scan env_example world_example node_example [1] = Inr []" by code_simp
  moreover have "now_ms (w_time world_example) (nclock node_example) = 1000" by code_simp
  ultimately show ?thesis
    using node_scan_exact [OF example_ctx(1) node_ok_example, of world_example "[]" "[]" "[]" "[1]" "[]"]
    by (simp add: contents_example)
qed



end
