(* ===== verification/Auth.thy ===== *)
theory Auth
  imports Core_Types
begin

text \<open>
  The crate \<^verbatim>\<open>ferriskv-auth\<close>: the claims of a token and their permissions, the verifier of
  tokens, permission bits and role sets, and the store of API keys. The crates \<open>jsonwebtoken\<close> and
  \<open>blake3\<close> are parameters; what the verifier relies on is \<open>jwt_ok\<close>.
\<close>

section \<open>Definitions\<close>

subsection \<open>rbac.rs\<close>

datatype permission = Read | Write | Delete | Admin | Watch

fun permission_bit :: "permission \<Rightarrow> u8" where
  "permission_bit Read = 1"
| "permission_bit Write = 2"
| "permission_bit Delete = 4"
| "permission_bit Admin = 8"
| "permission_bit Watch = 16"

record role =
  role_name :: str
  permissions :: u8

definition role_new :: "str \<Rightarrow> permission list \<Rightarrow> role" where
  "role_new name perms =
     \<lparr>role_name = name, permissions = fold (\<lambda>p bits. bits OR permission_bit p) perms 0\<rparr>"

definition role_allows :: "role \<Rightarrow> permission \<Rightarrow> bool" where
  "role_allows r p \<longleftrightarrow> permissions r AND permission_bit p \<noteq> 0"

record role_set =
  set_roles :: "role list"

definition role_set_new :: "role list \<Rightarrow> role_set" where
  "role_set_new rs = \<lparr>set_roles = rs\<rparr>"

definition role_set_allows :: "role_set \<Rightarrow> permission \<Rightarrow> bool" where
  "role_set_allows s p \<longleftrightarrow> list_ex (\<lambda>r. role_allows r p) (set_roles s)"

definition role_set_add :: "role_set \<Rightarrow> role \<Rightarrow> role_set" where
  "role_set_add s r = s\<lparr>set_roles := set_roles s @ [r]\<rparr>"

subsection \<open>jwt.rs\<close>

record claims =
  claims_sub :: str
  claims_tenant :: str
  claims_roles :: "str list"
  claims_perms :: "str list"
  claims_exp :: u64
  claims_iss :: "str option"

definition claims_allows :: "claims \<Rightarrow> str \<Rightarrow> bool" where
  "claims_allows c perm \<longleftrightarrow> list_ex (\<lambda>p. p = lit ''admin'' \<or> p = perm) (claims_perms c)"

text \<open>The crate \<open>jsonwebtoken\<close>, with keys \<open>'k\<close>; decoding reads the time.\<close>

datatype algorithm = HS256 | RS256

datatype jwt_error_kind = ExpiredSignature | OtherKind

record jwt_error =
  jwt_kind :: jwt_error_kind
  jwt_text :: string

record 'k jwt_api =
  from_secret :: "bytes \<Rightarrow> 'k"
  from_rsa_pem :: "bytes \<Rightarrow> jwt_error + 'k"
  jwt_decode :: "system_time \<Rightarrow> str \<Rightarrow> 'k \<Rightarrow> algorithm \<Rightarrow> jwt_error + claims"

datatype auth_error =
    InvalidToken string
  | Expired
  | Forbidden permission
  | UnknownApiKey
  | Jwt jwt_error

fun permission_debug :: "permission \<Rightarrow> string" where
  "permission_debug Read = ''Read''"
| "permission_debug Write = ''Write''"
| "permission_debug Delete = ''Delete''"
| "permission_debug Admin = ''Admin''"
| "permission_debug Watch = ''Watch''"

fun auth_error_display :: "auth_error \<Rightarrow> string" where
  "auth_error_display (InvalidToken s) = ''invalid token: '' @ s"
| "auth_error_display Expired = ''expired token''"
| "auth_error_display (Forbidden p) = ''forbidden: missing '' @ permission_debug p"
| "auth_error_display UnknownApiKey = ''unknown api key''"
| "auth_error_display (Jwt e) = ''jwt: '' @ jwt_text e"

record 'k jwt_verifier =
  vkey :: 'k
  validation :: algorithm

definition new_hs256 :: "'k jwt_api \<Rightarrow> bytes \<Rightarrow> 'k jwt_verifier" where
  "new_hs256 J secret = \<lparr>vkey = from_secret J secret, validation = HS256\<rparr>"

definition new_rs256 :: "'k jwt_api \<Rightarrow> bytes \<Rightarrow> auth_error + 'k jwt_verifier" where
  "new_rs256 J pem =
     (case from_rsa_pem J pem of
        Inl e \<Rightarrow> Inl (Jwt e)
      | Inr k \<Rightarrow> Inr \<lparr>vkey = k, validation = RS256\<rparr>)"

definition jwt_verify :: "'k jwt_api \<Rightarrow> system_time \<Rightarrow> 'k jwt_verifier \<Rightarrow> str \<Rightarrow> auth_error + claims" where
  "jwt_verify J t v token =
     (case jwt_decode J t token (vkey v) (validation v) of
        Inl e \<Rightarrow> Inl (case jwt_kind e of ExpiredSignature \<Rightarrow> Expired | OtherKind \<Rightarrow> InvalidToken (jwt_text e))
      | Inr c \<Rightarrow> Inr c)"

text \<open>
  What \<open>jsonwebtoken\<close> documents of \<open>decode\<close> with the default validation: the claims it returns are
  those of a token that carries a signature by the key under the algorithm, \<open>issued\<close>, and their
  expiry is not more than the leeway of 60 seconds in the past.
\<close>

definition jwt_ok :: "'k jwt_api \<Rightarrow> ('k \<Rightarrow> algorithm \<Rightarrow> str \<Rightarrow> claims \<Rightarrow> bool) \<Rightarrow> bool" where
  "jwt_ok J issued \<longleftrightarrow>
     (\<forall>t token k a c. jwt_decode J t token k a = Inr c \<longrightarrow>
        issued k a token c \<and> t \<le> (int (unat (claims_exp c)) + 60) * 1000)"

subsection \<open>api_key.rs\<close>

record api_key =
  api_id :: str
  api_tenant :: str
  hashed :: bytes
  api_roles :: role_set

record api_key_store =
  by_hash :: "(bytes, api_key) dashmap"

definition api_key_store_new :: api_key_store where
  "api_key_store_new = \<lparr>by_hash = []\<rparr>"

definition api_key_insert :: "api_key_store \<Rightarrow> api_key \<Rightarrow> api_key_store" where
  "api_key_insert st key = st\<lparr>by_hash := dm_insert (hashed key) key (by_hash st)\<rparr>"

definition api_key_verify :: "(bytes \<Rightarrow> bytes) \<Rightarrow> api_key_store \<Rightarrow> str \<Rightarrow> auth_error + api_key" where
  "api_key_verify blake3 st raw =
     (case dm_get (by_hash st) (blake3 raw) of
        Some key \<Rightarrow> Inr key
      | None \<Rightarrow> Inl UnknownApiKey)"

text \<open>A store after a sequence of insertions, and the key an insertion last put under a hash.\<close>

definition api_key_inserts :: "api_key list \<Rightarrow> api_key_store" where
  "api_key_inserts keys = fold (\<lambda>k st. api_key_insert st k) keys api_key_store_new"

section \<open>Lemmas\<close>

lemma permission_bit_and: "permission_bit p AND permission_bit q \<noteq> 0 \<longleftrightarrow> p = q"
  by (cases p; cases q) simp_all

lemma fold_permission_bits:
  "fold (\<lambda>p bits. bits OR permission_bit p) perms b AND permission_bit q = 0 \<longleftrightarrow>
     b AND permission_bit q = 0 \<and> q \<notin> set perms"
proof (induction perms arbitrary: b)
  case (Cons p ps)
  have "(b OR permission_bit p) AND permission_bit q = 0 \<longleftrightarrow>
      b AND permission_bit q = 0 \<and> permission_bit p AND permission_bit q = 0"
    by (simp add: bit.conj_disj_distrib2 or_eq_0_iff)
  with Cons.IH [of "b OR permission_bit p"] permission_bit_and [of p q] show ?case by auto
qed simp

lemma role_allows_new [simp]: "role_allows (role_new name perms) p \<longleftrightarrow> p \<in> set perms"
  using fold_permission_bits [of perms 0 p] by (simp add: role_allows_def role_new_def)

lemma dm_get_api_key_insert:
  "dm_get (by_hash (api_key_insert st key)) h = (if h = hashed key then Some key else dm_get (by_hash st) h)"
  by (simp add: api_key_insert_def dashmap_simps)

lemma api_key_inserts_snoc [simp]: "api_key_inserts (keys @ [k]) = api_key_insert (api_key_inserts keys) k"
  by (simp add: api_key_inserts_def)

lemma dm_get_api_key_inserts:
  "dm_get (by_hash (api_key_inserts keys)) h = find (\<lambda>k. hashed k = h) (rev keys)"
proof (induction keys rule: rev_induct)
  case Nil
  then show ?case by (simp add: api_key_inserts_def api_key_store_new_def dm_get_def)
qed (auto simp: dm_get_api_key_insert)

section \<open>Properties\<close>

text \<open>
  Permissions are exactly what was granted. A role allows a permission if and only if it was
  built with it, whatever order and however often; a set of roles allows what some role of it
  allows, and adding a role adds exactly its permissions.
\<close>

theorem roles_grant_exactly:
  "(role_allows (role_new name perms) p \<longleftrightarrow> p \<in> set perms)
   \<and> (role_set_allows (role_set_add s (role_new name perms)) p \<longleftrightarrow> role_set_allows s p \<or> p \<in> set perms)
   \<and> (role_set_allows (role_set_new []) p \<longleftrightarrow> False)"
  by (simp add: role_set_allows_def role_set_add_def role_set_new_def)

text \<open>
  An API key is accepted exactly when its hash was registered, and the tenant and roles it
  gives are those of the last registration under that hash.
\<close>

theorem api_key_verify_exact:
  "api_key_verify blake3 (api_key_inserts keys) raw =
     (case find (\<lambda>k. hashed k = blake3 raw) (rev keys) of Some k \<Rightarrow> Inr k | None \<Rightarrow> Inl UnknownApiKey)"
  by (simp add: api_key_verify_def dm_get_api_key_inserts)

end
