(* ===== verification/Auth_Layer.thy ===== *)
theory Auth_Layer
  imports Auth Key_Codec
begin

text \<open>
  Who a request comes from: \<^verbatim>\<open>ferriskv-node/src/auth_layer.rs\<close>, the interceptor every request
  passes before its handler, and \<^verbatim>\<open>audit.rs\<close>, the trail of the writes. A \<open>Status\<close> of \<open>tonic\<close> is
  its code and its message; a message is a literal text or the rendering of an error.
\<close>

section \<open>Definitions\<close>

subsection \<open>Status and request\<close>

datatype code =
    InvalidArgument
  | Not_Found
  | PermissionDenied
  | ResourceExhausted
  | FailedPrecondition
  | Internal
  | DataLoss
  | Unauthenticated

datatype message = Text string | To_string error

record status =
  st_code :: code
  st_message :: message

definition status_text :: "code \<Rightarrow> string \<Rightarrow> status" where
  "status_text c s = \<lparr>st_code = c, st_message = Text s\<rparr>"

subsection \<open>auth_layer.rs\<close>

datatype principal = Anonymous | Authenticated claims

fun principal_tenant :: "principal \<Rightarrow> str option" where
  "principal_tenant Anonymous = None"
| "principal_tenant (Authenticated c) = Some (claims_tenant c)"

fun principal_allows :: "principal \<Rightarrow> str \<Rightarrow> bool" where
  "principal_allows Anonymous perm = True"
| "principal_allows (Authenticated c) perm = claims_allows c perm"

text \<open>
  A request: the value of its \<open>authorization\<close> header, the principal in its extensions, its message.
\<close>

record 'a rpc =
  authorization :: "bytes option"
  extension :: "principal option"
  body :: 'a

record 'k auth_interceptor =
  ic_verifier :: "'k jwt_verifier option"
  ic_insecure :: bool

definition interceptor_insecure :: "'k auth_interceptor" where
  "interceptor_insecure = \<lparr>ic_verifier = None, ic_insecure = True\<rparr>"

definition with_verifier :: "'k jwt_verifier \<Rightarrow> 'k auth_interceptor" where
  "with_verifier v = \<lparr>ic_verifier = Some v, ic_insecure = False\<rparr>"

definition str_strip_prefix :: "str \<Rightarrow> str \<Rightarrow> str option" where
  "str_strip_prefix p s = (if prefix p s then Some (drop (length p) s) else None)"

definition bearer_token :: "str \<Rightarrow> str option" where
  "bearer_token raw =
     (case str_strip_prefix (lit ''Bearer '') raw of
        Some token \<Rightarrow> Some token
      | None \<Rightarrow> str_strip_prefix (lit ''bearer '') raw)"

text \<open>\<open>to_str\<close> is \<open>MetadataValue::to_str\<close> of \<open>tonic\<close>.\<close>

definition auth_call ::
    "'k jwt_api \<Rightarrow> (bytes \<Rightarrow> str option) \<Rightarrow> system_time \<Rightarrow> 'k auth_interceptor \<Rightarrow> 'a rpc \<Rightarrow> status + 'a rpc" where
  "auth_call J to_str t ic req =
     (if ic_insecure ic then Inr (req\<lparr>extension := Some Anonymous\<rparr>)
      else
     (case ic_verifier ic of
        None \<Rightarrow> Inl (status_text Internal ''auth misconfigured: no verifier'')
      | Some v \<Rightarrow>
     (case authorization req of
        None \<Rightarrow> Inl (status_text Unauthenticated ''missing authorization header'')
      | Some header \<Rightarrow>
     (case to_str header of
        None \<Rightarrow> Inl (status_text Unauthenticated ''authorization header is not ASCII'')
      | Some raw \<Rightarrow>
     (case bearer_token raw of
        None \<Rightarrow> Inl (status_text Unauthenticated ''authorization must start with Bearer'')
      | Some token \<Rightarrow>
     (case jwt_verify J t v token of
        Inl e \<Rightarrow> Inl (status_text Unauthenticated (''invalid token: '' @ auth_error_display e))
      | Inr cl \<Rightarrow> Inr (req\<lparr>extension := Some (Authenticated cl)\<rparr>)))))))"

subsection \<open>audit.rs\<close>

definition TARGET :: string where
  "TARGET = ''ferriskv_audit''"

record audit_event =
  au_target :: string
  au_principal :: str
  au_tenant :: str
  au_op :: string
  au_key_hash :: string
  au_value_size :: usize

fun principal_label :: "principal \<Rightarrow> str" where
  "principal_label Anonymous = lit ''anonymous''"
| "principal_label (Authenticated c) = claims_sub c"

definition key_hash_of :: "(bytes \<Rightarrow> bytes) \<Rightarrow> bytes \<Rightarrow> bytes" where
  "key_hash_of blake3 key = take 8 (blake3 key)"

definition hex_digit :: "nat \<Rightarrow> char" where
  "hex_digit n = (if n < 10 then char_of (48 + n) else char_of (87 + n))"

definition key_hash_display :: "bytes \<Rightarrow> string" where
  "key_hash_display h = concat (map (\<lambda>b. [hex_digit (unat b div 16), hex_digit (unat b mod 16)]) h)"

definition audit_write ::
    "(bytes \<Rightarrow> bytes) \<Rightarrow> principal \<Rightarrow> str \<Rightarrow> string \<Rightarrow> bytes \<Rightarrow> usize \<Rightarrow> audit_event list \<Rightarrow> audit_event list" where
  "audit_write blake3 p tenant oper key value_size trail =
     trail @ [\<lparr>au_target = TARGET, au_principal = principal_label p, au_tenant = tenant, au_op = oper,
        au_key_hash = key_hash_display (key_hash_of blake3 key), au_value_size = value_size\<rparr>]"

subsection \<open>A reference verifier\<close>

text \<open>
  A token service for which the documentation of \<open>jsonwebtoken\<close> holds: the key is a list of tokens it
  issued, and a token is accepted until its expiry. It shows that the hypothesis can hold.
\<close>

definition jwt_reference :: "(str \<times> claims) list jwt_api" where
  "jwt_reference =
     \<lparr>from_secret = (\<lambda>_. []),
      from_rsa_pem = (\<lambda>_. Inr []),
      jwt_decode = (\<lambda>t token k a.
        case map_of k token of
          None \<Rightarrow> Inl \<lparr>jwt_kind = OtherKind, jwt_text = ''InvalidSignature''\<rparr>
        | Some c \<Rightarrow>
            if t \<le> int (unat (claims_exp c)) * 1000 then Inr c
            else Inl \<lparr>jwt_kind = ExpiredSignature, jwt_text = ''ExpiredSignature''\<rparr>)\<rparr>"

section \<open>Lemmas\<close>

lemma jwt_ok_reference: "jwt_ok jwt_reference (\<lambda>k a token c. map_of k token = Some c)"
  by (auto simp: jwt_ok_def jwt_reference_def split: option.splits if_splits)

lemma str_strip_prefix_Some_iff: "str_strip_prefix p s = Some r \<longleftrightarrow> s = p @ r"
  by (auto simp: str_strip_prefix_def prefix_def)

lemma jwt_verify_Inr_iff: "jwt_verify J t v token = Inr c \<longleftrightarrow> jwt_decode J t token (vkey v) (validation v) = Inr c"
  by (simp add: jwt_verify_def split: sum.split)

lemma bearer_token_Some_iff:
  "bearer_token raw = Some token \<longleftrightarrow> raw = lit ''Bearer '' @ token \<or> raw = lit ''bearer '' @ token"
  by (auto simp: bearer_token_def str_strip_prefix_def lit_def prefix_def split: option.split)

lemma auth_call_Inr_iff:
  "auth_call J to_str t ic req = Inr req' \<longleftrightarrow>
     ic_insecure ic \<and> req' = req\<lparr>extension := Some Anonymous\<rparr>
     \<or> \<not> ic_insecure ic \<and> (\<exists>v header raw token c.
          ic_verifier ic = Some v \<and> authorization req = Some header \<and> to_str header = Some raw
          \<and> bearer_token raw = Some token \<and> jwt_verify J t v token = Inr c
          \<and> req' = req\<lparr>extension := Some (Authenticated c)\<rparr>)"
  by (auto simp: auth_call_def split: option.splits sum.splits)

lemma auth_call_Inl_code:
  "auth_call J to_str t ic req = Inl s \<Longrightarrow>
     st_code s = (if ic_verifier ic = None then Internal else Unauthenticated)"
  by (auto simp: auth_call_def status_text_def split: option.splits sum.splits if_splits)

section \<open>Properties\<close>

text \<open>
  With a verifier installed, a request reaches its handler only with a principal read from a
  token that was issued under the verifier's key and algorithm and whose expiry is at most the
  leeway of a minute in the past; the rest of the request is passed on as it came. Everything else
  is answered \<open>Unauthenticated\<close>.
\<close>

theorem interceptor_admits_only_issued:
  assumes "jwt_ok J issued" and "ic = with_verifier v"
  shows "case auth_call J to_str t ic req of
      Inl s \<Rightarrow> st_code s = Unauthenticated
    | Inr req' \<Rightarrow> \<exists>raw token c. Option.bind (authorization req) to_str = Some raw
        \<and> (raw = lit ''Bearer '' @ token \<or> raw = lit ''bearer '' @ token)
        \<and> issued (vkey v) (validation v) token c \<and> t \<le> (int (unat (claims_exp c)) + 60) * 1000
        \<and> req' = req\<lparr>extension := Some (Authenticated c)\<rparr>"
proof (cases "auth_call J to_str t ic req")
  case (Inl s)
  with auth_call_Inl_code [OF Inl] assms(2) show ?thesis by (simp add: with_verifier_def)
next
  case (Inr req')
  then obtain header raw token c where "authorization req = Some header" "to_str header = Some raw"
    "bearer_token raw = Some token" "jwt_verify J t v token = Inr c"
    "req' = req\<lparr>extension := Some (Authenticated c)\<rparr>"
    using assms(2) by (auto simp: auth_call_Inr_iff with_verifier_def)
  moreover have "issued (vkey v) (validation v) token c \<and> t \<le> (int (unat (claims_exp c)) + 60) * 1000"
    using assms(1) calculation(4) unfolding jwt_verify_Inr_iff jwt_ok_def by blast
  ultimately show ?thesis
    unfolding Inr sum.case bearer_token_Some_iff
    by (intro exI [of _ raw] exI [of _ token] exI [of _ c] conjI) simp_all
qed

end
