(* ===== verification/Grpc.thy ===== *)
theory Grpc
  imports Node_Correctness Auth_Layer
begin

text \<open>
  The data service of a node, \<^verbatim>\<open>ferriskv-node/src/grpc.rs\<close>: request checks, the mapping of errors to
  statuses, the handlers of get, put, delete, scan, watch and batch, and what each call records. The
  stream of a watch is in the theory of streams.

  A handler takes the environment of the node, what the call reads of the world, the service and the
  request, and gives the answer and the service afterwards. \<open>attempt\<close> is the operator \<open>?\<close>: an error
  ends the handler with the service as it is.
\<close>

section \<open>Definitions\<close>

definition PERM_READ :: str where
  "PERM_READ = lit ''read''"

definition PERM_WRITE :: str where
  "PERM_WRITE = lit ''write''"

definition PERM_DELETE :: str where
  "PERM_DELETE = lit ''delete''"

definition PERM_WATCH :: str where
  "PERM_WATCH = lit ''watch''"

definition OP_PUT :: u32 where
  "OP_PUT = 1"

definition OP_DELETE :: u32 where
  "OP_DELETE = 2"

definition SCAN_CHUNK_SIZE :: usize where
  "SCAN_CHUNK_SIZE = 256"

text \<open>
  The service with what it emits: the audit trail and the calls counted by
  \<open>ferriskv_rpc_requests_total\<close>, as procedure, tenant and code.
\<close>

record ('f, 'l, 'c) grpc_api =
  svc :: "('f, 'l, 'c) node"
  trail :: "audit_event list"
  rpcs :: "(string \<times> str \<times> string) list"

definition grpc_new :: "('f, 'l, 'c) node \<Rightarrow> ('f, 'l, 'c) grpc_api" where
  "grpc_new n = \<lparr>svc = n, trail = [], rpcs = []\<rparr>"

definition attempt :: "(status + 'a) \<Rightarrow> 's \<Rightarrow> ('a \<Rightarrow> (status + 'b) \<times> 's) \<Rightarrow> (status + 'b) \<times> 's" where
  "attempt r s k = (case r of Inl e \<Rightarrow> (Inl e, s) | Inr x \<Rightarrow> k x)"

subsection \<open>Checks\<close>

definition enforce_key_size :: "('f, 'l, 'c) grpc_api \<Rightarrow> bytes \<Rightarrow> status + unit" where
  "enforce_key_size api key =
     (let m = max_key_size (limits (config (svc api)))
      in if length key > m then
           Inl (status_text InvalidArgument (''key size '' @ dec (length key) @ '' exceeds limit '' @ dec m))
         else Inr ())"

definition enforce_value_size :: "('f, 'l, 'c) grpc_api \<Rightarrow> bytes \<Rightarrow> status + unit" where
  "enforce_value_size api v =
     (let m = max_value_size (limits (config (svc api)))
      in if length v > m then
           Inl (status_text ResourceExhausted (''value size '' @ dec (length v) @ '' exceeds limit '' @ dec m))
         else Inr ())"

definition enforce_batch_size :: "('f, 'l, 'c) grpc_api \<Rightarrow> usize \<Rightarrow> status + unit" where
  "enforce_batch_size api n =
     (let m = max_batch_ops (limits (config (svc api)))
      in if n > m then
           Inl (status_text InvalidArgument (''batch size '' @ dec n @ '' exceeds limit '' @ dec m))
         else Inr ())"

definition cap_scan_limit :: "('f, 'l, 'c) grpc_api \<Rightarrow> u32 \<Rightarrow> u32" where
  "cap_scan_limit api requested =
     (let m = max_scan_limit (limits (config (svc api)))
      in if requested = 0 \<or> requested > m then m else requested)"

definition to_status :: "error \<Rightarrow> status" where
  "to_status e =
     \<lparr>st_code = (case e of
          NotFound _ \<Rightarrow> Not_Found
        | NotLeader _ \<Rightarrow> FailedPrecondition
        | UnknownTenant _ \<Rightarrow> Unauthenticated
        | NotOwner _ \<Rightarrow> FailedPrecondition
        | QuotaExceeded _ _ _ \<Rightarrow> ResourceExhausted
        | RateLimited _ _ \<Rightarrow> ResourceExhausted
        | Config _ \<Rightarrow> InvalidArgument
        | Corrupt _ \<Rightarrow> Internal
        | Storage _ \<Rightarrow> Internal
        | Io _ \<Rightarrow> Internal),
      st_message = To_string e\<rparr>"

definition check_tenant :: "str \<Rightarrow> status + unit" where
  "check_tenant t =
     (if t = [] then Inl (status_text InvalidArgument ''tenant must not be empty'')
      else if length t > 255 then Inl (status_text InvalidArgument ''tenant exceeds 255 bytes'')
      else Inr ())"

definition authorize :: "'a rpc \<Rightarrow> str \<Rightarrow> str \<Rightarrow> status + unit" where
  "authorize req tenant perm =
     (case extension req of
        None \<Rightarrow> Inl (status_text Internal ''auth layer missing'')
      | Some p \<Rightarrow>
          if (case principal_tenant p of Some claim_tenant \<Rightarrow> claim_tenant \<noteq> tenant | None \<Rightarrow> False) then
            Inl (status_text PermissionDenied (''tenant '' @ chars tenant @ '' not authorized for this principal''))
          else if \<not> principal_allows p perm then
            Inl (status_text PermissionDenied (''permission '' @ chars perm @ '' required''))
          else Inr ())"

definition encode_data_key :: "str \<Rightarrow> bytes \<Rightarrow> status + bytes" where
  "encode_data_key tenant payload = map_sum to_status id (key_encode tenant Data payload)"

record scan_bounds =
  sb_start :: bytes
  sb_end :: bytes
  strip_len :: usize

definition encode_data_scan_bounds :: "str \<Rightarrow> bytes \<Rightarrow> status + scan_bounds" where
  "encode_data_scan_bounds tenant user_prefix =
     (case encode_subspace_prefix tenant Data of
        Inl e \<Rightarrow> Inl (to_status e)
      | Inr sub_prefix \<Rightarrow>
          (let start = sub_prefix @ user_prefix
           in Inr \<lparr>sb_start = start, sb_end = next_prefix_bound start, strip_len = length sub_prefix\<rparr>))"

definition grpc_admit ::
    "('f, 'l, 'c) env \<Rightarrow> world \<Rightarrow> ('f, 'l, 'c) grpc_api \<Rightarrow> str \<Rightarrow> u32 \<Rightarrow> (status + unit) \<times> ('f, 'l, 'c) grpc_api" where
  "grpc_admit E w api tenant cost =
     (case admit E w (svc api) tenant cost of (r, n) \<Rightarrow> (map_sum to_status id r, api\<lparr>svc := n\<rparr>))"

subsection \<open>Messages\<close>

record key_request =
  rq_tenant :: str
  rq_key :: bytes

record put_request = key_request +
  rq_value :: bytes
  rq_ttl_ms :: u64

record scan_request =
  sq_tenant :: str
  sq_prefix :: bytes
  sq_limit :: u32

record watch_request =
  wq_tenant :: str
  wq_prefix :: bytes

record batch_op =
  bo_op :: u32
  bo_key :: bytes
  bo_value :: bytes

record batch_request =
  bq_tenant :: str
  bq_ops :: "batch_op list"

record get_response =
  gr_found :: bool
  gr_value :: bytes
  gr_version :: u64

subsection \<open>Handlers\<close>

definition get_impl ::
    "('f, 'l, 'c) env \<Rightarrow> world \<Rightarrow> ('f, 'l, 'c) grpc_api \<Rightarrow> key_request rpc \<Rightarrow>
     (status + get_response) \<times> ('f, 'l, 'c) grpc_api" where
  "get_impl E w api req =
     (let r = body req in
      attempt (check_tenant (rq_tenant r)) api (\<lambda>_.
      attempt (authorize req (rq_tenant r) PERM_READ) api (\<lambda>_.
      (case grpc_admit E w api (rq_tenant r) 1 of (a, api) \<Rightarrow>
      attempt a api (\<lambda>_.
      attempt (enforce_key_size api (rq_key r)) api (\<lambda>_.
      attempt (encode_data_key (rq_tenant r) (rq_key r)) api (\<lambda>k.
      attempt (map_sum to_status id (node_get E w (svc api) k)) api (\<lambda>v.
        (Inr (case v of
                Some v \<Rightarrow> \<lparr>gr_found = True, gr_value = v, gr_version = 0\<rparr>
              | None \<Rightarrow> \<lparr>gr_found = False, gr_value = [], gr_version = 0\<rparr>), api)))))))))"

definition principal_of :: "'a rpc \<Rightarrow> principal" where
  "principal_of req = (case extension req of Some p \<Rightarrow> p | None \<Rightarrow> Anonymous)"

text \<open>The calls of the service that change it, as the handlers make them.\<close>

definition api_put ::
    "('f, 'l, 'c) env \<Rightarrow> world \<Rightarrow> ('f, 'l, 'c) grpc_api \<Rightarrow> bytes \<Rightarrow> bytes \<Rightarrow> u64 \<Rightarrow>
     (status + unit) \<times> ('f, 'l, 'c) grpc_api" where
  "api_put E w api k v ttl =
     (case put_with_ttl E w (svc api) k v ttl of (r, n) \<Rightarrow> (map_sum to_status id r, api\<lparr>svc := n\<rparr>))"

definition api_delete ::
    "('f, 'l, 'c) env \<Rightarrow> world \<Rightarrow> ('f, 'l, 'c) grpc_api \<Rightarrow> bytes \<Rightarrow> (status + unit) \<times> ('f, 'l, 'c) grpc_api" where
  "api_delete E w api k =
     (case node_delete E w (svc api) k of (r, n) \<Rightarrow> (map_sum to_status id r, api\<lparr>svc := n\<rparr>))"

definition put_impl ::
    "('f, 'l, 'c) env \<Rightarrow> (bytes \<Rightarrow> bytes) \<Rightarrow> world \<Rightarrow> ('f, 'l, 'c) grpc_api \<Rightarrow> put_request rpc \<Rightarrow>
     (status + u64) \<times> ('f, 'l, 'c) grpc_api" where
  "put_impl E blake3 w api req =
     (let r = body req in
      attempt (check_tenant (rq_tenant r)) api (\<lambda>_.
      attempt (authorize req (rq_tenant r) PERM_WRITE) api (\<lambda>_.
      (case grpc_admit E w api (rq_tenant r) 1 of (a, api) \<Rightarrow>
      attempt a api (\<lambda>_.
      attempt (enforce_key_size api (rq_key r)) api (\<lambda>_.
      attempt (enforce_value_size api (rq_value r)) api (\<lambda>_.
      attempt (encode_data_key (rq_tenant r) (rq_key r)) api (\<lambda>k.
      (case api_put E w api k (rq_value r) (rq_ttl_ms r) of (p, api) \<Rightarrow>
      attempt p api (\<lambda>_.
        (Inr 0, api\<lparr>trail := audit_write blake3 (principal_of req) (rq_tenant r) ''put'' (rq_key r)
                    (length (rq_value r)) (trail api)\<rparr>)))))))))))"

definition delete_impl ::
    "('f, 'l, 'c) env \<Rightarrow> (bytes \<Rightarrow> bytes) \<Rightarrow> world \<Rightarrow> ('f, 'l, 'c) grpc_api \<Rightarrow> key_request rpc \<Rightarrow>
     (status + bool) \<times> ('f, 'l, 'c) grpc_api" where
  "delete_impl E blake3 w api req =
     (let r = body req in
      attempt (check_tenant (rq_tenant r)) api (\<lambda>_.
      attempt (authorize req (rq_tenant r) PERM_DELETE) api (\<lambda>_.
      (case grpc_admit E w api (rq_tenant r) 1 of (a, api) \<Rightarrow>
      attempt a api (\<lambda>_.
      attempt (enforce_key_size api (rq_key r)) api (\<lambda>_.
      attempt (encode_data_key (rq_tenant r) (rq_key r)) api (\<lambda>k.
      attempt (map_sum to_status id (node_get E w (svc api) k)) api (\<lambda>v.
      (case api_delete E w api k of (d, api) \<Rightarrow>
      attempt d api (\<lambda>_.
        (Inr (v \<noteq> None), api\<lparr>trail := audit_write blake3 (principal_of req) (rq_tenant r) ''delete'' (rq_key r) 0
                    (trail api)\<rparr>)))))))))))"

text \<open>
  The loop that cuts the entries into chunks. \<open>k.slice(strip_len..)\<close> panics on a key shorter than
  that: None.
\<close>

fun scan_chunks ::
    "usize \<Rightarrow> (bytes \<times> bytes) list \<Rightarrow> (bytes \<times> bytes) list \<Rightarrow> (bytes \<times> bytes) list list \<Rightarrow>
     (bytes \<times> bytes) list list option" where
  "scan_chunks strip [] current chunks = Some (if current = [] then chunks else chunks @ [current])"
| "scan_chunks strip ((k, v) # es) current chunks =
     (if length k < strip then None
      else
        (let current = current @ [(drop strip k, v)]
         in if length current \<ge> SCAN_CHUNK_SIZE then scan_chunks strip es [] (chunks @ [current])
            else scan_chunks strip es current chunks))"

text \<open>The answer of a scan is its chunks; None is the panic of the loop.\<close>

definition scan_impl ::
    "('f, 'l, 'c) env \<Rightarrow> world \<Rightarrow> ('f, 'l, 'c) grpc_api \<Rightarrow> scan_request rpc \<Rightarrow>
     (status + (bytes \<times> bytes) list list option) \<times> ('f, 'l, 'c) grpc_api" where
  "scan_impl E w api req =
     (let r = body req in
      attempt (check_tenant (sq_tenant r)) api (\<lambda>_.
      attempt (authorize req (sq_tenant r) PERM_READ) api (\<lambda>_.
      (case grpc_admit E w api (sq_tenant r) 1 of (a, api) \<Rightarrow>
      attempt a api (\<lambda>_.
      attempt (encode_data_scan_bounds (sq_tenant r) (sq_prefix r)) api (\<lambda>b.
      attempt (map_sum to_status id (node_scan_range E w (svc api) (sb_start b) (sb_end b))) api (\<lambda>es.
        (let limit = unat (cap_scan_limit api (sq_limit r))
         in (Inr (scan_chunks (strip_len b) (take limit es) [] []), api)))))))))"

text \<open>
  A watch stream starts from its subscription: see the theory of streams for its steps. Times of the
  runtime are milliseconds.
\<close>

record watch_state =
  ws_rx :: nat
  ws_prefix :: bytes
  ws_heartbeat :: nat
  ws_next_beat :: nat
  ws_tenant :: str

definition watch_impl ::
    "('f, 'l, 'c) env \<Rightarrow> world \<Rightarrow> nat \<Rightarrow> ('f, 'l, 'c) grpc_api \<Rightarrow> watch_request rpc \<Rightarrow>
     (status + watch_state) \<times> ('f, 'l, 'c) grpc_api" where
  "watch_impl E w now api req =
     (let r = body req in
      attempt (check_tenant (wq_tenant r)) api (\<lambda>_.
      attempt (authorize req (wq_tenant r) PERM_WATCH) api (\<lambda>_.
      (case grpc_admit E w api (wq_tenant r) 1 of (a, api) \<Rightarrow>
      attempt a api (\<lambda>_.
      attempt (enforce_key_size api (wq_prefix r)) api (\<lambda>_.
      (case subscribe (broadcast E) (hub (svc api)) (wq_tenant r) of (rx, h) \<Rightarrow>
        (let heartbeat = 1000 * unat (watch_heartbeat_secs (config (svc api)))
         in (Inr \<lparr>ws_rx = rx, ws_prefix = wq_prefix r, ws_heartbeat = heartbeat,
                  ws_next_beat = now + heartbeat, ws_tenant = wq_tenant r\<rparr>,
             api\<lparr>svc := (svc api)\<lparr>hub := h\<rparr>\<rparr>)))))))))"

text \<open>One operation of a batch, with what its call of the service reads of the world.\<close>

definition batch_op_impl ::
    "('f, 'l, 'c) env \<Rightarrow> (bytes \<Rightarrow> bytes) \<Rightarrow> world \<Rightarrow> principal \<Rightarrow> str \<Rightarrow> batch_op \<Rightarrow> ('f, 'l, 'c) grpc_api \<Rightarrow>
     (status + unit) \<times> ('f, 'l, 'c) grpc_api" where
  "batch_op_impl E blake3 w p tenant oper api =
     attempt (enforce_key_size api (bo_key oper)) api (\<lambda>_.
     attempt (if bo_op oper = OP_PUT then enforce_value_size api (bo_value oper) else Inr ()) api (\<lambda>_.
     attempt (encode_data_key tenant (bo_key oper)) api (\<lambda>k.
     (case (if bo_op oper = OP_PUT then map_prod (map_sum id (\<lambda>_. ''put'')) id (api_put E w api k (bo_value oper) 0)
            else if bo_op oper = OP_DELETE then map_prod (map_sum id (\<lambda>_. ''delete'')) id (api_delete E w api k)
            else (Inl (status_text InvalidArgument (''unknown op code '' @ dec (unat (bo_op oper)))), api)) of
        (d, api) \<Rightarrow>
          attempt d api (\<lambda>op_name.
            (Inr (), api\<lparr>trail := audit_write blake3 p tenant op_name (bo_key oper) (length (bo_value oper))
                (trail api)\<rparr>))))))"

fun batch_loop ::
    "('f, 'l, 'c) env \<Rightarrow> (bytes \<Rightarrow> bytes) \<Rightarrow> (nat \<Rightarrow> world) \<Rightarrow> principal \<Rightarrow> str \<Rightarrow> batch_op list \<Rightarrow>
     ('f, 'l, 'c) grpc_api \<Rightarrow> (status + unit) \<times> ('f, 'l, 'c) grpc_api" where
  "batch_loop E blake3 ws p tenant [] api = (Inr (), api)"
| "batch_loop E blake3 ws p tenant (oper # ops) api =
     (case batch_op_impl E blake3 (ws 0) p tenant oper api of
        (Inl e, api) \<Rightarrow> (Inl e, api)
      | (Inr _, api) \<Rightarrow> batch_loop E blake3 (\<lambda>i. ws (i + 1)) p tenant ops api)"

text \<open>\<open>u32::try_from(n).unwrap_or(u32::MAX)\<close>\<close>

definition batch_cost :: "usize \<Rightarrow> u32" where
  "batch_cost n = (if n < 2 ^ 32 then word_of_nat n else - 1)"

definition batch_impl ::
    "('f, 'l, 'c) env \<Rightarrow> (bytes \<Rightarrow> bytes) \<Rightarrow> world \<Rightarrow> (nat \<Rightarrow> world) \<Rightarrow> ('f, 'l, 'c) grpc_api \<Rightarrow> batch_request rpc \<Rightarrow>
     (status + bool) \<times> ('f, 'l, 'c) grpc_api" where
  "batch_impl E blake3 w ws api req =
     (let r = body req;
          tenant = bq_tenant r;
          needs_write = list_ex (\<lambda>oper. bo_op oper = OP_PUT) (bq_ops r);
          needs_delete = list_ex (\<lambda>oper. bo_op oper = OP_DELETE) (bq_ops r)
      in
      attempt (check_tenant tenant) api (\<lambda>_.
      attempt (if needs_write then authorize req tenant PERM_WRITE else Inr ()) api (\<lambda>_.
      attempt (if needs_delete then authorize req tenant PERM_DELETE else Inr ()) api (\<lambda>_.
      attempt (enforce_batch_size api (length (bq_ops r))) api (\<lambda>_.
      (case grpc_admit E w api tenant (batch_cost (length (bq_ops r))) of (a, api) \<Rightarrow>
      attempt a api (\<lambda>_.
      (case batch_loop E blake3 ws (principal_of req) tenant (bq_ops r) api of (b, api) \<Rightarrow>
      attempt b api (\<lambda>_. (Inr True, api))))))))))"

subsection \<open>The service trait\<close>

fun code_label :: "code \<Rightarrow> string" where
  "code_label InvalidArgument = ''InvalidArgument''"
| "code_label Not_Found = ''NotFound''"
| "code_label PermissionDenied = ''PermissionDenied''"
| "code_label ResourceExhausted = ''ResourceExhausted''"
| "code_label FailedPrecondition = ''FailedPrecondition''"
| "code_label Internal = ''Internal''"
| "code_label DataLoss = ''DataLoss''"
| "code_label Unauthenticated = ''Unauthenticated''"

definition record_rpc :: "string \<Rightarrow> str \<Rightarrow> (status + 'a) \<times> ('f, 'l, 'c) grpc_api \<Rightarrow> (status + 'a) \<times> ('f, 'l, 'c) grpc_api" where
  "record_rpc rpc tenant res =
     (case res of (r, api) \<Rightarrow>
        (let label = (case r of Inl s \<Rightarrow> code_label (st_code s) | Inr _ \<Rightarrow> ''Ok'')
         in (r, api\<lparr>rpcs := rpcs api @ [(rpc, tenant, label)]\<rparr>)))"

definition rpc_get ::
    "('f, 'l, 'c) env \<Rightarrow> world \<Rightarrow> ('f, 'l, 'c) grpc_api \<Rightarrow> key_request rpc \<Rightarrow>
     (status + get_response) \<times> ('f, 'l, 'c) grpc_api" where
  "rpc_get E w api req = record_rpc ''get'' (rq_tenant (body req)) (get_impl E w api req)"

definition rpc_put ::
    "('f, 'l, 'c) env \<Rightarrow> (bytes \<Rightarrow> bytes) \<Rightarrow> world \<Rightarrow> ('f, 'l, 'c) grpc_api \<Rightarrow> put_request rpc \<Rightarrow>
     (status + u64) \<times> ('f, 'l, 'c) grpc_api" where
  "rpc_put E blake3 w api req = record_rpc ''put'' (rq_tenant (body req)) (put_impl E blake3 w api req)"

definition rpc_delete ::
    "('f, 'l, 'c) env \<Rightarrow> (bytes \<Rightarrow> bytes) \<Rightarrow> world \<Rightarrow> ('f, 'l, 'c) grpc_api \<Rightarrow> key_request rpc \<Rightarrow>
     (status + bool) \<times> ('f, 'l, 'c) grpc_api" where
  "rpc_delete E blake3 w api req = record_rpc ''delete'' (rq_tenant (body req)) (delete_impl E blake3 w api req)"

definition rpc_scan ::
    "('f, 'l, 'c) env \<Rightarrow> world \<Rightarrow> ('f, 'l, 'c) grpc_api \<Rightarrow> scan_request rpc \<Rightarrow>
     (status + (bytes \<times> bytes) list list option) \<times> ('f, 'l, 'c) grpc_api" where
  "rpc_scan E w api req = record_rpc ''scan'' (sq_tenant (body req)) (scan_impl E w api req)"

definition rpc_watch ::
    "('f, 'l, 'c) env \<Rightarrow> world \<Rightarrow> nat \<Rightarrow> ('f, 'l, 'c) grpc_api \<Rightarrow> watch_request rpc \<Rightarrow>
     (status + watch_state) \<times> ('f, 'l, 'c) grpc_api" where
  "rpc_watch E w now api req = record_rpc ''watch'' (wq_tenant (body req)) (watch_impl E w now api req)"

definition rpc_batch ::
    "('f, 'l, 'c) env \<Rightarrow> (bytes \<Rightarrow> bytes) \<Rightarrow> world \<Rightarrow> (nat \<Rightarrow> world) \<Rightarrow> ('f, 'l, 'c) grpc_api \<Rightarrow> batch_request rpc \<Rightarrow>
     (status + bool) \<times> ('f, 'l, 'c) grpc_api" where
  "rpc_batch E blake3 w ws api req = record_rpc ''batch'' (bq_tenant (body req)) (batch_impl E blake3 w ws api req)"

section \<open>Lemmas\<close>

subsection \<open>Checks\<close>

lemma attempt_simps [simp]: "attempt (Inl e) s k = (Inl e, s)" "attempt (Inr x) s k = k x"
  by (simp_all add: attempt_def)

lemma attempt_Inr_iff: "attempt r s k = (Inr y, s') \<longleftrightarrow> (\<exists>x. r = Inr x \<and> k x = (Inr y, s'))"
  by (cases r) simp_all

lemma check_tenant_Inr_iff: "check_tenant t = Inr u \<longleftrightarrow> t \<noteq> [] \<and> length t \<le> 255"
  by (auto simp: check_tenant_def)

lemma authorize_Inr_iff:
  "authorize req t perm = Inr u \<longleftrightarrow>
     (\<exists>p. extension req = Some p \<and> principal_allows p perm \<and> (\<forall>c. principal_tenant p = Some c \<longrightarrow> c = t))"
  by (auto simp: authorize_def split: option.splits)

lemma enforce_key_size_Inr_iff:
  "enforce_key_size api k = Inr u \<longleftrightarrow> length k \<le> max_key_size (limits (config (svc api)))"
  by (auto simp: enforce_key_size_def Let_def)

lemma enforce_value_size_Inr_iff:
  "enforce_value_size api v = Inr u \<longleftrightarrow> length v \<le> max_value_size (limits (config (svc api)))"
  by (auto simp: enforce_value_size_def Let_def)

lemma enforce_batch_size_Inr_iff:
  "enforce_batch_size api n = Inr u \<longleftrightarrow> n \<le> max_batch_ops (limits (config (svc api)))"
  by (auto simp: enforce_batch_size_def Let_def)

lemma encode_data_key_Inr_iff:
  "encode_data_key t p = Inr k \<longleftrightarrow> t \<noteq> [] \<and> length t \<le> 255 \<and> k = raw_key t Data p"
  by (auto simp: encode_data_key_def map_sum_eq_Inr_iff key_encode_Inr_iff MAX_TENANT_LEN_def)

lemma encode_data_scan_bounds_Inr_iff:
  "encode_data_scan_bounds t p = Inr b \<longleftrightarrow> t \<noteq> [] \<and> length t \<le> 255
     \<and> b = \<lparr>sb_start = raw_key t Data p, sb_end = next_prefix_bound (raw_key t Data p),
            strip_len = length (raw_key t Data [])\<rparr>"
proof (cases "key_encode t Data []")
  case (Inl e)
  then show ?thesis
    by (auto simp: encode_data_scan_bounds_def encode_subspace_prefix_def key_encode_def MAX_TENANT_LEN_def Let_def
        split: if_splits)
next
  case (Inr k)
  then have "t \<noteq> [] \<and> length t \<le> 255 \<and> k = raw_key t Data []"
    by (simp add: key_encode_Inr_iff MAX_TENANT_LEN_def)
  then show ?thesis
    using raw_key_append [of t Data "[]" p]
    by (auto simp: encode_data_scan_bounds_def encode_subspace_prefix_def Inr Let_def)
qed

text \<open>Admission touches the rate limiters only.\<close>

lemma grpc_admit_throttle:
  assumes "grpc_admit E w api t c = (a, api')"
  obtains th where "api' = api\<lparr>svc := (svc api)\<lparr>nthrottle := th\<rparr>\<rparr>"
  using assms by (auto simp: grpc_admit_def admit_def Let_def split: prod.splits)

text \<open>
  Every handler begins alike: the tenant's name, the caller's right, the rate limit. A call that
  stops there has at most moved a rate limiter.
\<close>

lemma entry_cases:
  assumes "attempt (check_tenant t) api (\<lambda>_. attempt (authorize req t perm) api (\<lambda>_.
      (case grpc_admit E w api t c of (a, api) \<Rightarrow> attempt a api (\<lambda>_. K api)))) = (r, api')"
  obtains (refused) s th where "r = Inl s" and "api' = api\<lparr>svc := (svc api)\<lparr>nthrottle := th\<rparr>\<rparr>"
  | (entered) th where "t \<noteq> []" and "length t \<le> 255" and "authorize req t perm = Inr ()"
    and "K (api\<lparr>svc := (svc api)\<lparr>nthrottle := th\<rparr>\<rparr>) = (r, api')"
proof -
  obtain a api1 where adm: "grpc_admit E w api t c = (a, api1)" by fastforce
  then obtain th where api1: "api1 = api\<lparr>svc := (svc api)\<lparr>nthrottle := th\<rparr>\<rparr>" by (rule grpc_admit_throttle)
  show thesis
  proof (cases "check_tenant t")
    case (Inl s)
    with assms refused [of s "nthrottle (svc api)"] show thesis by simp
  next
    case ct: (Inr u)
    show thesis
    proof (cases "authorize req t perm")
      case (Inl s)
      with assms ct refused [of s "nthrottle (svc api)"] show thesis by simp
    next
      case au: (Inr v)
      show thesis
      proof (cases a)
        case (Inl s)
        with assms ct au adm api1 refused [of s th] show thesis by simp
      next
        case (Inr x)
        with assms ct au adm api1 entered [of th] show thesis by (simp add: check_tenant_Inr_iff)
      qed
    qed
  qed
qed

lemma entry_unauthorized:
  assumes "authorize req t perm = Inl s"
  shows "\<exists>s'. attempt (check_tenant t) api (\<lambda>_. attempt (authorize req t perm) api K) = (Inl s', api)"
  using assms by (cases "check_tenant t") simp_all

lemmas handler_defs = get_impl_def put_impl_def delete_impl_def scan_impl_def watch_impl_def

lemma put_impl_cases:
  assumes "put_impl E blake3 w api req = (r, api')"
  obtains (refused) s th where "r = Inl s" and "api' = api\<lparr>svc := (svc api)\<lparr>nthrottle := th\<rparr>\<rparr>"
  | (ran) th q n' where "authorize req (rq_tenant (body req)) PERM_WRITE = Inr ()"
    and "rq_tenant (body req) \<noteq> []" and "length (rq_tenant (body req)) \<le> 255"
    and "length (rq_key (body req)) \<le> max_key_size (limits (config (svc api)))"
    and "length (rq_value (body req)) \<le> max_value_size (limits (config (svc api)))"
    and "put_with_ttl E w ((svc api)\<lparr>nthrottle := th\<rparr>) (raw_key (rq_tenant (body req)) Data (rq_key (body req)))
      (rq_value (body req)) (rq_ttl_ms (body req)) = (q, n')"
    and "r = map_sum to_status (\<lambda>_. 0) q"
    and "api' = api\<lparr>svc := n', trail := (case q of Inl _ \<Rightarrow> trail api | Inr _ \<Rightarrow>
      audit_write blake3 (principal_of req) (rq_tenant (body req)) ''put'' (rq_key (body req))
        (length (rq_value (body req))) (trail api))\<rparr>"
  using assms unfolding put_impl_def Let_def
proof (cases rule: entry_cases)
  case (refused s th)
  then show thesis by (rule that(1))
next
  case (entered th)
  let ?api = "api\<lparr>svc := (svc api)\<lparr>nthrottle := th\<rparr>\<rparr>"
  obtain q n' where p: "put_with_ttl E w ((svc api)\<lparr>nthrottle := th\<rparr>)
      (raw_key (rq_tenant (body req)) Data (rq_key (body req))) (rq_value (body req)) (rq_ttl_ms (body req)) = (q, n')"
    by fastforce
  show thesis
  proof (cases "enforce_key_size ?api (rq_key (body req))")
    case (Inl s)
    with entered(4) that(1) [of s th] show thesis by simp
  next
    case ks: (Inr u)
    show thesis
    proof (cases "enforce_value_size ?api (rq_value (body req))")
      case (Inl s)
      with entered(4) ks that(1) [of s th] show thesis by simp
    next
      case vs: (Inr u')
      have k: "encode_data_key (rq_tenant (body req)) (rq_key (body req))
          = Inr (raw_key (rq_tenant (body req)) Data (rq_key (body req)))"
        using entered(1,2) by (simp add: encode_data_key_Inr_iff)
      show thesis
        using entered ks vs k p that(2) [of th q n']
        by (cases q) (auto simp: api_put_def enforce_key_size_Inr_iff enforce_value_size_Inr_iff)
    qed
  qed
qed

lemma node_reads_throttle [simp]:
  "node_get E w (n\<lparr>nthrottle := th\<rparr>) k = node_get E w n k"
  "node_scan_range E w (n\<lparr>nthrottle := th\<rparr>) a b = node_scan_range E w n a b"
  "contents fv (n\<lparr>nthrottle := th\<rparr>) = contents fv n"
  "node_ok E fv fi fd ft (n\<lparr>nthrottle := th\<rparr>) l = node_ok E fv fi fd ft n l"
  "expiry_of w (n\<lparr>nthrottle := th\<rparr>) ttl = expiry_of w n ttl"
  by (simp_all add: node_get_def node_scan_range_def filter_scan_def [abs_def] contents_def node_ok_def expiry_of_def
      cong: sum.case_cong option.case_cong)

lemma delete_impl_cases:
  assumes "delete_impl E blake3 w api req = (r, api')"
  obtains (refused) s th where "r = Inl s" and "api' = api\<lparr>svc := (svc api)\<lparr>nthrottle := th\<rparr>\<rparr>"
  | (ran) th v q n' where "authorize req (rq_tenant (body req)) PERM_DELETE = Inr ()"
    and "rq_tenant (body req) \<noteq> []" and "length (rq_tenant (body req)) \<le> 255"
    and "length (rq_key (body req)) \<le> max_key_size (limits (config (svc api)))"
    and "node_get E w (svc api) (raw_key (rq_tenant (body req)) Data (rq_key (body req))) = Inr v"
    and "node_delete E w ((svc api)\<lparr>nthrottle := th\<rparr>) (raw_key (rq_tenant (body req)) Data (rq_key (body req))) = (q, n')"
    and "r = map_sum to_status (\<lambda>_. v \<noteq> None) q"
    and "api' = api\<lparr>svc := n', trail := (case q of Inl _ \<Rightarrow> trail api | Inr _ \<Rightarrow>
      audit_write blake3 (principal_of req) (rq_tenant (body req)) ''delete'' (rq_key (body req)) 0 (trail api))\<rparr>"
  using assms unfolding delete_impl_def Let_def
proof (cases rule: entry_cases)
  case (refused s th)
  then show thesis by (rule that(1))
next
  case (entered th)
  let ?k = "raw_key (rq_tenant (body req)) Data (rq_key (body req))"
  let ?api = "api\<lparr>svc := (svc api)\<lparr>nthrottle := th\<rparr>\<rparr>"
  obtain q n' where p: "node_delete E w ((svc api)\<lparr>nthrottle := th\<rparr>) ?k = (q, n')" by fastforce
  have k: "encode_data_key (rq_tenant (body req)) (rq_key (body req)) = Inr ?k"
    using entered(1,2) by (simp add: encode_data_key_Inr_iff)
  show thesis
  proof (cases "enforce_key_size ?api (rq_key (body req))")
    case (Inl s)
    with entered(4) that(1) [of s th] show thesis by simp
  next
    case ks: (Inr u)
    show thesis
    proof (cases "node_get E w (svc api) ?k")
      case (Inl e)
      with entered(4) ks k that(1) [of "to_status e" th] show thesis by simp
    next
      case (Inr v)
      with entered ks k p that(2) [of v th q n'] show thesis
        by (cases q) (auto simp: api_delete_def enforce_key_size_Inr_iff)
    qed
  qed
qed

lemma get_impl_cases:
  assumes "get_impl E w api req = (r, api')"
  obtains (refused) s th where "r = Inl s" and "api' = api\<lparr>svc := (svc api)\<lparr>nthrottle := th\<rparr>\<rparr>"
  | (ran) th v where "authorize req (rq_tenant (body req)) PERM_READ = Inr ()"
    and "rq_tenant (body req) \<noteq> []" and "length (rq_tenant (body req)) \<le> 255"
    and "node_get E w (svc api) (raw_key (rq_tenant (body req)) Data (rq_key (body req))) = Inr v"
    and "r = Inr \<lparr>gr_found = v \<noteq> None, gr_value = (case v of Some x \<Rightarrow> x | None \<Rightarrow> []), gr_version = 0\<rparr>"
    and "api' = api\<lparr>svc := (svc api)\<lparr>nthrottle := th\<rparr>\<rparr>"
  using assms unfolding get_impl_def Let_def
proof (cases rule: entry_cases)
  case (refused s th)
  then show thesis by (rule that(1))
next
  case (entered th)
  let ?k = "raw_key (rq_tenant (body req)) Data (rq_key (body req))"
  let ?api = "api\<lparr>svc := (svc api)\<lparr>nthrottle := th\<rparr>\<rparr>"
  have k: "encode_data_key (rq_tenant (body req)) (rq_key (body req)) = Inr ?k"
    using entered(1,2) by (simp add: encode_data_key_Inr_iff)
  show thesis
  proof (cases "enforce_key_size ?api (rq_key (body req))")
    case (Inl s)
    with entered(4) that(1) [of s th] show thesis by simp
  next
    case ks: (Inr u)
    show thesis
    proof (cases "node_get E w (svc api) ?k")
      case (Inl e)
      with entered(4) ks k that(1) [of "to_status e" th] show thesis by simp
    next
      case (Inr v)
      with entered ks k that(2) [of v th] show thesis by (cases v) auto
    qed
  qed
qed

lemma scan_impl_cases:
  assumes "scan_impl E w api req = (r, api')"
  obtains (refused) s th where "r = Inl s" and "api' = api\<lparr>svc := (svc api)\<lparr>nthrottle := th\<rparr>\<rparr>"
  | (ran) th es where "authorize req (sq_tenant (body req)) PERM_READ = Inr ()"
    and "sq_tenant (body req) \<noteq> []" and "length (sq_tenant (body req)) \<le> 255"
    and "node_scan_range E w (svc api) (raw_key (sq_tenant (body req)) Data (sq_prefix (body req)))
      (next_prefix_bound (raw_key (sq_tenant (body req)) Data (sq_prefix (body req)))) = Inr es"
    and "r = Inr (scan_chunks (length (raw_key (sq_tenant (body req)) Data []))
      (take (unat (cap_scan_limit api (sq_limit (body req)))) es) [] [])"
    and "api' = api\<lparr>svc := (svc api)\<lparr>nthrottle := th\<rparr>\<rparr>"
  using assms unfolding scan_impl_def Let_def
proof (cases rule: entry_cases)
  case (refused s th)
  then show thesis by (rule that(1))
next
  case (entered th)
  let ?k = "raw_key (sq_tenant (body req)) Data (sq_prefix (body req))"
  have b: "encode_data_scan_bounds (sq_tenant (body req)) (sq_prefix (body req))
      = Inr \<lparr>sb_start = ?k, sb_end = next_prefix_bound ?k, strip_len = length (raw_key (sq_tenant (body req)) Data [])\<rparr>"
    using entered(1,2) by (simp add: encode_data_scan_bounds_Inr_iff)
  have c: "cap_scan_limit (api\<lparr>svc := (svc api)\<lparr>nthrottle := th\<rparr>\<rparr>) x = cap_scan_limit api x" for x
    by (simp add: cap_scan_limit_def)
  show thesis
  proof (cases "node_scan_range E w (svc api) ?k (next_prefix_bound ?k)")
    case (Inl e)
    with entered(4) b that(1) [of "to_status e" th] show thesis by simp
  next
    case (Inr es)
    with entered b c that(2) [of es th] show thesis by auto
  qed
qed

lemma watch_impl_cases:
  assumes "watch_impl E w now api req = (r, api')"
  obtains (refused) s th where "r = Inl s" and "api' = api\<lparr>svc := (svc api)\<lparr>nthrottle := th\<rparr>\<rparr>"
  | (ran) th rx h where "authorize req (wq_tenant (body req)) PERM_WATCH = Inr ()"
    and "subscribe (broadcast E) (hub (svc api)) (wq_tenant (body req)) = (rx, h)"
    and "r = Inr \<lparr>ws_rx = rx, ws_prefix = wq_prefix (body req),
        ws_heartbeat = 1000 * unat (watch_heartbeat_secs (config (svc api))),
        ws_next_beat = now + 1000 * unat (watch_heartbeat_secs (config (svc api))), ws_tenant = wq_tenant (body req)\<rparr>"
    and "api' = api\<lparr>svc := (svc api)\<lparr>nthrottle := th, hub := h\<rparr>\<rparr>"
  using assms unfolding watch_impl_def Let_def
proof (cases rule: entry_cases)
  case (refused s th)
  then show thesis by (rule that(1))
next
  case (entered th)
  let ?api = "api\<lparr>svc := (svc api)\<lparr>nthrottle := th\<rparr>\<rparr>"
  obtain rx h where s: "subscribe (broadcast E) (hub (svc api)) (wq_tenant (body req)) = (rx, h)" by fastforce
  show thesis
  proof (cases "enforce_key_size ?api (wq_prefix (body req))")
    case (Inl s)
    with entered(4) that(1) [of s th] show thesis by simp
  next
    case (Inr u)
    with entered s that(2) [of rx h th] show thesis by auto
  qed
qed

end
