(* ===== verification/Grpc_Correctness.thy ===== *)
theory Grpc_Correctness
  imports Grpc
begin

text \<open>
  What the data service promises: an unauthorized call changes nothing, a caller reaches only the
  data of its own tenant, a value that was put is what a get answers, a scan streams exactly the live
  entries under its prefix, a batch applies its operations in order up to the first that fails, and
  the audit trail has one entry for every write that was applied.
\<close>

section \<open>Definitions\<close>

text \<open>
  Whether two maps agree on everything outside the data of a tenant and the node's bookkeeping.
\<close>

definition same_elsewhere :: "str \<Rightarrow> (bytes \<rightharpoonup> bytes) \<Rightarrow> (bytes \<rightharpoonup> bytes) \<Rightarrow> bool" where
  "same_elsewhere t m m' \<longleftrightarrow> (\<forall>k. \<not> bookkeeping k \<longrightarrow> data_owner k \<noteq> Some t \<longrightarrow> m k = m' k)"

text \<open>The answer of a get for what is live under its key.\<close>

definition get_answer :: "bytes option \<Rightarrow> get_response" where
  "get_answer v = \<lparr>gr_found = v \<noteq> None, gr_value = (case v of Some x \<Rightarrow> x | None \<Rightarrow> []), gr_version = 0\<rparr>"

text \<open>The map after the operations of a batch.\<close>

definition apply_op :: "str \<Rightarrow> batch_op \<Rightarrow> (bytes \<rightharpoonup> bytes) \<Rightarrow> (bytes \<rightharpoonup> bytes)" where
  "apply_op t oper m =
     m(raw_key t Data (bo_key oper) := (if bo_op oper = OP_PUT then Some (value_encode (bo_value oper) None) else None))"

definition apply_ops :: "str \<Rightarrow> batch_op list \<Rightarrow> (bytes \<rightharpoonup> bytes) \<Rightarrow> (bytes \<rightharpoonup> bytes)" where
  "apply_ops t ops m = fold (apply_op t) ops m"

text \<open>Claims of a caller of tenant \<open>b\<close> who may read and write.\<close>

definition claims_example :: claims where
  "claims_example = \<lparr>claims_sub = lit ''u'', claims_tenant = [0x62], claims_roles = [],
     claims_perms = [lit ''read'', lit ''write''], claims_exp = 0, claims_iss = None\<rparr>"

section \<open>Lemmas\<close>

lemma same_elsewhere_refl [simp]: "same_elsewhere t m m"
  by (simp add: same_elsewhere_def)

lemma same_elsewhere_trans: "same_elsewhere t m m' \<Longrightarrow> same_elsewhere t m' m'' \<Longrightarrow> same_elsewhere t m m''"
  by (simp add: same_elsewhere_def)

lemma same_elsewhere_upd:
  "tenant_ok t \<Longrightarrow> same_data m' (m(raw_key t Data p := x)) \<Longrightarrow> same_elsewhere t m m'"
  by (auto simp: same_elsewhere_def same_data_def)

text \<open>What a principal with claims is authorized for.\<close>

lemma authorize_claims:
  "authorize req t perm = Inr u \<Longrightarrow> extension req = Some (Authenticated c) \<Longrightarrow> t = claims_tenant c"
  by (auto simp: authorize_Inr_iff)

lemma authorize_example:
  "extension req = Some (Authenticated claims_example) \<Longrightarrow> authorize req [0x61] perm \<noteq> Inr ()"
  by (simp add: authorize_Inr_iff claims_example_def)

subsection \<open>Batches\<close>

lemma batch_op_impl_cases:
  assumes "batch_op_impl E blake3 w p t oper api = (r, api')" and "t \<noteq> []" and "length t \<le> 255"
  obtains (refused) s where "r = Inl s" and "api' = api"
  | (put) q n' where "bo_op oper = OP_PUT"
    and "length (bo_key oper) \<le> max_key_size (limits (config (svc api)))"
    and "length (bo_value oper) \<le> max_value_size (limits (config (svc api)))"
    and "put_with_ttl E w (svc api) (raw_key t Data (bo_key oper)) (bo_value oper) 0 = (q, n')"
    and "r = map_sum to_status id q"
    and "api' = api\<lparr>svc := n', trail := (case q of Inl _ \<Rightarrow> trail api | Inr _ \<Rightarrow>
      audit_write blake3 p t ''put'' (bo_key oper) (length (bo_value oper)) (trail api))\<rparr>"
  | (delete) q n' where "bo_op oper = OP_DELETE"
    and "length (bo_key oper) \<le> max_key_size (limits (config (svc api)))"
    and "node_delete E w (svc api) (raw_key t Data (bo_key oper)) = (q, n')"
    and "r = map_sum to_status id q"
    and "api' = api\<lparr>svc := n', trail := (case q of Inl _ \<Rightarrow> trail api | Inr _ \<Rightarrow>
      audit_write blake3 p t ''delete'' (bo_key oper) (length (bo_value oper)) (trail api))\<rparr>"
proof -
  let ?k = "raw_key t Data (bo_key oper)"
  have k: "encode_data_key t (bo_key oper) = Inr ?k" using assms(2,3) by (simp add: encode_data_key_Inr_iff)
  note d = assms(1) [unfolded batch_op_impl_def]
  consider (ks) s where "enforce_key_size api (bo_key oper) = Inl s"
    | (vs) s where "enforce_key_size api (bo_key oper) = Inr ()" "bo_op oper = OP_PUT"
        "enforce_value_size api (bo_value oper) = Inl s"
    | (p) "enforce_key_size api (bo_key oper) = Inr ()" "bo_op oper = OP_PUT"
        "enforce_value_size api (bo_value oper) = Inr ()"
    | (d) "enforce_key_size api (bo_key oper) = Inr ()" "bo_op oper = OP_DELETE"
    | (u) "enforce_key_size api (bo_key oper) = Inr ()" "bo_op oper \<noteq> OP_PUT" "bo_op oper \<noteq> OP_DELETE"
    by (cases "enforce_key_size api (bo_key oper)"; cases "enforce_value_size api (bo_value oper)") auto
  then show thesis
  proof cases
    case (ks s)
    with d that(1) [of s] show thesis by simp
  next
    case (vs s)
    with d that(1) [of s] show thesis by simp
  next
    case p
    obtain q n' where q: "put_with_ttl E w (svc api) ?k (bo_value oper) 0 = (q, n')" by fastforce
    have "length (bo_key oper) \<le> max_key_size (limits (config (svc api)))"
      "length (bo_value oper) \<le> max_value_size (limits (config (svc api)))"
      using p by (simp_all add: enforce_key_size_Inr_iff enforce_value_size_Inr_iff)
    with d p k q that(2) [of q n'] show thesis by (cases q) (auto simp: api_put_def)
  next
    case d
    obtain q n' where q: "node_delete E w (svc api) ?k = (q, n')" by fastforce
    have "length (bo_key oper) \<le> max_key_size (limits (config (svc api)))" "bo_op oper \<noteq> OP_PUT"
      using d by (simp_all add: enforce_key_size_Inr_iff OP_PUT_def OP_DELETE_def)
    with assms(1) d k q that(3) [of q n'] show thesis
      by (cases q) (auto simp: batch_op_impl_def api_delete_def)
  next
    case u
    with d k that(1) show thesis by auto
  qed
qed


text \<open>The same of every call of the service: the data of other tenants stays as it is.\<close>

lemma batch_op_elsewhere:
  assumes "fjall_ok (fjall E) fv fi" and "fjall_durable (fjall E) fv fi fd ft" and "tenant_ok t"
    and "backend_wf fi (store (svc api))" and "batch_op_impl E blake3 w p t oper api = (r, api')"
  shows "backend_wf fi (store (svc api')) \<and> same_elsewhere t (contents fv (svc api)) (contents fv (svc api'))"
proof -
  have t: "t \<noteq> []" "length t \<le> 255" using assms(3) by (auto simp: tenant_ok_def MAX_TENANT_LEN_def)
  from assms(5) t show ?thesis
  proof (cases rule: batch_op_impl_cases)
    case (refused s)
    with assms(4) show ?thesis by simp
  next
    case (put q n')
    with put_frame [OF assms(1,2,4) put(4)] same_elsewhere_upd [OF assms(3)] show ?thesis by auto
  next
    case (delete q n')
    with delete_frame [OF assms(1,2,4) delete(3)] same_elsewhere_upd [OF assms(3)] show ?thesis by auto
  qed
qed

lemma batch_loop_elsewhere:
  assumes "fjall_ok (fjall E) fv fi" and "fjall_durable (fjall E) fv fi fd ft" and "tenant_ok t"
    and "backend_wf fi (store (svc api))" and "batch_loop E blake3 ws p t ops api = (r, api')"
  shows "backend_wf fi (store (svc api')) \<and> same_elsewhere t (contents fv (svc api)) (contents fv (svc api'))"
  using assms(4,5)
proof (induction ops arbitrary: api ws)
  case (Cons oper ops)
  obtain q api1 where b: "batch_op_impl E blake3 (ws 0) p t oper api = (q, api1)" by fastforce
  note e = batch_op_elsewhere [OF assms(1-3) Cons.prems(1) b]
  show ?case
  proof (cases q)
    case (Inl s)
    with b e Cons.prems(2) show ?thesis by simp
  next
    case (Inr u)
    with b Cons.prems(2) have "batch_loop E blake3 (\<lambda>i. ws (i + 1)) p t ops api1 = (r, api')" by simp
    with Cons.IH [of api1] e show ?thesis by (meson same_elsewhere_trans)
  qed
qed simp

lemma attempts_cases:
  assumes "attempt c s (\<lambda>_. attempt c1 s (\<lambda>_. attempt c2 s (\<lambda>_. attempt c3 s (\<lambda>_.
      (case (a, s') of (a, s) \<Rightarrow> attempt a s (\<lambda>_. K s)))))) = res"
  obtains (no) e where "res = (Inl e, s)" | (adm) e where "res = (Inl e, s')"
  | (go) "c = Inr ()" and "c1 = Inr ()" and "c2 = Inr ()" and "c3 = Inr ()" and "a = Inr ()"
  using assms by (cases c; cases c1; cases c2; cases c3; cases a) auto

text \<open>A batch that got past its checks ran its loop; otherwise it moved at most a rate limiter.\<close>

lemma batch_impl_cases:
  assumes "batch_impl E blake3 w ws api req = (r, api')"
  obtains (refused) s th where "r = Inl s" and "api' = api\<lparr>svc := (svc api)\<lparr>nthrottle := th\<rparr>\<rparr>"
  | (ran) th q where "bq_tenant (body req) \<noteq> []" and "length (bq_tenant (body req)) \<le> 255"
    and "\<And>oper. oper \<in> set (bq_ops (body req)) \<Longrightarrow> bo_op oper = OP_PUT \<Longrightarrow>
      authorize req (bq_tenant (body req)) PERM_WRITE = Inr ()"
    and "\<And>oper. oper \<in> set (bq_ops (body req)) \<Longrightarrow> bo_op oper = OP_DELETE \<Longrightarrow>
      authorize req (bq_tenant (body req)) PERM_DELETE = Inr ()"
    and "length (bq_ops (body req)) \<le> max_batch_ops (limits (config (svc api)))"
    and "batch_loop E blake3 ws (principal_of req) (bq_tenant (body req)) (bq_ops (body req))
      (api\<lparr>svc := (svc api)\<lparr>nthrottle := th\<rparr>\<rparr>) = (q, api')"
    and "r = map_sum id (\<lambda>_. True) q"
proof -
  let ?t = "bq_tenant (body req)" and ?ops = "bq_ops (body req)"
  let ?W = "if list_ex (\<lambda>oper. bo_op oper = OP_PUT) ?ops then authorize req ?t PERM_WRITE else Inr ()"
  let ?D = "if list_ex (\<lambda>oper. bo_op oper = OP_DELETE) ?ops then authorize req ?t PERM_DELETE else Inr ()"
  obtain a api1 where adm: "grpc_admit E w api ?t (batch_cost (length ?ops)) = (a, api1)" by fastforce
  then obtain th where api1: "api1 = api\<lparr>svc := (svc api)\<lparr>nthrottle := th\<rparr>\<rparr>" by (rule grpc_admit_throttle)
  obtain q api2 where loop: "batch_loop E blake3 ws (principal_of req) ?t ?ops api1 = (q, api2)" by fastforce
  note d = assms [unfolded batch_impl_def Let_def adm]
  consider (no) s where "(r, api') = (Inl s, api)" | (adm) s where "(r, api') = (Inl s, api1)"
    | (go) "check_tenant ?t = Inr ()" "?W = Inr ()" "?D = Inr ()" "enforce_batch_size api (length ?ops) = Inr ()"
        "a = Inr ()"
    using d by (rule attempts_cases)
  then show thesis
  proof cases
    case no
    with that(1) [of _ "nthrottle (svc api)"] show thesis by simp
  next
    case adm
    with that(1) api1 show thesis by simp
  next
    case go
    have "?W = Inr () \<Longrightarrow> oper \<in> set ?ops \<Longrightarrow> bo_op oper = OP_PUT \<Longrightarrow> authorize req ?t PERM_WRITE = Inr ()" for oper
      by (auto simp: list_ex_iff split: if_splits)
    moreover have "?D = Inr () \<Longrightarrow> oper \<in> set ?ops \<Longrightarrow> bo_op oper = OP_DELETE \<Longrightarrow> authorize req ?t PERM_DELETE = Inr ()" for oper
      by (auto simp: list_ex_iff split: if_splits)
    moreover have "r = map_sum id (\<lambda>_. True) q" "api' = api2"
      using d go loop by (cases q; simp)+
    ultimately show thesis
      using go loop that(2) [of th q] by (simp add: api1 check_tenant_Inr_iff enforce_batch_size_Inr_iff)
  qed
qed


lemma batch_loop_no_writes:
  assumes "\<And>oper. oper \<in> set ops \<Longrightarrow> bo_op oper \<noteq> OP_PUT \<and> bo_op oper \<noteq> OP_DELETE"
    and "t \<noteq> []" and "length t \<le> 255" and "batch_loop E blake3 ws p t ops api = (r, api')"
  shows "api' = api"
proof (cases ops)
  case Nil
  with assms(4) show ?thesis by simp
next
  case (Cons oper rest)
  obtain q api1 where b: "batch_op_impl E blake3 (ws 0) p t oper api = (q, api1)" by fastforce
  from b assms(2,3) obtain s where "q = Inl s" "api1 = api"
    by (cases rule: batch_op_impl_cases) (use assms(1) [of oper] Cons in auto)
  with assms(4) b Cons show ?thesis by simp
qed

lemma batch_impl_elsewhere:
  assumes "fjall_ok (fjall E) fv fi" and "fjall_durable (fjall E) fv fi fd ft"
    and "backend_wf fi (store (svc api))" and "utf8_valid (bq_tenant (body req))"
    and "extension req = Some (Authenticated c)" and "batch_impl E blake3 w ws api req = (r, api')"
  shows "same_elsewhere (claims_tenant c) (contents fv (svc api)) (contents fv (svc api'))"
  using assms(6)
proof (cases rule: batch_impl_cases)
  case (refused s th)
  then show ?thesis by simp
next
  case (ran th q)
  let ?t = "bq_tenant (body req)" and ?api = "api\<lparr>svc := (svc api)\<lparr>nthrottle := th\<rparr>\<rparr>"
  have t: "tenant_ok ?t" using ran(1,2) assms(4) by (simp add: tenant_ok_def MAX_TENANT_LEN_def)
  show ?thesis
  proof (cases "\<exists>oper\<in>set (bq_ops (body req)). bo_op oper = OP_PUT \<or> bo_op oper = OP_DELETE")
    case True
    then have "?t = claims_tenant c" using ran(3,4) authorize_claims [OF _ assms(5)] by blast
    with batch_loop_elsewhere [OF assms(1,2) t _ ran(6)] assms(3) show ?thesis by simp
  next
    case False
    with batch_loop_no_writes [OF _ ran(1,2,6)] have "api' = ?api" by blast
    then show ?thesis by simp
  qed
qed

lemma put_impl_elsewhere:
  assumes "fjall_ok (fjall E) fv fi" and "fjall_durable (fjall E) fv fi fd ft"
    and "backend_wf fi (store (svc api))" and "utf8_valid (rq_tenant (body req))"
    and "extension req = Some (Authenticated c)" and "put_impl E blake3 w api req = (r, api')"
  shows "same_elsewhere (claims_tenant c) (contents fv (svc api)) (contents fv (svc api'))"
  using assms(6)
proof (cases rule: put_impl_cases)
  case (refused s th)
  then show ?thesis by simp
next
  case (ran th q n')
  have t: "tenant_ok (rq_tenant (body req))" using ran(2,3) assms(4) by (simp add: tenant_ok_def MAX_TENANT_LEN_def)
  have "rq_tenant (body req) = claims_tenant c" using authorize_claims [OF ran(1) assms(5)] .
  with put_frame [OF assms(1,2) _ ran(6)] assms(3) same_elsewhere_upd [OF t] ran(8) show ?thesis by auto
qed

lemma delete_impl_elsewhere:
  assumes "fjall_ok (fjall E) fv fi" and "fjall_durable (fjall E) fv fi fd ft"
    and "backend_wf fi (store (svc api))" and "utf8_valid (rq_tenant (body req))"
    and "extension req = Some (Authenticated c)" and "delete_impl E blake3 w api req = (r, api')"
  shows "same_elsewhere (claims_tenant c) (contents fv (svc api)) (contents fv (svc api'))"
  using assms(6)
proof (cases rule: delete_impl_cases)
  case (refused s th)
  then show ?thesis by simp
next
  case (ran th v q n')
  have t: "tenant_ok (rq_tenant (body req))" using ran(2,3) assms(4) by (simp add: tenant_ok_def MAX_TENANT_LEN_def)
  have "rq_tenant (body req) = claims_tenant c" using authorize_claims [OF ran(1) assms(5)] .
  with delete_frame [OF assms(1,2) _ ran(6)] assms(3) same_elsewhere_upd [OF t] ran(8) show ?thesis by auto
qed

lemma read_impl_contents:
  "contents fv (svc (snd (get_impl E w api gq))) = contents fv (svc api)"
  "contents fv (svc (snd (scan_impl E w api sq))) = contents fv (svc api)"
  "contents fv (svc (snd (watch_impl E w now api wq))) = contents fv (svc api)"
proof -
  have h: "contents fv (n\<lparr>hub := h\<rparr>) = contents fv n" for n h by (simp add: contents_def)
  show "contents fv (svc (snd (get_impl E w api gq))) = contents fv (svc api)"
    by (cases rule: get_impl_cases [OF surjective_pairing [of "get_impl E w api gq"]]) simp_all
  show "contents fv (svc (snd (scan_impl E w api sq))) = contents fv (svc api)"
    by (cases rule: scan_impl_cases [OF surjective_pairing [of "scan_impl E w api sq"]]) simp_all
  show "contents fv (svc (snd (watch_impl E w now api wq))) = contents fv (svc api)"
    by (cases rule: watch_impl_cases [OF surjective_pairing [of "watch_impl E w now api wq"]]) (simp_all add: h)
qed

subsection \<open>Batches without faults\<close>

lemma apply_ops_simps [simp]:
  "apply_ops t [] m = m" "apply_ops t (oper # ops) m = apply_ops t ops (apply_op t oper m)"
  by (simp_all add: apply_ops_def)

lemma batch_op_applies:
  assumes "fjall_ok (fjall E) fv fi" and "fjall_durable (fjall E) fv fi fd ft" and "backend_total (fjall E) fi"
    and "tenant_ok t" and "node_ok E fv fi fd ft (svc api) l" and "w_append w = io_ok" and "rotate_safe (w_rotate w)"
    and "max_key_size (limits (config (svc api))) + 257 < 2 ^ 32" and "max_value_size (limits (config (svc api))) + 9 < 2 ^ 32"
    and "same_data (contents fv (svc api)) m" and "finite (dom m)" and "totals_fit m" and "totals_fit (apply_op t oper m)"
    and "batch_op_impl E blake3 w p t oper api = (r, api')"
  shows "(r \<noteq> Inr () \<longrightarrow> api' = api)
    \<and> (r = Inr () \<longrightarrow> (\<exists>l'. node_ok E fv fi fd ft (svc api') l') \<and> config (svc api') = config (svc api)
         \<and> same_data (contents fv (svc api')) (apply_op t oper m) \<and> length (trail api') = length (trail api) + 1)"
proof -
  let ?n = "svc api" and ?k = "raw_key t Data (bo_key oper)"
  have t: "t \<noteq> []" "length t \<le> 255" using assms(4) by (auto simp: tenant_ok_def MAX_TENANT_LEN_def)
  have wf: "backend_wf fi (store ?n)" using assms(5) by (simp add: node_ok_def)
  have fin: "finite (dom (contents fv ?n))" using finite_contents [OF assms(1) wf] .
  have k: "\<not> bookkeeping ?k" using assms(4) by simp
  have fit: "totals_fit (contents fv ?n)" using totals_fit_same_data [OF assms(10) fin assms(11)] assms(12) by simp
  have fit': "totals_fit ((contents fv ?n)(?k := x))" if "apply_op t oper m = m(?k := x)" for x
    using totals_fit_same_data [OF same_data_upd [OF assms(10), of ?k x]] that assms(11,13) fin by (simp del: fun_upd_apply)
  have kl: "length ?k < 2 ^ 32" if "length (bo_key oper) \<le> max_key_size (limits (config ?n))"
    using that assms(8) t(2) by (simp add: raw_key_def)
  from assms(14) t show ?thesis
  proof (cases rule: batch_op_impl_cases)
    case (refused s)
    then show ?thesis by simp
  next
    case (put q n')
    have a: "apply_op t oper m = m(?k \<mapsto> value_encode (bo_value oper) None)" using put(1) by (simp add: apply_op_def)
    have e: "expiry_of w ?n 0 = None" by (simp add: expiry_of_def)
    show ?thesis
    proof (cases q)
      case (Inl x)
      with put put_fault_free [OF assms(3,5,6)] show ?thesis by auto
    next
      case (Inr u)
      then have p: "put_with_ttl E w ?n ?k (bo_value oper) 0 = (Inr u, n')" using put(4) by simp
      have "(\<exists>l'. node_ok E fv fi fd ft n' l')
          \<and> same_data (contents fv n') ((contents fv ?n)(?k \<mapsto> value_encode (bo_value oper) None))"
        using put_ok [OF assms(1,2,5) k kl [OF put(2)] _ p assms(7) fit] fit' [OF a] put(3) assms(9)
        by (simp add: e del: fun_upd_apply)
      with a same_data_trans same_data_upd [OF assms(10)] put_frame [OF assms(1,2) wf p] put(5,6) Inr show ?thesis
        by (auto simp: audit_write_def simp del: fun_upd_apply)
    qed
  next
    case (delete q n')
    have a: "apply_op t oper m = m(?k := None)" using delete(1) by (simp add: apply_op_def OP_PUT_def OP_DELETE_def)
    show ?thesis
    proof (cases q)
      case (Inl x)
      with delete delete_fault_free [OF assms(3,5,6)] show ?thesis by auto
    next
      case (Inr u)
      then have p: "node_delete E w ?n ?k = (Inr u, n')" using delete(3) by simp
      have "(\<exists>l'. node_ok E fv fi fd ft n' l') \<and> same_data (contents fv n') ((contents fv ?n)(?k := None))"
        using delete_ok [OF assms(1,2,5) k kl [OF delete(2)] p assms(7) fit] .
      with a same_data_trans same_data_upd [OF assms(10)] delete_frame [OF assms(1,2) wf p] delete(4,5) Inr show ?thesis
        by (auto simp: audit_write_def simp del: fun_upd_apply)
    qed
  qed
qed

lemma finite_dom_apply_op: "finite (dom m) \<Longrightarrow> finite (dom (apply_op t oper m))"
  by (simp add: apply_op_def)

lemma batch_loop_applies:
  assumes "fjall_ok (fjall E) fv fi" and "fjall_durable (fjall E) fv fi fd ft" and "backend_total (fjall E) fi"
    and "tenant_ok t" and "\<And>i. w_append (ws i) = io_ok \<and> rotate_safe (w_rotate (ws i))"
    and "node_ok E fv fi fd ft (svc api) l"
    and "max_key_size (limits (config (svc api))) + 257 < 2 ^ 32" and "max_value_size (limits (config (svc api))) + 9 < 2 ^ 32"
    and "same_data (contents fv (svc api)) m" and "finite (dom m)" and "\<And>j. totals_fit (apply_ops t (take j ops) m)"
    and "batch_loop E blake3 ws p t ops api = (r, api')"
  shows "\<exists>j. (if r = Inr () then j = length ops else j < length ops) \<and> (\<exists>l'. node_ok E fv fi fd ft (svc api') l')
    \<and> same_data (contents fv (svc api')) (apply_ops t (take j ops) m) \<and> length (trail api') = length (trail api) + j"
  using assms(5-12)
proof (induction ops arbitrary: api m ws l)
  case Nil
  then show ?case by auto
next
  case (Cons oper ops)
  obtain q api1 where b: "batch_op_impl E blake3 (ws 0) p t oper api = (q, api1)" by fastforce
  have "totals_fit m" "totals_fit (apply_op t oper m)"
    using Cons.prems(7) [of 0] Cons.prems(7) [of 1] by simp_all
  note step = batch_op_applies [OF assms(1-4) Cons.prems(2) _ _ Cons.prems(3-6) this b]
  show ?case
  proof (cases "q = Inr ()")
    case False
    then have "r \<noteq> Inr () \<and> api' = api"
      using step Cons.prems(1,8) b by (cases q) auto
    with Cons.prems(2,5) show ?thesis by (auto intro: exI [of _ 0])
  next
    case True
    obtain l1 where l1: "node_ok E fv fi fd ft (svc api1) l1" and cfg: "config (svc api1) = config (svc api)"
      and sd: "same_data (contents fv (svc api1)) (apply_op t oper m)" and tr: "length (trail api1) = length (trail api) + 1"
      using step Cons.prems(1) True by blast
    have fit: "totals_fit (apply_ops t (take j ops) (apply_op t oper m))" for j
      using Cons.prems(7) [of "Suc j"] by simp
    have "batch_loop E blake3 (\<lambda>i. ws (i + 1)) p t ops api1 = (r, api')"
      using Cons.prems(8) b True by simp
    from Cons.IH [OF _ l1 _ _ sd finite_dom_apply_op [OF Cons.prems(6)] fit this] cfg Cons.prems(1,3,4) obtain j where
      "if r = Inr () then j = length ops else j < length ops" "\<exists>l'. node_ok E fv fi fd ft (svc api') l'"
      "same_data (contents fv (svc api')) (apply_ops t (take j ops) (apply_op t oper m))"
      "length (trail api') = length (trail api1) + j"
      by auto
    with tr show ?thesis by (intro exI [of _ "Suc j"]) auto
  qed
qed

subsection \<open>Scans\<close>

lemma scan_chunks_concat:
  assumes "\<And>k v. (k, v) \<in> set es \<Longrightarrow> strip \<le> length k" and "length current < SCAN_CHUNK_SIZE"
  shows "\<exists>cs. scan_chunks strip es current chunks = Some (chunks @ cs)
    \<and> concat cs = current @ map (\<lambda>(k, v). (drop strip k, v)) es
    \<and> (\<forall>c\<in>set cs. c \<noteq> [] \<and> length c \<le> SCAN_CHUNK_SIZE)"
  using assms
proof (induction es arbitrary: current chunks)
  case Nil
  then show ?case by (auto intro: exI [of _ "if current = [] then [] else [current]"])
next
  case (Cons e es)
  obtain k v where e: "e = (k, v)" by (cases e)
  let ?c = "current @ [(drop strip k, v)]"
  have k: "strip \<le> length k" and es: "\<And>k v. (k, v) \<in> set es \<Longrightarrow> strip \<le> length k"
    using Cons.prems(1) e by auto
  show ?case
  proof (cases "length ?c \<ge> SCAN_CHUNK_SIZE")
    case True
    obtain cs where "scan_chunks strip es [] (chunks @ [?c]) = Some ((chunks @ [?c]) @ cs)"
      "concat cs = map (\<lambda>(k, v). (drop strip k, v)) es" "\<forall>c\<in>set cs. c \<noteq> [] \<and> length c \<le> SCAN_CHUNK_SIZE"
      using Cons.IH [of "[]" "chunks @ [?c]"] es by (auto simp: SCAN_CHUNK_SIZE_def)
    with True k e Cons.prems(2) show ?thesis by (intro exI [of _ "?c # cs"]) (auto simp: Let_def)
  next
    case False
    with Cons.IH [of ?c chunks] es k e show ?thesis by (simp add: Let_def)
  qed
qed

lemma next_bound_raw_key: "raw_key t Data p \<le> k \<and> k < next_prefix_bound (raw_key t Data p) \<longleftrightarrow> prefix (raw_key t Data p) k"
  by (rule next_prefix_bound_iff) (auto simp: raw_key_def)

lemma lists_entries_strip:
  fixes P :: bytes
  assumes "lists_entries m (prefix (P @ p)) es"
  shows "lists_entries (\<lambda>q. m (P @ q)) (prefix p) (map (\<lambda>(k, v). (drop (length P) k, v)) es)"
    and "(k, v) \<in> set es \<Longrightarrow> length P \<le> length k"
proof -
  let ?xs = "map (\<lambda>(k, v). (drop (length P) k, v)) es"
  have key: "k = P @ drop (length P) k \<and> prefix p (drop (length P) k) \<and> m k = Some v" if "(k, v) \<in> set es" for k v
    using assms that by (auto simp: lists_entries_def prefix_def)
  then show "(k, v) \<in> set es \<Longrightarrow> length P \<le> length k"
    by (metis length_append le_add1)
  have f: "map fst es = map ((@) P) (map fst ?xs)"
    using key by (fastforce simp: map_eq_conv)
  have "ordered_entries es" using assms by (simp add: lists_entries_def)
  moreover have "sorted (map ((@) P) ys) = sorted ys" "distinct (map ((@) P) ys) = distinct ys" for ys
    by (simp_all add: sorted_map distinct_map inj_on_def)
  ultimately have "ordered_entries ?xs" unfolding ordered_entries_def f by blast
  moreover have "set ?xs = {(q, v). m (P @ q) = Some v \<and> prefix p q}"
  proof (intro set_eqI iffI)
    fix y assume "y \<in> set ?xs"
    then obtain k v where "(k, v) \<in> set es" "y = (drop (length P) k, v)" by auto
    with key [of k v] show "y \<in> {(q, v). m (P @ q) = Some v \<and> prefix p q}" by simp
  next
    fix y assume "y \<in> {(q, v). m (P @ q) = Some v \<and> prefix p q}"
    then obtain q v where "m (P @ q) = Some v" "prefix p q" "y = (q, v)" by blast
    then have "(P @ q, v) \<in> set es" "y = (drop (length P) (P @ q), v)"
      using assms by (auto simp: lists_entries_def)
    then show "y \<in> set ?xs" by force
  qed
  ultimately show "lists_entries (\<lambda>q. m (P @ q)) (prefix p) ?xs" by (simp add: lists_entries_def)
qed

section \<open>Properties\<close>



text \<open>
  C31: a scan streams, in chunks of one to 256 entries and up to its limit, exactly the live entries
  of the tenant under the prefix, by increasing key and with the keys the client used; it never
  panics, and never shows an entry of another tenant.
\<close>

theorem grpc_scan_exact:
  assumes "fjall_ok (fjall E) fv fi" and "node_ok E fv fi fd ft (svc api) l"
    and "scan_impl E w api req = (Inr chunks, api')"
  shows "\<exists>cs xs. chunks = Some cs \<and> concat cs = take (unat (cap_scan_limit api (sq_limit (body req)))) xs
    \<and> lists_entries (\<lambda>q. live_at (contents fv (svc api)) (now_ms (w_time w) (nclock (svc api)))
         (raw_key (sq_tenant (body req)) Data q)) (prefix (sq_prefix (body req))) xs
    \<and> (\<forall>c\<in>set cs. c \<noteq> [] \<and> length c \<le> SCAN_CHUNK_SIZE)"
  using assms(3)
proof (cases rule: scan_impl_cases)
  case (ran th es)
  let ?t = "sq_tenant (body req)" and ?p = "sq_prefix (body req)"
  let ?limit = "unat (cap_scan_limit api (sq_limit (body req)))"
  let ?m = "live_at (contents fv (svc api)) (now_ms (w_time w) (nclock (svc api)))"
  have wf: "backend_wf fi (store (svc api))" using assms(2) by (simp add: node_ok_def)
  have "lists_entries ?m (\<lambda>k. raw_key ?t Data ?p \<le> k \<and> k < next_prefix_bound (raw_key ?t Data ?p)) es"
    using ran(4) storage.scan_range_lists [OF backend_storage [OF assms(1)] wf]
    by (auto simp: node_scan_range_def map_sum_eq_Inr_iff contents_def intro!: filter_scan_lists)
  then have es: "lists_entries ?m (prefix (raw_key ?t Data [] @ ?p)) es"
    by (simp only: next_bound_raw_key) (simp add: raw_key_def)
  let ?xs = "map (\<lambda>(k, v). (drop (length (raw_key ?t Data [])) k, v)) es"
  have "length (raw_key ?t Data []) \<le> length k" if "(k, v) \<in> set (take ?limit es)" for k v
    using lists_entries_strip(2) [OF es in_set_takeD [OF that]] .
  then obtain cs where "chunks = Some cs" "concat cs = take ?limit ?xs" "\<forall>c\<in>set cs. c \<noteq> [] \<and> length c \<le> SCAN_CHUNK_SIZE"
    using scan_chunks_concat [of "take ?limit es" "length (raw_key ?t Data [])" "[]" "[]"] ran(5)
    by (auto simp: SCAN_CHUNK_SIZE_def take_map)
  moreover have "lists_entries (\<lambda>q. ?m (raw_key ?t Data q)) (prefix ?p) ?xs"
    using lists_entries_strip(1) [OF es] by (simp add: raw_key_def)
  ultimately show ?thesis by blast
qed simp

theorem grpc_scan_exact_witness:
  "\<exists>cs. fst (scan_impl env_example world_example (grpc_new node_example)
      \<lparr>authorization = None, extension = Some Anonymous, body = \<lparr>sq_tenant = [0x61], sq_prefix = [1], sq_limit = 0\<rparr>\<rparr>)
     = Inr (Some cs) \<and> concat cs = []"
proof -
  let ?r = "\<lparr>authorization = None, extension = Some Anonymous, body = \<lparr>sq_tenant = [0x61], sq_prefix = [1], sq_limit = 0\<rparr>\<rparr>"
  let ?s = "scan_impl env_example world_example (grpc_new node_example) ?r"
  have ok: "node_ok env_example ref_view ref_wf (\<lambda>s. dm_get (synced s)) (\<lambda>s. set (dirty s))
      (svc (grpc_new node_example)) \<lparr>base = 3, entries = []\<rparr>"
    using node_ok_example by (simp add: grpc_new_def)
  have "isl (fst ?s) = False" by code_simp
  then obtain chunks where s: "?s = (Inr chunks, snd ?s)" by (cases "fst ?s") (auto simp: prod_eq_iff)
  obtain cs xs where "chunks = Some cs" "concat cs = take (unat (cap_scan_limit (grpc_new node_example) 0)) xs"
    "lists_entries (\<lambda>q. live_at Map.empty (now_ms (w_time world_example) (nclock node_example))
       (raw_key [0x61] Data q)) (prefix [1]) xs"
    using grpc_scan_exact [OF example_ctx(1) ok s] contents_example by (auto simp: grpc_new_def)
  moreover from this(3) have "xs = []" by (auto simp: lists_entries_def live_at_def)
  ultimately show ?thesis by (subst s) simp
qed



text \<open>
  C38: a batch whose operations are neither puts nor deletes is charged to the tenant it names
  whoever sends it: the service after it is the service after the charge, for every principal and
  even for a request without one.
\<close>

theorem grpc_batch_charges_unauthorized:
  assumes "\<And>oper. oper \<in> set (bq_ops (body req)) \<Longrightarrow> bo_op oper \<noteq> OP_PUT \<and> bo_op oper \<noteq> OP_DELETE"
    and "bq_tenant (body req) \<noteq> []" and "length (bq_tenant (body req)) \<le> 255"
    and "length (bq_ops (body req)) \<le> max_batch_ops (limits (config (svc api)))"
  shows "snd (batch_impl E blake3 w ws api req)
    = snd (grpc_admit E w api (bq_tenant (body req)) (batch_cost (length (bq_ops (body req)))))"
proof -
  let ?t = "bq_tenant (body req)" and ?ops = "bq_ops (body req)"
  obtain a api1 where adm: "grpc_admit E w api ?t (batch_cost (length ?ops)) = (a, api1)" by fastforce
  obtain q api2 where loop: "batch_loop E blake3 ws (principal_of req) ?t ?ops api1 = (q, api2)" by fastforce
  have "api2 = api1" using batch_loop_no_writes [OF assms(1-3) loop] .
  moreover have "check_tenant ?t = Inr ()" "enforce_batch_size api (length ?ops) = Inr ()"
    using assms(2-4) by (simp_all add: check_tenant_Inr_iff enforce_batch_size_Inr_iff)
  moreover have "\<not> list_ex (\<lambda>oper. bo_op oper = OP_PUT) ?ops" "\<not> list_ex (\<lambda>oper. bo_op oper = OP_DELETE) ?ops"
    using assms(1) by (auto simp: list_ex_iff)
  ultimately show ?thesis
    using adm loop by (cases a; cases q) (simp_all add: batch_impl_def Let_def)
qed

theorem grpc_batch_charges_unauthorized_witness:
  "let n = node_example\<lparr>nthrottle := throttle_new 1\<rparr>;
       req = \<lparr>authorization = None, extension = Some (Authenticated claims_example),
         body = \<lparr>bq_tenant = [0x61], bq_ops = [\<lparr>bo_op = 7, bo_key = [], bo_value = []\<rparr>]\<rparr>\<rparr>
   in dm_get (limiters (nthrottle n)) [0x61] = None
      \<and> dm_get (limiters (nthrottle (svc (snd (batch_impl env_example (\<lambda>_. []) world_example (\<lambda>_. world_example)
            (grpc_new n) req))))) [0x61] \<noteq> None"
proof -
  let ?n = "node_example\<lparr>nthrottle := throttle_new 1\<rparr>"
  let ?req = "\<lparr>authorization = None, extension = Some (Authenticated claims_example),
         body = \<lparr>bq_tenant = [0x61], bq_ops = [\<lparr>bo_op = 7, bo_key = [], bo_value = []\<rparr>]\<rparr>\<rparr>"
  have "dm_get (limiters (nthrottle ?n)) [0x61] = None" by code_simp
  moreover have "dm_get (limiters (nthrottle (svc (snd (grpc_admit env_example world_example (grpc_new ?n) [0x61] 1)))))
      [0x61] \<noteq> None"
    by code_simp
  moreover have "batch_cost 1 = 1" by (simp add: batch_cost_def)
  moreover have "max_batch_ops (limits (config (svc (grpc_new ?n)))) = 4" by code_simp
  ultimately show ?thesis
    using grpc_batch_charges_unauthorized [where req = ?req and api = "grpc_new ?n" and E = env_example
        and w = world_example and ?blake3.0 = "\<lambda>_. []" and ws = "\<lambda>_. world_example"]
    by (simp add: Let_def OP_PUT_def OP_DELETE_def)
qed



text \<open>
  What was put is what a get answers. After a put that succeeded, a get of the same key of the
  same tenant that succeeds, at any later time and by any authorized caller, finds the value until
  its time to live is over and reports it missing from then on; every other key, of this or another
  tenant, is answered as it was before the put.
\<close>

lemma grpc_put_then_get:
  assumes "fjall_ok (fjall E) fv fi" and "fjall_durable (fjall E) fv fi fd ft" and "node_ok E fv fi fd ft (svc api) l"
    and "utf8_valid (rq_tenant (body pq))" and "utf8_valid (rq_tenant (body gq))" and "rotate_safe (w_rotate w)"
    and "max_key_size (limits (config (svc api))) + 257 < 2 ^ 32" and "max_value_size (limits (config (svc api))) + 9 < 2 ^ 32"
    and "totals_fit (contents fv (svc api))"
    and "totals_fit ((contents fv (svc api))(raw_key (rq_tenant (body pq)) Data (rq_key (body pq)) \<mapsto>
           value_encode (rq_value (body pq)) (expiry_of w (svc api) (rq_ttl_ms (body pq)))))"
    and "put_impl E blake3 w api pq = (Inr ver, api1)" and "svc api' = svc api1" and "get_impl E w' api' gq = (Inr resp, api'')"
  shows "resp = get_answer
    (let now = now_ms (w_time w') (nclock (svc api'))
     in if rq_tenant (body gq) = rq_tenant (body pq) \<and> rq_key (body gq) = rq_key (body pq) then
          if rq_ttl_ms (body pq) > 0
             \<and> saturating_add (now_ms (w_time w) (nclock (svc api))) (rq_ttl_ms (body pq)) \<le> now
          then None else Some (rq_value (body pq))
        else live_at (contents fv (svc api)) now (raw_key (rq_tenant (body gq)) Data (rq_key (body gq))))"
  using assms(11)
proof (cases rule: put_impl_cases)
  case (ran th q n')
  let ?k = "raw_key (rq_tenant (body pq)) Data (rq_key (body pq))"
  let ?k' = "raw_key (rq_tenant (body gq)) Data (rq_key (body gq))"
  let ?raw = "value_encode (rq_value (body pq)) (expiry_of w (svc api) (rq_ttl_ms (body pq)))"
  have t: "tenant_ok (rq_tenant (body pq))" using ran(2,3) assms(4) by (simp add: tenant_ok_def MAX_TENANT_LEN_def)
  have len: "length ?k < 2 ^ 32" "length (rq_value (body pq)) + 9 < 2 ^ 32"
    using ran(3-5) assms(7,8) by (simp_all add: raw_key_def)
  obtain u where q: "q = Inr u" using ran(7) by (cases q) auto
  have k: "\<not> bookkeeping ?k" using t by simp
  obtain l' where ok: "node_ok E fv fi fd ft (svc api') l'"
    and sd: "same_data (contents fv (svc api')) ((contents fv (svc api))(?k \<mapsto> ?raw))"
    using put_ok [OF assms(1,2) _ k len ran(6) [unfolded q] assms(6)] assms(3,9,10) ran(8) assms(12) by auto
  from assms(13) show ?thesis
  proof (cases rule: get_impl_cases)
    case g: (ran th' v)
    have t': "tenant_ok (rq_tenant (body gq))" using g(2,3) assms(5) by (simp add: tenant_ok_def MAX_TENANT_LEN_def)
    have "backend_wf fi (store (svc api'))" using ok by (simp add: node_ok_def)
    from node_get_live [OF assms(1) this g(4)] have "v = live_at ((contents fv (svc api))(?k \<mapsto> ?raw))
        (now_ms (w_time w') (nclock (svc api'))) ?k'"
      using live_at_same_data [OF sd, of ?k'] t' by simp
    then show ?thesis
      using g(5) t t' by (simp add: get_answer_def live_at_put expiry_of_def Let_def)
  qed simp
qed simp

end
