(* ===== verification/Grpc_Watch.thy ===== *)
theory Grpc_Watch
  imports Grpc
begin

text \<open>
  The event stream of a watch, \<open>watch_stream\<close> of \<^verbatim>\<open>ferriskv-node/src/grpc.rs\<close>. One turn of its loop
  ends with one branch of \<open>select!\<close>: the heartbeat timer, or something received from the channel.
  A run interleaves the turns of a stream with the sends of the writers, in any order. Shown here:
  a stream delivers exactly the changes under its prefix, in order and without a gap, until it says
  that it lost some; and a write is announced to the watchers of its tenant and to no one else.
\<close>

section \<open>Definitions\<close>

datatype watch_event_kind = KIND_UNSPECIFIED | KIND_PUT | KIND_DELETE | KIND_HEARTBEAT

fun event_kind_i32 :: "watch_event_kind \<Rightarrow> u32" where
  "event_kind_i32 KIND_UNSPECIFIED = 0"
| "event_kind_i32 KIND_PUT = 1"
| "event_kind_i32 KIND_DELETE = 2"
| "event_kind_i32 KIND_HEARTBEAT = 3"

record watch_event =
  we_kind :: u32
  we_key :: bytes
  we_value :: bytes
  we_version :: u64

definition to_watch_event :: "key_change \<Rightarrow> watch_event" where
  "to_watch_event change =
     \<lparr>we_kind = event_kind_i32 (case kind change of change_kind.Put \<Rightarrow> KIND_PUT | change_kind.Delete \<Rightarrow> KIND_DELETE),
      we_key = ckey change, we_value = cvalue change, we_version = 0\<rparr>"

definition heartbeat_event :: watch_event where
  "heartbeat_event = \<lparr>we_kind = event_kind_i32 KIND_HEARTBEAT, we_key = [], we_value = [], we_version = 0\<rparr>"

definition defer_heartbeat :: "nat \<Rightarrow> watch_state \<Rightarrow> watch_state" where
  "defer_heartbeat now st = st\<lparr>ws_next_beat := now + ws_heartbeat st\<rparr>"

text \<open>
  How a turn ends: the loop goes on, an item is yielded with the state for the next one, or the
  stream is over.
\<close>

datatype turn = Continue watch_state | Yield "status + watch_event" "watch_state option" | End

text \<open>
  The branch of \<open>select!\<close> that completes. The timer completes only once its deadline has passed, and
  \<open>recv\<close> only when there is something to receive; otherwise the loop keeps waiting.
\<close>

datatype ready = Idle | Recv

definition watch_received :: "nat \<Rightarrow> recv \<Rightarrow> watch_state \<Rightarrow> turn" where
  "watch_received now r st =
     (case r of
        Received change \<Rightarrow>
          if \<not> prefix (ws_prefix st) (ckey change) then Continue st
          else Yield (Inr (to_watch_event change)) (Some (defer_heartbeat now st))
      | Lagged missed \<Rightarrow>
          Yield (Inl (status_text DataLoss
            (''watch fell behind by '' @ dec (unat missed) @ '' events; re-read and resubscribe''))) None
      | Closed \<Rightarrow> End
      | Pending \<Rightarrow> Continue st)"

definition watch_turn :: "'c broadcast_api \<Rightarrow> nat \<Rightarrow> ready \<Rightarrow> 'c \<Rightarrow> watch_state \<Rightarrow> turn \<times> 'c" where
  "watch_turn B now rd c st =
     (case rd of
        Idle \<Rightarrow>
          if ws_next_beat st \<le> now then (Yield (Inr heartbeat_event) (Some (defer_heartbeat now st)), c)
          else (Continue st, c)
      | Recv \<Rightarrow> (case bc_recv B c (ws_rx st) of (r, c') \<Rightarrow> (watch_received now r st, c')))"

text \<open>Runs: the channel, the stream while it is open, and the items it yielded.\<close>

datatype sched = Send key_change | Turn nat ready

fun watch_stream ::
    "'c broadcast_api \<Rightarrow> sched list \<Rightarrow> 'c \<Rightarrow> watch_state option \<Rightarrow>
     (status + watch_event) list \<times> 'c \<times> watch_state option" where
  "watch_stream B [] c so = ([], c, so)"
| "watch_stream B (Send x # s) c so = watch_stream B s (bc_send B c x) so"
| "watch_stream B (Turn now rd # s) c None = watch_stream B s c None"
| "watch_stream B (Turn now rd # s) c (Some st) =
     (case watch_turn B now rd c st of
        (Continue st', c') \<Rightarrow> watch_stream B s c' (Some st')
      | (Yield item so', c') \<Rightarrow> (case watch_stream B s c' so' of (items, fin) \<Rightarrow> (item # items, fin))
      | (End, c') \<Rightarrow> watch_stream B s c' None)"

subsection \<open>What a client should see\<close>

fun sends :: "sched list \<Rightarrow> key_change list" where
  "sends [] = []"
| "sends (Send x # s) = x # sends s"
| "sends (Turn _ _ # s) = sends s"

text \<open>The changes under a prefix, as events; and the events among the items that are not heartbeats.\<close>

definition wanted :: "bytes \<Rightarrow> key_change list \<Rightarrow> watch_event list" where
  "wanted p xs = map to_watch_event (filter (\<lambda>x. prefix p (ckey x)) xs)"

definition delivered :: "(status + watch_event) list \<Rightarrow> watch_event list" where
  "delivered items = filter (\<lambda>e. e \<noteq> heartbeat_event) (List.map_filter (\<lambda>i. case i of Inr e \<Rightarrow> Some e | Inl _ \<Rightarrow> None) items)"

definition is_data_loss :: "status + watch_event \<Rightarrow> bool" where
  "is_data_loss i = (case i of Inl s \<Rightarrow> st_code s = DataLoss | Inr _ \<Rightarrow> False)"

text \<open>
  The items of a stream have no silent gap: an open stream has delivered all the changes asked for but
  those still queued, and one that is over delivered the first of them and ended with an error.
\<close>

definition gapless ::
    "(status + watch_event) list \<Rightarrow> watch_event list \<Rightarrow> watch_event list option \<Rightarrow> watch_state option \<Rightarrow> bool" where
  "gapless items all pending so =
     (case so of
        Some _ \<Rightarrow> map_option (\<lambda>r. delivered items @ r) pending = Some all \<and> list_all (Not \<circ> isl) items
      | None \<Rightarrow> items \<noteq> [] \<and> is_data_loss (last items) \<and> prefix (delivered items) all)"

text \<open>What is in flight after a write that ended with \<open>r\<close>: a success is queued for every receiver of its tenant.\<close>

definition announce ::
    "unit result \<Rightarrow> str \<Rightarrow> key_change \<Rightarrow> (str \<Rightarrow> nat \<rightharpoonup> key_change list) \<Rightarrow> str \<Rightarrow> nat \<rightharpoonup> key_change list" where
  "announce r t x fl = (if isl r then fl else fl(t := \<lambda>rx. map_option (\<lambda>q. q @ [x]) (fl t rx)))"

text \<open>A stream that subscribed to a channel of capacity two, with the prefix \<open>k\<close>, and a change it wants.\<close>

definition stream_example :: watch_state where
  "stream_example = \<lparr>ws_rx = 0, ws_prefix = [0x6B], ws_heartbeat = 30, ws_next_beat = 30, ws_tenant = [0x61]\<rparr>"

definition change_example :: key_change where
  "change_example = \<lparr>kind = change_kind.Put, ckey = [0x6B, 0x31], cvalue = [0x76]\<rparr>"

definition channel_example :: channel where
  "channel_example = snd (bc_subscribe broadcast_reference (bc_channel broadcast_reference 2))"

section \<open>Lemmas\<close>

lemma to_watch_event_not_heartbeat [simp]: "to_watch_event x \<noteq> heartbeat_event"
  by (cases "kind x") (simp_all add: to_watch_event_def heartbeat_event_def)

lemma delivered_simps [simp]:
  "delivered [] = []"
  "delivered (Inr heartbeat_event # items) = delivered items"
  "delivered (Inr (to_watch_event x) # items) = to_watch_event x # delivered items"
  "delivered (Inl s # items) = delivered items"
  by (simp_all add: delivered_def List.map_filter_simps)

lemma wanted_simps [simp]:
  "wanted p [] = []" "wanted p (xs @ ys) = wanted p xs @ wanted p ys"
  "prefix p (ckey x) \<Longrightarrow> wanted p (x # xs) = to_watch_event x # wanted p xs"
  "\<not> prefix p (ckey x) \<Longrightarrow> wanted p (x # xs) = wanted p xs"
  by (simp_all add: wanted_def)

lemma gapless_simps [simp]:
  "gapless (Inr heartbeat_event # items) all pd so = gapless items all pd so"
  "gapless (Inr (to_watch_event x) # items) (to_watch_event x # all) pd so = gapless items all pd so"
  by (auto simp: gapless_def is_data_loss_def split: option.splits)

lemma defer_heartbeat_simps [simp]:
  "ws_rx (defer_heartbeat now st) = ws_rx st" "ws_prefix (defer_heartbeat now st) = ws_prefix st"
  by (simp_all add: defer_heartbeat_def)

lemma watch_stream_closed: "watch_stream B s c None = (items, fin) \<Longrightarrow> items = []"
  by (induction s arbitrary: c) (auto, metis watch_stream.simps(2,3) sched.exhaust)

lemma watch_stream_ended: "snd (snd (watch_stream B s c None)) = None"
proof (induction s arbitrary: c)
  case (Cons e s)
  then show ?case by (cases e) simp_all
qed simp

text \<open>One turn that receives: what it takes from the queue is yielded, skipped, or reported lost.\<close>

lemma watch_turn_recv:
  assumes "broadcast_ok B bi bq bcap" and "bi c" and "bq c (ws_rx st) = Some q"
    and "watch_turn B now Recv c st = (tn, c')"
  obtains (skip) q' where "tn = Continue st" and "bi c'" and "bq c' (ws_rx st) = Some q'"
      and "wanted (ws_prefix st) q' = wanted (ws_prefix st) q"
  | (event) x q' where "tn = Yield (Inr (to_watch_event x)) (Some (defer_heartbeat now st))" and "bi c'"
      and "bq c' (ws_rx st) = Some q'" and "wanted (ws_prefix st) q = to_watch_event x # wanted (ws_prefix st) q'"
  | (lost) s where "tn = Yield (Inl s) None" and "st_code s = DataLoss" and "length q > bcap c"
proof -
  obtain r where r: "bc_recv B c (ws_rx st) = (r, c')" and tn: "tn = watch_received now r st"
    using assms(4) by (auto simp: watch_turn_def split: prod.splits)
  note k = broadcast_okD(6) [OF assms(1,2,3) r]
  then obtain q' where q': "bi c'" "bq c' (ws_rx st) = Some q'" "(\<nexists>n. r = Lagged n) \<longrightarrow> q' = tl q" by auto
  have val: "r = (case q of [] \<Rightarrow> Pending | x # _ \<Rightarrow> Received x) \<or> (\<exists>n. r = Lagged n) \<and> length q > bcap c"
    using k by (cases "length q \<le> bcap c") (auto split: list.splits)
  show thesis
  proof (cases r)
    case (Received x)
    with val obtain qs where q: "q = x # qs" by (auto split: list.splits)
    with q' Received have "q' = qs" by simp
    with q q' Received tn skip [of q'] event [of x q'] show thesis
      by (cases "prefix (ws_prefix st) (ckey x)") (simp_all add: watch_received_def)
  next
    case (Lagged n)
    with val tn lost show thesis by (simp add: watch_received_def status_text_def split: list.splits)
  next
    case Closed
    with val show thesis by (auto split: list.splits)
  next
    case Pending
    with val q' tn skip [of q'] show thesis by (auto simp: watch_received_def split: list.splits)
  qed
qed

lemma watch_stream_run:
  assumes "broadcast_ok B bi bq bcap" and "bi c" and "bq c (ws_rx st) = Some q"
    and "watch_stream B s c (Some st) = (items, c', so)"
  shows "gapless items (wanted (ws_prefix st) (q @ sends s)) (map_option (wanted (ws_prefix st)) (bq c' (ws_rx st))) so"
  using assms(2-4)
proof (induction s arbitrary: c st q items)
  case Nil
  then show ?case by (auto simp: gapless_def)
next
  case (Cons e s)
  show ?case
  proof (cases e)
    case (Send x)
    have "bi (bc_send B c x) \<and> bq (bc_send B c x) (ws_rx st) = Some (q @ [x])"
      using broadcast_okD(4) [OF assms(1) Cons.prems(1), of x] Cons.prems(2) by simp
    then show ?thesis
      using Cons.IH [of "bc_send B c x" st "q @ [x]" items] Cons.prems(3) Send by simp
  next
    case (Turn now rd)
    obtain tn c1 where t: "watch_turn B now rd c st = (tn, c1)" by fastforce
    show ?thesis
    proof (cases rd)
      case Idle
      show ?thesis
      proof (cases "ws_next_beat st \<le> now")
        case True
        let ?st = "defer_heartbeat now st"
        obtain rest where "watch_stream B s c (Some ?st) = (rest, c', so)" "items = Inr heartbeat_event # rest"
          using Cons.prems(3) Turn Idle True by (auto simp: watch_turn_def split: prod.splits)
        with Cons.IH [of c ?st q rest] Cons.prems(1,2) Turn show ?thesis by simp
      next
        case False
        with Cons Turn Idle show ?thesis by (simp add: watch_turn_def)
      qed
    next
      case Recv
      from assms(1) Cons.prems(1,2) t [unfolded Recv] show ?thesis
      proof (cases rule: watch_turn_recv)
        case (skip q')
        with Cons.IH [of c1 st q' items] Cons.prems(3) Turn Recv t show ?thesis by simp
      next
        case (event x q')
        let ?st = "defer_heartbeat now st"
        obtain rest where "watch_stream B s c1 (Some ?st) = (rest, c', so)" "items = Inr (to_watch_event x) # rest"
          using Cons.prems(3) Turn t event(1) by (auto split: prod.splits)
        with Cons.IH [of c1 ?st q' rest] event Turn show ?thesis by simp
      next
        case (lost st')
        then obtain rest fin where r: "watch_stream B s c1 None = (rest, fin)" "items = Inl st' # rest" "(c', so) = fin"
          using Cons.prems(3) Turn t by (auto split: prod.splits)
        with watch_stream_closed [OF r(1)] watch_stream_ended [of B s c1] lost(2) show ?thesis
          by (auto simp: is_data_loss_def gapless_def)
      qed
    qed
  qed
qed

subsection \<open>Announcing a write\<close>

lemma publish_change_in_flight:
  assumes "broadcast_ok (broadcast E) bi bq bcap" and "hub_wf bi (hub n)" and "key_decode k = Inr (t, Data, p)"
  shows "hub_wf bi (hub (publish_change E n k kd v))
    \<and> in_flight bq (hub (publish_change E n k kd v))
      = announce (Inr ()) t \<lparr>kind = kd, ckey = p, cvalue = v\<rparr> (in_flight bq (hub n))"
  using assms(2,3) is_watched_iff [OF assms(1,2), of t]
    publish_in_flight [OF assms(1,2), of t "\<lparr>kind = kd, ckey = p, cvalue = v\<rparr>"]
  by (auto simp: publish_change_def announce_def fun_eq_iff)

lemma hub_publish_change: "hub n = hub n1 \<Longrightarrow> hub (publish_change E n k kd v) = hub (publish_change E n1 k kd v)"
  by (simp add: publish_change_def split: sum.split prod.split)

lemma put_hub:
  assumes "put_with_ttl E w n k v ttl = (r, n')"
  shows "hub n' = (if isl r then hub n else hub (publish_change E n k change_kind.Put v))"
proof (cases r)
  case (Inl e)
  from assms [unfolded Inl] show ?thesis
    unfolding Inl by (cases rule: put_with_ttl_Inl) simp_all
next
  case (Inr u)
  from assms [unfolded Inr] show ?thesis
    unfolding Inr by (cases rule: put_with_ttl_Inr) (simp add: hub_publish_change [of "commit_accounting _ _ _" n])
qed

lemma delete_hub:
  assumes "node_delete E w n k = (r, n')"
  shows "hub n' = (if isl r then hub n else hub (publish_change E n k change_kind.Delete []))"
proof (cases r)
  case (Inl e)
  with assms show ?thesis by (auto simp: node_delete_def Let_def split: sum.splits prod.splits)
next
  case (Inr u)
  from assms [unfolded Inr] show ?thesis
    unfolding Inr by (cases rule: node_delete_Inr) (simp add: hub_publish_change [of "commit_accounting _ _ _" n])
qed

lemma announce_failed [simp]: "isl r \<Longrightarrow> announce r t x fl = fl"
  by (simp add: announce_def)

lemma announce_Inr: "\<not> isl r \<Longrightarrow> announce r t x fl = announce (Inr ()) t x fl"
  by (simp add: announce_def)

section \<open>Properties\<close>



text \<open>
  C15: every write the node acknowledges is announced, once, after the changes already queued, to each
  watcher of its tenant, with the key as the client knows it; no other tenant's watcher sees it, and a
  write that fails is announced to no one.
\<close>

theorem node_write_announced:
  assumes "broadcast_ok (broadcast E) bi bq bcap" and "hub_wf bi (hub n)" and "key_decode k = Inr (t, Data, p)"
    and "put_with_ttl E w n k v ttl = (rp, np)" and "node_delete E w n k = (rd, nd)"
  shows "hub_wf bi (hub np) \<and> hub_wf bi (hub nd)
    \<and> in_flight bq (hub np) = announce rp t \<lparr>kind = change_kind.Put, ckey = p, cvalue = v\<rparr> (in_flight bq (hub n))
    \<and> in_flight bq (hub nd) = announce rd t \<lparr>kind = change_kind.Delete, ckey = p, cvalue = []\<rparr> (in_flight bq (hub n))"
  using put_hub [OF assms(4)] delete_hub [OF assms(5)] publish_change_in_flight [OF assms(1-3)] assms(2)
    announce_Inr [of rp] announce_Inr [of rd]
  by (cases "isl rp"; cases "isl rd") simp_all

theorem node_write_announced_witness:
  "let k = raw_key [0x61] Data [0x6B];
       n = node_example\<lparr>hub := snd (subscribe broadcast_reference (hub node_example) [0x61])\<rparr>;
       n' = snd (put_with_ttl env_example world_example n k [0x76] 0)
   in isl (fst (put_with_ttl env_example world_example n k [0x76] 0)) = False
     \<and> in_flight (\<lambda>c. dm_get (ch_queues c)) (hub n') [0x61] 0
       = Some [\<lparr>kind = change_kind.Put, ckey = [0x6B], cvalue = [0x76]\<rparr>]"
proof -
  let ?k = "raw_key [0x61] Data [0x6B]"
  let ?n = "node_example\<lparr>hub := snd (subscribe broadcast_reference (hub node_example) [0x61])\<rparr>"
  have b: "broadcast_ok (broadcast env_example) channel_wf (\<lambda>c. dm_get (ch_queues c)) ch_capacity"
    by (simp add: env_example_def broadcast_ok_reference)
  have h: "hub_wf channel_wf (hub ?n)" "in_flight (\<lambda>c. dm_get (ch_queues c)) (hub ?n) [0x61] 0 = Some []"
    by (simp_all add: node_example_def hub_new_def subscribe_def hub_wf_def in_flight_def broadcast_reference_def
        channel_wf_def dashmap_simps)
  have ok: "isl (fst (put_with_ttl env_example world_example ?n ?k [0x76] 0)) = False" by code_simp
  have d: "key_decode ?k = Inr ([0x61], Data, [0x6B])" by code_simp
  obtain rd nd where dl: "node_delete env_example world_example ?n ?k = (rd, nd)" by fastforce
  obtain rp np where pt: "put_with_ttl env_example world_example ?n ?k [0x76] 0 = (rp, np)" by fastforce
  from ok pt h(2) node_write_announced [OF b h(1) d pt dl] show ?thesis by (simp add: announce_def Let_def)
qed

end
