(* ===== verification/Node_Sweep.thy ===== *)
theory Node_Sweep
  imports Node_Correctness
begin

text \<open>
  The sweeper of \<open>ferriskv-node/src/ttl.rs\<close> at work on a node (its definitions are in the theory of
  the node service). Shown here: whatever fails, a sweep removes nothing a client could still read;
  when nothing fails it removes every expired entry and keeps the invariant of a running node, though
  the index has lost the due keys meanwhile; and the sweeper never sleeps past the earliest expiry.
\<close>

section \<open>Definitions\<close>

definition expired_at :: "(bytes \<rightharpoonup> bytes) \<Rightarrow> u64 \<Rightarrow> bytes \<Rightarrow> bool" where
  "expired_at m now k = (case m k of None \<Rightarrow> False | Some raw \<Rightarrow> is_expired raw now = Inr True)"

text \<open>The map without its expired entries, and maps that lost nothing but expired entries.\<close>

definition evict :: "(bytes \<rightharpoonup> bytes) \<Rightarrow> u64 \<Rightarrow> (bytes \<rightharpoonup> bytes)" where
  "evict m now k = (if expired_at m now k then None else m k)"

definition evicts :: "u64 \<Rightarrow> (bytes \<rightharpoonup> bytes) \<Rightarrow> (bytes \<rightharpoonup> bytes) \<Rightarrow> bool" where
  "evicts now m m' \<longleftrightarrow> (\<forall>k. \<not> bookkeeping k \<longrightarrow> m' k = m k \<or> m' k = evict m now k)"

text \<open>The index holds keys of clients only, of a length the log can store.\<close>

definition sweepable :: "ttl_index \<Rightarrow> bool" where
  "sweepable ix \<longleftrightarrow> (\<forall>(e, k)\<in>scheduled ix. \<not> bookkeeping k \<and> length k < 2 ^ 32)"

definition reads_total :: "'f fjall_api \<Rightarrow> ('f \<Rightarrow> bool) \<Rightarrow> bool" where
  "reads_total F fi \<longleftrightarrow> (\<forall>s k. fi s \<longrightarrow> (\<exists>r. fj_get F s k = Inr r))"

text \<open>
  In the middle of a sweep: \<open>todo\<close> are the candidates not looked at yet, \<open>m\<close> the map and \<open>ix\<close> the
  index when it started. With its full index the node would be in order; its own index lacks at most
  the candidates.
\<close>

definition sweeping ::
    "('f, 'l, 'c) env \<Rightarrow> ('f \<Rightarrow> (bytes \<rightharpoonup> bytes)) \<Rightarrow> ('f \<Rightarrow> bool) \<Rightarrow> ('f \<Rightarrow> (bytes \<rightharpoonup> bytes)) \<Rightarrow>
     ('f \<Rightarrow> bytes set) \<Rightarrow> u64 \<Rightarrow> (bytes \<rightharpoonup> bytes) \<Rightarrow> ttl_index \<Rightarrow> bytes list \<Rightarrow> ('f, 'l, 'c) node \<Rightarrow> bool" where
  "sweeping E fv fi fd ft now m ix todo n \<longleftrightarrow>
     (\<exists>l. node_ok E fv fi fd ft (n\<lparr>index := ix\<rparr>) l) \<and> totals_fit (contents fv n)
     \<and> ttl_wf (index n) \<and> (\<forall>(e, k)\<in>scheduled (index n). now < e)
     \<and> (\<forall>k raw v e. contents fv n k = Some raw \<longrightarrow> value_decode raw = Inr v \<longrightarrow> expires_at_ms v = Some e \<longrightarrow>
          (e, k) \<in> scheduled (index n) \<or> k \<in> set todo)
     \<and> (\<forall>k. \<not> bookkeeping k \<longrightarrow> contents fv n k = evict m now k \<or> k \<in> set todo \<and> contents fv n k = m k)"

subsection \<open>An example\<close>

text \<open>The node of the example after a put that expires at 1010, at time 2000.\<close>

definition node_expiring :: "(ref_fjall, u32 \<times> instant \<times> nat, channel) node" where
  "node_expiring =
     (snd (put_with_ttl env_example world_example node_example (raw_key [0x61] Data []) [5] 10))\<lparr>nclock := Manual 2000\<rparr>"

section \<open>Lemmas\<close>

subsection \<open>Evictions\<close>

lemma expired_at_cong: "m k = m' k \<Longrightarrow> expired_at m now k = expired_at m' now k"
  by (simp add: expired_at_def)

lemma evicts_refl [simp]: "evicts now m m"
  by (simp add: evicts_def)

lemma evicts_trans: "evicts now m m' \<Longrightarrow> evicts now m' m'' \<Longrightarrow> evicts now m m''"
proof (unfold evicts_def, intro allI impI)
  fix k
  assume a: "\<forall>k. \<not> bookkeeping k \<longrightarrow> m' k = m k \<or> m' k = evict m now k"
    "\<forall>k. \<not> bookkeeping k \<longrightarrow> m'' k = m' k \<or> m'' k = evict m' now k" and k: "\<not> bookkeeping k"
  from a k have "m' k = m k \<or> m' k = evict m now k" "m'' k = m' k \<or> m'' k = evict m' now k" by blast+
  then show "m'' k = m k \<or> m'' k = evict m now k"
    using expired_at_cong [of m' k m now] by (auto simp: evict_def split: if_splits)
qed

lemma live_at_evict: "now \<le> now' \<Longrightarrow> live_at (evict m now) now' k = live_at m now' k"
  by (cases "m k")
    (auto simp: live_at_def evict_def expired_at_def is_expired_decode map_sum_eq_Inr_iff
      split: sum.splits option.splits intro: order_trans)

lemma live_at_evicts:
  assumes "evicts now m m'" and "now \<le> now'" and "\<not> bookkeeping k"
  shows "live_at m' now' k = live_at m now' k"
proof -
  have "m' k = m k \<or> m' k = evict m now k" using assms(1,3) by (simp add: evicts_def)
  then show ?thesis
    using live_at_evict [OF assms(2), of m k] by (auto simp: live_at_def)
qed

subsection \<open>One candidate\<close>

lemma sweep_key_cases:
  assumes "sweep_key E now w k (n, rm) = (n', rm')"
  obtains (skip) "n' = n" and "backend_get (fjall E) (store n) k = Inr None
      \<or> (\<exists>raw v. backend_get (fjall E) (store n) k = Inr (Some raw) \<and> value_decode raw = Inr v \<and> expires_at_ms v = None)
      \<or> (\<exists>raw e. backend_get (fjall E) (store n) k = Inr (Some raw) \<and> value_decode raw = Inl e)
      \<or> (\<exists>e. backend_get (fjall E) (store n) k = Inl e)"
  | (delete) raw r where "backend_get (fjall E) (store n) k = Inr (Some raw)" and "is_expired raw now = Inr True"
      and "node_delete E w n k = (r, n')"
  | (keep) raw v e where "backend_get (fjall E) (store n) k = Inr (Some raw)" and "is_expired raw now = Inr False"
      and "value_decode raw = Inr v" and "expires_at_ms v = Some e" and "n' = n\<lparr>index := schedule (index n) k e\<rparr>"
proof (cases "backend_get (fjall E) (store n) k")
  case (Inl e)
  with assms skip show thesis by (simp add: sweep_key_def)
next
  case (Inr got)
  show thesis
  proof (cases got)
    case None
    with Inr assms skip show thesis by (simp add: sweep_key_def)
  next
    case (Some raw)
    note get = Inr [unfolded Some]
    show thesis
    proof (cases "value_decode raw")
      case (Inl e)
      with get assms skip show thesis by (simp add: sweep_key_def is_expired_decode)
    next
      case (Inr v)
      show thesis
      proof (cases "is_expired raw now = Inr True")
        case True
        with get assms delete [of raw] show thesis
          by (auto simp: sweep_key_def split: sum.splits prod.splits)
      next
        case False
        with Inr have f: "is_expired raw now = Inr False" by (simp add: is_expired_decode)
        with Inr get assms skip keep [OF get f Inr] show thesis
          by (simp add: sweep_key_def split: option.splits)
      qed
    qed
  qed
qed

text \<open>Whatever fails, a candidate is left alone or was expired.\<close>

lemma sweep_key_evicts:
  assumes "fjall_ok (fjall E) fv fi" and "fjall_durable (fjall E) fv fi fd ft" and "backend_wf fi (store n)"
    and "sweep_key E now w k (n, rm) = (n', rm')"
  shows "backend_wf fi (store n') \<and> nclock n' = nclock n \<and> evicts now (contents fv n) (contents fv n')"
  using assms(4)
proof (cases rule: sweep_key_cases)
  case (delete raw r)
  have "contents fv n k = Some raw"
    using storage.get_view [OF backend_storage [OF assms(1)] assms(3) delete(1)] by (simp add: contents_def)
  with delete(2) have "expired_at (contents fv n) now k" by (simp add: expired_at_def)
  then have "evict (contents fv n) now k = None" by (simp add: evict_def)
  with delete_frame [OF assms(1-3) delete(3)] show ?thesis
    by (auto simp: evicts_def same_data_def)
qed (use assms(3) in \<open>simp_all add: contents_def\<close>)

lemma sweep_loop_evicts:
  assumes "fjall_ok (fjall E) fv fi" and "fjall_durable (fjall E) fv fi fd ft" and "backend_wf fi (store n)"
    and "sweep_loop E now ws ks (n, rm) = (n', rm')"
  shows "backend_wf fi (store n') \<and> nclock n' = nclock n \<and> evicts now (contents fv n) (contents fv n')"
  using assms(3,4)
proof (induction ks arbitrary: ws n rm)
  case (Cons k ks)
  obtain n1 rm1 where s: "sweep_key E now (ws 0) k (n, rm) = (n1, rm1)" by fastforce
  with Cons.prems(2) have l: "sweep_loop E now (\<lambda>i. ws (i + 1)) ks (n1, rm1) = (n', rm')" by simp
  have k: "backend_wf fi (store n1)" "nclock n1 = nclock n" "evicts now (contents fv n) (contents fv n1)"
    using sweep_key_evicts [OF assms(1,2) Cons.prems(1) s] by simp_all
  from Cons.IH [OF k(1) l] k(2) evicts_trans [OF k(3)] show ?case by simp
qed simp

subsection \<open>A sweep without faults\<close>

text \<open>Deleting does not look at the index.\<close>

lemma delete_index:
  "node_delete E w (n\<lparr>index := ix\<rparr>) k = map_prod id (\<lambda>n'. n'\<lparr>index := ix\<rparr>) (node_delete E w n k)"
proof -
  have p: "plan_delete_accounting E (n\<lparr>index := ix\<rparr>) k = plan_delete_accounting E n k"
    by (simp add: plan_delete_accounting_def split: sum.split prod.split)
  have c: "commit_accounting E (n\<lparr>index := ix\<rparr>) acc = (commit_accounting E n acc)\<lparr>index := ix\<rparr>" for n acc
    by (simp add: commit_accounting_def split: option.split prod.split)
  have q: "publish_change E (n\<lparr>index := ix\<rparr>) k kd v = (publish_change E n k kd v)\<lparr>index := ix\<rparr>" for n kd v
    by (simp add: publish_change_def split: sum.split prod.split)
  have r: "rotate_wal_if_needed E w (n\<lparr>index := ix\<rparr>) = (rotate_wal_if_needed E w n)\<lparr>index := ix\<rparr>" for n
    by (simp add: rotate_wal_if_needed_def split: sum.split prod.split)
  have s: "n\<lparr>index := ix, nwal := wl, store := s\<rparr> = n\<lparr>nwal := wl, store := s\<rparr>\<lparr>index := ix\<rparr>" for wl s by simp
  show ?thesis
    by (simp add: node_delete_def p s c q r Let_def del: node.update_convs split: sum.split prod.split)
qed

lemma delete_keeps_index:
  assumes "node_delete E w n k = (r, n')"
  shows "index n' = index n"
proof -
  have e: "n\<lparr>index := index n\<rparr> = n" by simp
  have "(r, n') = (r, n'\<lparr>index := index n\<rparr>)"
    using delete_index [where E = E and w = w and n = n and ix = "index n" and k = k] unfolding e assms by simp
  then have "index n' = index (n'\<lparr>index := index n\<rparr>)" by (metis prod.inject)
  then show ?thesis by simp
qed

lemma backend_get_total:
  assumes "reads_total (fjall E) fi" and "backend_wf fi (store n)"
  shows "\<exists>r. backend_get (fjall E) (store n) k = Inr r"
proof (cases "store n")
  case (Fjall s)
  with assms obtain r where "fj_get (fjall E) s k = Inr r" by (auto simp: reads_total_def)
  with Fjall show ?thesis by (simp add: fjall_get_def from_fjall_def)
qed (simp add: mem_get_def)

lemma delete_succeeds:
  assumes "fjall_ok (fjall E) fv fi" and "backend_total (fjall E) fi" and "reads_total (fjall E) fi"
    and "node_ok E fv fi fd ft n l" and "\<not> bookkeeping k" and "w_append w = io_ok"
  obtains n' where "node_delete E w n k = (Inr (), n')"
proof -
  have wf: "backend_wf fi (store n)" and wh: "wal_holds (crc32 E) (nwal n) l" and vo: "values_ok (contents fv n)"
    using assms(4) by (simp_all add: node_ok_def)
  obtain r where g: "backend_get (fjall E) (store n) k = Inr r" using backend_get_total [OF assms(3) wf] by blast
  have "r = contents fv n k"
    using storage.get_view [OF backend_storage [OF assms(1)] wf g] by (simp add: contents_def)
  then have "\<exists>len. payload_len raw = Inr len" if "r = Some raw" for raw
    using vo that assms(5) by (fastforce simp: values_ok_def payload_len_decode)
  then have "\<exists>acc. plan_delete_accounting E n k = Inr acc"
    using g by (cases r) (auto simp: plan_delete_accounting_def split: sum.split prod.split)
  moreover have "\<exists>sq wl. append (crc32 E) (w_append w) (nwal n) wal_op.Delete k [] = (Inr sq, wl)"
    using append_io_ok [OF wh] assms(6) by metis
  moreover have "fst (backend_delete (fjall E) (store n) k) = Inr ()"
  proof (cases "store n")
    case (Fjall s)
    with assms(2) wf have "fst (fj_remove (fjall E) s k) = Inr ()" by (simp add: backend_total_def)
    with Fjall show ?thesis by (auto simp: fjall_delete_def from_fjall_def split: prod.split)
  qed (simp add: mem_delete_def)
  ultimately show thesis
    using that by (cases "backend_delete (fjall E) (store n) k") (auto simp: node_delete_def Let_def)
qed

lemma totals_fit_remove: "finite (dom m) \<Longrightarrow> totals_fit m \<Longrightarrow> totals_fit (m(k := None))"
  unfolding totals_fit_def using tenant_bytes_remove [of m k] by (metis add_lessD1)

text \<open>
  The three things that can happen to a candidate in the middle of a sweep: it stays, it is deleted,
  it is scheduled again.
\<close>

lemma sweeping_unexpired:
  assumes "sweeping E fv fi fd ft now m ix (k # ks) n" and "\<not> bookkeeping k" and "\<not> expired_at (contents fv n) now k"
  shows "\<not> bookkeeping k' \<Longrightarrow> contents fv n k' = evict m now k' \<or> k' \<in> set ks \<and> contents fv n k' = m k'"
proof -
  have "contents fv n k = evict m now k \<or> contents fv n k = m k" using assms(1,2) by (auto simp: sweeping_def)
  with assms(3) have "contents fv n k = evict m now k"
    using expired_at_cong [of m k "contents fv n" now] by (auto simp: evict_def split: if_splits)
  with assms(1) show "\<not> bookkeeping k' \<Longrightarrow> contents fv n k' = evict m now k' \<or> k' \<in> set ks \<and> contents fv n k' = m k'"
    by (cases "k' = k") (auto simp: sweeping_def)
qed

lemma sweeping_keep:
  assumes "sweeping E fv fi fd ft now m ix (k # ks) n" and "\<not> bookkeeping k"
    and "\<not> expired_at (contents fv n) now k" and "n' = n\<lparr>index := ix'\<rparr>" and "ttl_wf ix'"
    and "scheduled ix' = scheduled (index n) \<union> new" and "\<forall>(e, k)\<in>new. now < e"
    and "\<And>raw v e. contents fv n k = Some raw \<Longrightarrow> value_decode raw = Inr v \<Longrightarrow> expires_at_ms v = Some e \<Longrightarrow> (e, k) \<in> new"
  shows "sweeping E fv fi fd ft now m ix ks n'"
proof -
  have c: "contents fv n' = contents fv n" "n'\<lparr>index := ix\<rparr> = n\<lparr>index := ix\<rparr>" "index n' = ix'"
    using assms(4) by (simp_all add: contents_def)
  have "(e, k') \<in> scheduled ix' \<or> k' \<in> set ks"
    if "contents fv n k' = Some raw" "value_decode raw = Inr v" "expires_at_ms v = Some e" for k' raw v e
  proof (cases "k' = k")
    case True
    with that assms(8) show ?thesis by (simp add: assms(6))
  next
    case False
    with that assms(1) have "(e, k') \<in> scheduled (index n) \<or> k' \<in> set ks" unfolding sweeping_def by fastforce
    with assms(6) show ?thesis by auto
  qed
  moreover have "\<forall>(e, k)\<in>scheduled ix'. now < e" using assms(1,6,7) by (auto simp: sweeping_def)
  ultimately show ?thesis
    using assms(1,5) sweeping_unexpired [OF assms(1-3)] unfolding sweeping_def c by blast
qed

lemma sweeping_delete:
  assumes ctx: "fjall_ok (fjall E) fv fi" "fjall_durable (fjall E) fv fi fd ft"
    and sw: "sweeping E fv fi fd ft now m ix (k # ks) n" and "sweepable ix" and bk: "\<not> bookkeeping k" "length k < 2 ^ 32"
    and ex: "expired_at (contents fv n) now k" and "rotate_safe (w_rotate w)" and d: "node_delete E w n k = (Inr (), n')"
  shows "sweeping E fv fi fd ft now m ix ks n'"
proof -
  obtain l where ok: "node_ok E fv fi fd ft (n\<lparr>index := ix\<rparr>) l" and tf: "totals_fit (contents fv n)"
    using sw by (auto simp: sweeping_def)
  have "contents fv n k = evict m now k \<or> contents fv n k = m k" using sw bk(1) by (auto simp: sweeping_def)
  with ex have ev: "evict m now k = None"
    using expired_at_cong [of m k "contents fv n" now] by (auto simp: evict_def expired_at_def split: if_splits)
  have "node_delete E w (n\<lparr>index := ix\<rparr>) k = (Inr (), n'\<lparr>index := ix\<rparr>)" using d by (simp add: delete_index)
  from delete_ok [OF ctx ok bk this assms(8)] tf obtain l' where ok': "node_ok E fv fi fd ft (n'\<lparr>index := ix\<rparr>) l'"
    and sd: "same_data (contents fv n') ((contents fv n)(k := None))"
    by (auto simp: contents_def)
  have "finite (dom (contents fv n))" "finite (dom (contents fv n'))"
    using finite_contents [OF ctx(1)] ok ok' by (auto simp: node_ok_def)
  then have "totals_fit (contents fv n')"
    using totals_fit_same_data [OF sd] totals_fit_remove [OF _ tf, of k] by simp
  moreover have ix': "index n' = index n" by (rule delete_keeps_index [OF d])
  moreover have "(e, k') \<in> scheduled (index n') \<or> k' \<in> set ks"
    if "contents fv n' k' = Some raw" "value_decode raw = Inr v" "expires_at_ms v = Some e" for k' raw v e
  proof -
    have "(e, k') \<in> scheduled ix" using that ok' by (auto simp: node_ok_def indexed_def contents_def)
    then have "\<not> bookkeeping k'" using assms(4) by (auto simp: sweepable_def)
    then have "k' \<noteq> k" "contents fv n k' = Some raw" using sd that(1) by (auto simp: same_data_def split: if_splits)
    with that(2,3) sw show ?thesis unfolding ix' sweeping_def by fastforce
  qed
  moreover have "contents fv n' k' = evict m now k' \<or> k' \<in> set ks \<and> contents fv n' k' = m k'" if "\<not> bookkeeping k'" for k'
    using that sw sd ev by (cases "k' = k") (auto simp: sweeping_def same_data_def)
  moreover have "ttl_wf (index n') \<and> (\<forall>(e, k)\<in>scheduled (index n'). now < e)"
    using sw ix' by (simp add: sweeping_def)
  ultimately show ?thesis using ok' unfolding sweeping_def by blast
qed

lemma sweeping_key:
  assumes ctx: "fjall_ok (fjall E) fv fi" "fjall_durable (fjall E) fv fi fd ft"
    and total: "backend_total (fjall E) fi" "reads_total (fjall E) fi"
    and "sweepable ix" and k: "(x, k) \<in> scheduled ix" and w: "w_append w = io_ok" "rotate_safe (w_rotate w)"
    and sw: "sweeping E fv fi fd ft now m ix (k # ks) n" and "sweep_key E now w k (n, rm) = (n', rm')"
  shows "sweeping E fv fi fd ft now m ix ks n'"
proof -
  obtain l where ok: "node_ok E fv fi fd ft (n\<lparr>index := ix\<rparr>) l" using sw by (auto simp: sweeping_def)
  have bk: "\<not> bookkeeping k" "length k < 2 ^ 32" using assms(5) k by (auto simp: sweepable_def)
  have wf: "backend_wf fi (store n)" and vo: "values_ok (contents fv n)" using ok by (simp_all add: node_ok_def contents_def)
  have get: "contents fv n k = got" if "backend_get (fjall E) (store n) k = Inr got" for got
    using storage.get_view [OF backend_storage [OF ctx(1)] wf that] by (simp add: contents_def)
  from assms(10) show ?thesis
  proof (cases rule: sweep_key_cases)
    case skip
    obtain got where g: "backend_get (fjall E) (store n) k = Inr got" using backend_get_total [OF total(2) wf] by blast
    have "expires_at_ms v = None" if "contents fv n k = Some raw" "value_decode raw = Inr v" for raw v
      using skip(2) g get [OF g] that by auto
    moreover from this have "\<not> expired_at (contents fv n) now k"
      by (cases "contents fv n k") (auto simp: expired_at_def is_expired_decode map_sum_eq_Inr_iff split: option.splits)
    ultimately show ?thesis
      using sw skip(1) by (intro sweeping_keep [OF sw bk(1), of n' "index n" "{}"]) (auto simp: sweeping_def)
  next
    case (delete raw r)
    obtain N' where "node_delete E w (n\<lparr>index := ix\<rparr>) k = (Inr (), N')"
      by (rule delete_succeeds [OF ctx(1) total ok bk(1) w(1)])
    with delete(3) have "node_delete E w n k = (Inr (), n')" by (simp add: delete_index)
    then show ?thesis
      using get [OF delete(1)] delete(2) by (intro sweeping_delete [OF ctx sw assms(5) bk _ w(2)]) (simp_all add: expired_at_def)
  next
    case (keep raw v e)
    have "now < e" using keep(2-4) by (simp add: is_expired_decode not_le)
    then show ?thesis
      using sw get [OF keep(1)] keep
      by (intro sweeping_keep [OF sw bk(1) _ keep(5), of "{(e, k)}"]) (auto simp: sweeping_def expired_at_def intro: schedule_wf)
  qed
qed

lemma sweeping_loop:
  assumes ctx: "fjall_ok (fjall E) fv fi" "fjall_durable (fjall E) fv fi fd ft"
    and total: "backend_total (fjall E) fi" "reads_total (fjall E) fi"
    and "sweepable ix" and "\<forall>k\<in>set ks. \<exists>x. (x, k) \<in> scheduled ix"
    and "\<forall>i. w_append (ws i) = io_ok \<and> rotate_safe (w_rotate (ws i))"
    and "sweeping E fv fi fd ft now m ix ks n" and "sweep_loop E now ws ks (n, rm) = (n', rm')"
  shows "sweeping E fv fi fd ft now m ix [] n'"
  using assms(6-9)
proof (induction ks arbitrary: ws n rm)
  case (Cons k ks)
  obtain n1 rm1 where s: "sweep_key E now (ws 0) k (n, rm) = (n1, rm1)" by fastforce
  with Cons.prems(4) have l: "sweep_loop E now (\<lambda>i. ws (i + 1)) ks (n1, rm1) = (n', rm')" by simp
  obtain x where "(x, k) \<in> scheduled ix" using Cons.prems(1) by auto
  with sweeping_key [OF ctx total assms(5) _ _ _ Cons.prems(3) s] Cons.prems(2)
  have "sweeping E fv fi fd ft now m ix ks n1" by blast
  from Cons.IH [OF _ _ this l] Cons.prems(1,2) show ?case by simp
qed simp

lemma sweeping_start:
  assumes "node_ok E fv fi fd ft n l" and "totals_fit (contents fv n)" and "drain_due (index n) now = (ks, ix')"
  shows "sweeping E fv fi fd ft now (contents fv n) (index n) ks (n\<lparr>index := ix'\<rparr>)"
proof -
  have ix: "ttl_wf ix'" "scheduled ix' = {(e, k) \<in> scheduled (index n). now < e}"
    "set ks = {k. \<exists>e\<le>now. (e, k) \<in> scheduled (index n)}"
    using drain_due_eq [OF _ assms(3)] assms(1) by (simp_all add: node_ok_def)
  have c: "contents fv (n\<lparr>index := ix'\<rparr>) = contents fv n" by (simp add: contents_def)
  have in_ix: "(e, k) \<in> scheduled (index n)"
    if "contents fv n k = Some raw" "value_decode raw = Inr v" "expires_at_ms v = Some e" for k raw v e
    using assms(1) that by (auto simp: node_ok_def indexed_def)
  then have todo: "(e, k) \<in> scheduled ix' \<or> k \<in> set ks"
    if "contents fv n k = Some raw" "value_decode raw = Inr v" "expires_at_ms v = Some e" for k raw v e
    using that by (auto simp: ix(2,3) not_less)
  have "k \<in> set ks" if "expired_at (contents fv n) now k" for k
    using that in_ix by (auto simp: expired_at_def is_expired_decode map_sum_eq_Inr_iff ix(3) split: option.splits)
  then have "contents fv n k = evict (contents fv n) now k \<or> k \<in> set ks" for k by (auto simp: evict_def)
  with assms(1,2) ix(1,2) todo show ?thesis unfolding sweeping_def c by auto
qed

lemma swept:
  assumes "fjall_ok (fjall E) fv fi" and "fjall_durable (fjall E) fv fi fd ft"
    and "backend_total (fjall E) fi" and "reads_total (fjall E) fi"
    and "node_ok E fv fi fd ft n l" and "totals_fit (contents fv n)" and "sweepable (index n)"
    and "\<forall>i. w_append (ws i) = io_ok \<and> rotate_safe (w_rotate (ws i))"
    and "sweep_once E t ws n = (removed, n')"
  shows "same_data (contents fv n') (evict (contents fv n) (now_ms t (nclock n)))
    \<and> (\<exists>l'. node_ok E fv fi fd ft n' l') \<and> totals_fit (contents fv n')
    \<and> (\<forall>(e, k)\<in>scheduled (index n'). now_ms t (nclock n) < e)"
proof -
  let ?now = "now_ms t (nclock n)"
  obtain ks ix where d: "drain_due (index n) ?now = (ks, ix)" by fastforce
  with assms(9) have l: "sweep_loop E ?now ws ks (n\<lparr>index := ix\<rparr>, 0) = (n', removed)"
    by (auto simp: sweep_once_def Let_def split: prod.splits)
  have "\<forall>k\<in>set ks. \<exists>x. (x, k) \<in> scheduled (index n)"
    using drain_due_eq [OF _ d] assms(5) by (auto simp: node_ok_def)
  from sweeping_loop [OF assms(1-4,7) this assms(8) sweeping_start [OF assms(5,6) d] l]
  obtain l' where ok: "node_ok E fv fi fd ft (n'\<lparr>index := index n\<rparr>) l'" and wf: "ttl_wf (index n')"
    and rest: "\<forall>(e, k)\<in>scheduled (index n'). ?now < e" "totals_fit (contents fv n')"
      "same_data (contents fv n') (evict (contents fv n) ?now)"
    and ix: "indexed (contents fv n') (index n')"
    by (auto simp: sweeping_def same_data_def indexed_def)
  have "node_ok E fv fi fd ft n' l'" using ok wf ix by (simp add: node_ok_def contents_def)
  with rest show ?thesis by blast
qed

subsection \<open>The example\<close>

lemma node_expiring_ok:
  "\<exists>l. node_ok env_example ref_view ref_wf (\<lambda>s. dm_get (synced s)) (\<lambda>s. set (dirty s)) node_expiring l"
  "same_data (contents ref_view node_expiring) (Map.empty(raw_key [0x61] Data [] \<mapsto> value_encode [5] (Some 1010)))"
  "totals_fit (contents ref_view node_expiring)" "sweepable (index node_expiring)"
proof -
  let ?k = "raw_key [0x61] Data []" and ?fd = "\<lambda>s. dm_get (synced s)" and ?ft = "\<lambda>s. set (dirty s)"
  let ?p = "put_with_ttl env_example world_example node_example ?k [5] 10"
  have k: "\<not> bookkeeping ?k" by (simp add: tenant_ok_def MAX_TENANT_LEN_def)
  have e: "expiry_of world_example node_example 10 = Some 1010" by code_simp
  have p: "?p = (Inr (), snd ?p)" using put_example by (simp add: prod_eq_iff)
  have len: "length ?k < 2 ^ 32" "length [5 :: u8] + 9 < 2 ^ 32" by (simp_all add: raw_key_def)
  have safe: "rotate_safe (w_rotate world_example)" by (rule rotate_safe_example)
  have ok: "\<exists>l. node_ok env_example ref_view ref_wf ?fd ?ft (snd ?p) l"
    and sd: "same_data (contents ref_view (snd ?p)) (Map.empty(?k \<mapsto> value_encode [5] (Some 1010)))"
    using put_ok [OF example_ctx node_ok_example k len p safe] totals_fit_example
    by (simp_all add: contents_example e)
  have c: "contents ref_view node_expiring = contents ref_view (snd ?p)"
    by (simp add: node_expiring_def contents_def)
  show "\<exists>l. node_ok env_example ref_view ref_wf ?fd ?ft node_expiring l"
    using ok c by (auto simp: node_ok_def node_expiring_def)
  show s: "same_data (contents ref_view node_expiring) (Map.empty(?k \<mapsto> value_encode [5] (Some 1010)))"
    using sd c by simp
  have "finite (dom (contents ref_view (snd ?p)))"
    using ok finite_contents [OF example_ctx(1)] by (auto simp: node_ok_def)
  then show "totals_fit (contents ref_view node_expiring)"
    using totals_fit_same_data [OF s] totals_fit_example(2) [of "[5]" "Some 1010"] c by simp
  have "by_expiry (index node_expiring) = [(1010, [?k])]" by code_simp
  then show "sweepable (index node_expiring)"
    using k by (simp add: sweepable_def scheduled_def raw_key_def)
qed

lemma example_total: "backend_total (fjall env_example) ref_wf" "reads_total (fjall env_example) ref_wf"
  by (auto simp: backend_total_def reads_total_def env_example_def fjall_reference_def)

section \<open>Properties\<close>

text \<open>
  C19: a sweep never removes anything a client could read. Whatever fails during it, from the instant
  the sweep took from the clock on, every read of a client's key answers as it would have without
  the sweep; the sweep runs to its end, and the clock is not changed.
\<close>

theorem sweep_removes_only_expired:
  assumes "fjall_ok (fjall E) fv fi" and "fjall_durable (fjall E) fv fi fd ft" and "backend_wf fi (store n)"
    and "sweep_once E t ws n = (removed, n')" and "now_ms t (nclock n) \<le> now'" and "\<not> bookkeeping k"
  shows "live_at (contents fv n') now' k = live_at (contents fv n) now' k \<and> nclock n' = nclock n"
proof -
  obtain ks ix where d: "drain_due (index n) (now_ms t (nclock n)) = (ks, ix)" by fastforce
  with assms(4) have l: "sweep_loop E (now_ms t (nclock n)) ws ks (n\<lparr>index := ix\<rparr>, 0) = (n', removed)"
    by (auto simp: sweep_once_def Let_def split: prod.splits)
  from sweep_loop_evicts [OF assms(1,2) _ l] assms(3) show ?thesis
    using live_at_evicts [OF _ assms(5,6)] by (simp add: contents_def)
qed

theorem sweep_removes_only_expired_witness:
  "live_at (contents ref_view (snd (sweep_once env_example 0 (\<lambda>_. world_failing) node_expiring))) 2000
     (raw_key [0x61] Data []) = None"
proof -
  let ?k = "raw_key [0x61] Data []"
  have k: "\<not> bookkeeping ?k" by (simp add: tenant_ok_def MAX_TENANT_LEN_def)
  have n: "now_ms 0 (nclock node_expiring) = 2000" by (simp add: node_expiring_def)
  have wf: "backend_wf ref_wf (store node_expiring)" using node_expiring_ok(1) by (auto simp: node_ok_def)
  have "live_at (contents ref_view node_expiring) 2000 ?k = None"
    using live_at_same_data [OF node_expiring_ok(2) k, of 2000] by (simp add: live_at_put)
  moreover obtain rm n' where s: "sweep_once env_example 0 (\<lambda>_. world_failing) node_expiring = (rm, n')" by fastforce
  ultimately show ?thesis
    using sweep_removes_only_expired [OF example_ctx wf s _ k, of 2000] unfolding n by simp
qed

text \<open>
  C18: a sweep is complete. When no I/O fails, it leaves exactly the entries that have not expired at
  the instant it took from the clock, keeps the invariant of a running node (exact counters, a
  complete index, a recoverable log), and nothing in the index is due any more.
\<close>

theorem sweep_evicts_all_expired:
  assumes "fjall_ok (fjall E) fv fi" and "fjall_durable (fjall E) fv fi fd ft"
    and "backend_total (fjall E) fi" and "reads_total (fjall E) fi"
    and "node_ok E fv fi fd ft n l" and "totals_fit (contents fv n)" and "sweepable (index n)"
    and "\<forall>i. w_append (ws i) = io_ok \<and> rotate_safe (w_rotate (ws i))"
    and "sweep_once E t ws n = (removed, n')"
  shows "same_data (contents fv n') (evict (contents fv n) (now_ms t (nclock n)))
    \<and> (\<exists>l'. node_ok E fv fi fd ft n' l')
    \<and> (case next_due_ms (index n') of None \<Rightarrow> True | Some due \<Rightarrow> now_ms t (nclock n) < due)"
proof -
  obtain l' where ok: "node_ok E fv fi fd ft n' l'"
    and sd: "same_data (contents fv n') (evict (contents fv n) (now_ms t (nclock n)))"
    and due: "\<forall>(e, k)\<in>scheduled (index n'). now_ms t (nclock n) < e"
    using swept [OF assms] by blast
  have "ttl_wf (index n')" using ok by (simp add: node_ok_def)
  from next_due_ms_Min [OF this] due
  have "case next_due_ms (index n') of None \<Rightarrow> True | Some due \<Rightarrow> now_ms t (nclock n) < due"
    by (auto split: option.splits)
  with ok sd show ?thesis by blast
qed

theorem sweep_evicts_all_expired_witness:
  "contents ref_view (snd (sweep_once env_example 0 (\<lambda>_. world_example) node_expiring)) (raw_key [0x61] Data []) = None"
proof -
  let ?k = "raw_key [0x61] Data []"
  have k: "\<not> bookkeeping ?k" by (simp add: tenant_ok_def MAX_TENANT_LEN_def)
  obtain l where ok: "node_ok env_example ref_view ref_wf (\<lambda>s. dm_get (synced s)) (\<lambda>s. set (dirty s)) node_expiring l"
    using node_expiring_ok(1) by blast
  have n: "now_ms 0 (nclock node_expiring) = 2000" by (simp add: node_expiring_def)
  have "expired_at (contents ref_view node_expiring) 2000 ?k"
    using node_expiring_ok(2) k by (simp add: expired_at_def same_data_def is_expired_encode)
  moreover obtain rm n' where s: "sweep_once env_example 0 (\<lambda>_. world_example) node_expiring = (rm, n')" by fastforce
  moreover have w: "\<forall>i :: nat. w_append world_example = io_ok \<and> rotate_safe (w_rotate world_example)"
    using rotate_safe_example by (simp add: world_example_def)
  ultimately show ?thesis
    using sweep_evicts_all_expired [OF example_ctx example_total ok node_expiring_ok(3,4) w s] k
    unfolding n by (simp add: same_data_def evict_def)
qed

text \<open>
  C20: the sweeper never sleeps past an expiry. The instant it computes to wake up at is not before
  now and not after the fallback interval, nor after the earliest key of the index is due; and a key
  scheduled meanwhile that is due earlier leaves a permit that wakes the sweeper at once.
\<close>

theorem sweeper_wakes_in_time:
  fixes t :: system_time and now fallback :: nat
  assumes "ttl_wf (index n)"
  defines "clock_now \<equiv> now_ms t (nclock n)" and "wake \<equiv> compute_wakeup t now n fallback"
  shows "now \<le> wake \<and> wake \<le> now + fallback
    \<and> (\<forall>(e, k)\<in>scheduled (index n). wake \<le> now + unat (saturating_sub e clock_now))
    \<and> (notify (schedule (index n) key due) \<or> wake \<le> now + unat (saturating_sub due clock_now))"
proof (cases "next_due_ms (index n)")
  case None
  with next_due_ms_Min [OF assms(1)] show ?thesis
    by (simp add: wake_def compute_wakeup_def Let_def schedule_def split: prod.split)
next
  case (Some d)
  have mono: "unat (saturating_sub d clock_now) \<le> unat (saturating_sub e clock_now)" if "d \<le> e" for e
    using that by (auto simp: unat_saturating_sub word_le_nat_alt)
  have w: "wake = min (now + unat (saturating_sub d clock_now)) (now + fallback)"
  proof (cases "d \<le> clock_now")
    case True
    then have "unat (saturating_sub d clock_now) = 0" by (simp add: unat_saturating_sub word_le_nat_alt)
    with True Some show ?thesis by (simp add: wake_def compute_wakeup_def clock_now_def)
  next
    case False
    then have "saturating_sub d clock_now = d - clock_now" by (auto simp: saturating_sub_def)
    with False Some show ?thesis by (simp add: wake_def compute_wakeup_def clock_now_def Let_def)
  qed
  have "d \<le> e" if "(e, k) \<in> scheduled (index n)" for e k
    using next_due_ms_Min [OF assms(1)] Some that by auto
  then have "\<forall>(e, k)\<in>scheduled (index n). wake \<le> now + unat (saturating_sub e clock_now)"
    using mono w by (auto intro: min.coboundedI1)
  moreover have "notify (schedule (index n) key due) \<or> d \<le> due"
    using Some by (auto simp: schedule_def not_less split: prod.split)
  then have "notify (schedule (index n) key due) \<or> wake \<le> now + unat (saturating_sub due clock_now)"
    using mono w by (auto intro: min.coboundedI1)
  ultimately show ?thesis using w by simp
qed

theorem sweeper_wakes_in_time_witness:
  "compute_wakeup 0 500 (node_expiring\<lparr>nclock := Manual 1000\<rparr>) 60000 \<le> 510"
proof -
  let ?n = "node_expiring\<lparr>nclock := Manual 1000\<rparr>"
  have wf: "ttl_wf (index ?n)" using node_expiring_ok(1) by (auto simp: node_ok_def)
  have "by_expiry (index node_expiring) = [(1010, [raw_key [0x61] Data []])]" by code_simp
  then have s: "(1010, raw_key [0x61] Data []) \<in> scheduled (index ?n)" by (simp add: scheduled_def)
  have "unat (saturating_sub (1010 :: u64) 1000) = 10" by code_simp
  with sweeper_wakes_in_time [OF wf, of 500 0 60000] s show ?thesis by fastforce
qed

end
