(* ===== verification/Admin.thy ===== *)
theory Admin
  imports Node_Correctness Auth_Layer
begin

text \<open>
  The admin HTTP server, \<open>ferriskv-node/src/admin.rs\<close>: health, readiness and the administration of
  tenant quotas. \<open>axum\<close> matches a request to a route and decodes its JSON body; the model starts with
  the method, the matched path and the decoded body. The text of the metrics page and the version of
  the crate are arguments. Shown here: whatever is asked and whatever fails, no request changes client
  data or the invariant of a running node, and the limits change exactly by the quota writes that
  were acknowledged.
\<close>

section \<open>Definitions\<close>

datatype status_code = OK_200 | BAD_REQUEST | NOT_FOUND | METHOD_NOT_ALLOWED | INTERNAL_SERVER_ERROR | SERVICE_UNAVAILABLE

definition READYZ_PROBE_KEY :: bytes where
  "READYZ_PROBE_KEY = lit ''__ferriskv_internal_probe__''"

subsection \<open>Bodies\<close>

record live_response =
  lr_status :: string
  lr_node_id :: str
  lr_version :: string

record ready_checks =
  rc_storage :: message

record ready_response =
  rr_status :: string
  rr_node_id :: str
  rr_version :: string
  rr_checks :: ready_checks

record quota_entry =
  qe_tenant :: str
  qe_usage :: tenant_usage

record quota_list_response =
  ql_node_id :: str
  ql_tenants :: "quota_entry list"

record set_quota_request =
  sq_max_bytes :: "u64 option"
  sq_max_ops_per_sec :: "u32 option"

record error_response =
  er_error :: message

subsection \<open>Handlers\<close>

definition list_quotas :: "('f, 'l, 'c) node \<Rightarrow> quota_list_response" where
  "list_quotas n =
     \<lparr>ql_node_id = node_id (config n),
      ql_tenants = map (\<lambda>(tenant, u). \<lparr>qe_tenant = tenant, qe_usage = u\<rparr>) (quota_list (nquotas n))\<rparr>"

definition validate_tenant :: "str \<Rightarrow> (status_code \<times> error_response) + unit" where
  "validate_tenant tenant =
     (if tenant = [] \<or> length tenant > 255
      then Inl (BAD_REQUEST, \<lparr>er_error = Text ''tenant must be between 1 and 255 bytes''\<rparr>)
      else Inr ())"

definition internal :: "error \<Rightarrow> status_code \<times> error_response" where
  "internal e = (INTERNAL_SERVER_ERROR, \<lparr>er_error = To_string e\<rparr>)"

definition entry_of :: "('f, 'l, 'c) node \<Rightarrow> str \<Rightarrow> quota_entry" where
  "entry_of n tenant = \<lparr>qe_tenant = tenant, qe_usage = usage_of (nquotas n) tenant\<rparr>"

definition admin_get_quota ::
    "('f, 'l, 'c) node \<Rightarrow> str \<Rightarrow> (status_code \<times> error_response) + quota_entry" where
  "admin_get_quota n tenant =
     (case validate_tenant tenant of
        Inl e \<Rightarrow> Inl e
      | Inr _ \<Rightarrow> Inr (entry_of n tenant))"

text \<open>The limits after a quota write: what the body leaves out stays as it was.\<close>

definition merged_quota :: "quota \<Rightarrow> set_quota_request \<Rightarrow> quota" where
  "merged_quota current b =
     \<lparr>max_bytes = (case sq_max_bytes b of Some x \<Rightarrow> x | None \<Rightarrow> max_bytes current),
      max_ops_per_sec = (case sq_max_ops_per_sec b of Some x \<Rightarrow> x | None \<Rightarrow> max_ops_per_sec current)\<rparr>"

definition admin_set_quota ::
    "('f, 'l, 'c) env \<Rightarrow> ('f, 'l, 'c) node \<Rightarrow> str \<Rightarrow> set_quota_request \<Rightarrow>
     ((status_code \<times> error_response) + quota_entry) \<times> ('f, 'l, 'c) node" where
  "admin_set_quota E n tenant b =
     (case validate_tenant tenant of
        Inl e \<Rightarrow> (Inl e, n)
      | Inr _ \<Rightarrow>
          (let current = quota_of (nquotas n) tenant; updated = merged_quota current b
           in case set_quota (fjall E) (json E) (nquotas n) (store n) tenant updated of
                (Inl e, q, s) \<Rightarrow> (Inl (internal e), n\<lparr>nquotas := q, store := s\<rparr>)
              | (Inr _, q, s) \<Rightarrow>
                  (let n = n\<lparr>nquotas := q, store := s\<rparr> in (Inr (entry_of n tenant), n))))"

definition admin_clear_quota ::
    "('f, 'l, 'c) env \<Rightarrow> ('f, 'l, 'c) node \<Rightarrow> str \<Rightarrow>
     ((status_code \<times> error_response) + quota_entry) \<times> ('f, 'l, 'c) node" where
  "admin_clear_quota E n tenant =
     (case validate_tenant tenant of
        Inl e \<Rightarrow> (Inl e, n)
      | Inr _ \<Rightarrow>
          (case clear_quota (fjall E) (nquotas n) (store n) tenant of
             (Inl e, q, s) \<Rightarrow> (Inl (internal e), n\<lparr>nquotas := q, store := s\<rparr>)
           | (Inr _, q, s) \<Rightarrow>
               (let n = n\<lparr>nquotas := q, store := s\<rparr> in (Inr (entry_of n tenant), n))))"

definition live :: "string \<Rightarrow> ('f, 'l, 'c) node \<Rightarrow> live_response" where
  "live ver n = \<lparr>lr_status = ''ok'', lr_node_id = node_id (config n), lr_version = ver\<rparr>"

definition ready :: "('f, 'l, 'c) env \<Rightarrow> string \<Rightarrow> ('f, 'l, 'c) node \<Rightarrow> status_code \<times> ready_response" where
  "ready E ver n =
     (let (code, st, storage) =
            (case backend_get (fjall E) (store n) READYZ_PROBE_KEY of
               Inr _ \<Rightarrow> (OK_200, ''ready'', Text ''ok'')
             | Inl e \<Rightarrow> (SERVICE_UNAVAILABLE, ''unready'', To_string e))
      in (code, \<lparr>rr_status = st, rr_node_id = node_id (config n), rr_version = ver,
                 rr_checks = \<lparr>rc_storage = storage\<rparr>\<rparr>))"

subsection \<open>Routes\<close>

datatype http_method = GET | PUT | DELETE | OTHER

text \<open>The paths the router knows, with the tenant it captures, and any other path.\<close>

datatype admin_path = Healthz | Readyz | Metrics | Quotas | Quotas_of str | Unknown

datatype admin_reply =
    Live live_response
  | Ready status_code ready_response
  | Metrics_text string
  | Quota_list quota_list_response
  | Quota_one quota_entry
  | Failed status_code error_response
  | Unrouted status_code

fun reply_code :: "admin_reply \<Rightarrow> status_code" where
  "reply_code (Ready c _) = c"
| "reply_code (Failed c _) = c"
| "reply_code (Unrouted c) = c"
| "reply_code _ = OK_200"

definition quota_reply :: "(status_code \<times> error_response) + quota_entry \<Rightarrow> admin_reply" where
  "quota_reply r = (case r of Inl (c, e) \<Rightarrow> Failed c e | Inr q \<Rightarrow> Quota_one q)"

definition router ::
    "('f, 'l, 'c) env \<Rightarrow> string \<Rightarrow> string \<Rightarrow> ('f, 'l, 'c) node \<Rightarrow> http_method \<Rightarrow> admin_path \<Rightarrow>
     set_quota_request \<Rightarrow> admin_reply \<times> ('f, 'l, 'c) node" where
  "router E ver metrics n meth path b =
     (case path of
        Healthz \<Rightarrow> (if meth = GET then (Live (live ver n), n) else (Unrouted METHOD_NOT_ALLOWED, n))
      | Readyz \<Rightarrow>
          (if meth = GET then (case ready E ver n of (c, r) \<Rightarrow> (Ready c r, n)) else (Unrouted METHOD_NOT_ALLOWED, n))
      | Metrics \<Rightarrow> (if meth = GET then (Metrics_text metrics, n) else (Unrouted METHOD_NOT_ALLOWED, n))
      | Quotas \<Rightarrow> (if meth = GET then (Quota_list (list_quotas n), n) else (Unrouted METHOD_NOT_ALLOWED, n))
      | Quotas_of tenant \<Rightarrow>
          (case meth of
             GET \<Rightarrow> (quota_reply (admin_get_quota n tenant), n)
           | PUT \<Rightarrow> map_prod quota_reply id (admin_set_quota E n tenant b)
           | DELETE \<Rightarrow> map_prod quota_reply id (admin_clear_quota E n tenant)
           | OTHER \<Rightarrow> (Unrouted METHOD_NOT_ALLOWED, n))
      | Unknown \<Rightarrow> (Unrouted NOT_FOUND, n))"

subsection \<open>What a request should do\<close>

text \<open>The limits in force after a request that was answered with \<open>code\<close>.\<close>

definition limits_after ::
    "quota \<Rightarrow> (str \<Rightarrow> quota) \<Rightarrow> http_method \<Rightarrow> admin_path \<Rightarrow> set_quota_request \<Rightarrow> status_code \<Rightarrow> str \<Rightarrow> quota" where
  "limits_after default_q q meth path b code =
     (case path of
        Quotas_of tenant \<Rightarrow>
          if code = OK_200 \<and> meth = PUT then q(tenant := merged_quota (q tenant) b)
          else if code = OK_200 \<and> meth = DELETE then q(tenant := default_q)
          else q
      | _ \<Rightarrow> q)"

text \<open>What either quota write does, however it ends: \<open>new\<close> is the tenant's own limit afterwards.\<close>

definition quota_written ::
    "('f, 'l, 'c) env \<Rightarrow> ('f \<Rightarrow> (bytes \<rightharpoonup> bytes)) \<Rightarrow> ('f \<Rightarrow> bool) \<Rightarrow> ('f \<Rightarrow> (bytes \<rightharpoonup> bytes)) \<Rightarrow>
     ('f \<Rightarrow> bytes set) \<Rightarrow> log \<Rightarrow> ('f, 'l, 'c) node \<Rightarrow> str \<Rightarrow> quota \<Rightarrow> bool \<Rightarrow> ('f, 'l, 'c) node \<Rightarrow> bool" where
  "quota_written E fv fi fd ft l n t new ok n' \<longleftrightarrow>
     node_ok E fv fi fd ft n' l \<and> same_data (contents fv n') (contents fv n)
     \<and> quota_of (nquotas n') = (quota_of (nquotas n))(t := if ok then new else quota_of (nquotas n) t)"

section \<open>Lemmas\<close>

lemma validate_tenant_Inr_iff: "validate_tenant t = Inr u \<longleftrightarrow> t \<noteq> [] \<and> length t \<le> 255"
  by (auto simp: validate_tenant_def)

text \<open>A write of a key of the node's own, outside the log, keeps the invariant whether or not it fails.\<close>

lemma node_ok_bookkeeping:
  assumes ctx: "fjall_ok (fjall E) fv fi" and ok: "node_ok E fv fi fd ft n l" and key: "bookkeeping key"
    and wf: "backend_wf fi s" and c: "backend_view fv s = contents fv n \<or> backend_view fv s = (contents fv n)(key := x)"
    and x: "x = None \<or> (\<exists>b. x = Some (value_encode b None))"
    and cm: "\<And>m. crash_map fd ft s m \<Longrightarrow> \<exists>m'. crash_map fd ft (store n) m' \<and> (\<forall>k. k \<noteq> key \<longrightarrow> m' k = m k)"
  shows "node_ok E fv fi fd ft (n\<lparr>nquotas := (nquotas n)\<lparr>quotas := q\<rparr>, store := s\<rparr>) l
    \<and> same_data (backend_view fv s) (contents fv n)"
proof -
  have sd: "same_data (backend_view fv s) (contents fv n)" using c same_data_bookkeeping [OF key] by auto
  have "finite (dom (contents fv n))" "finite (dom (backend_view fv s))"
    using finite_contents [OF ctx] ok storage.finite_view [OF backend_storage [OF ctx] wf] by (auto simp: node_ok_def)
  then have "tenant_bytes (backend_view fv s) t = tenant_bytes (contents fv n) t" for t
    using tenant_bytes_same_data [OF sd] by simp
  moreover have "values_ok (backend_view fv s)"
    using ok sd by (auto simp: node_ok_def values_ok_def same_data_def)
  moreover have "indexed (backend_view fv s) (index n)"
    using ok c x indexed_no_expiry [of "contents fv n" "index n"] indexed_remove [of "contents fv n" "index n"]
    by (auto simp: node_ok_def)
  moreover have "recoverable fd ft s (entries l) (backend_view fv s)"
    using recoverable_same_data [OF recoverable_bookkeeping [OF _ key cm] same_data_sym [OF sd]] ok
    by (auto simp: node_ok_def)
  ultimately show ?thesis
    using ok wf sd by (simp add: node_ok_def contents_def usage_exact_def)
qed

lemma set_quota_cases:
  assumes "set_quota F J st s t q = (r, st', s')"
  obtains (same) e where "r = Inl e" and "st' = st" and "s' = s"
  | (written) b p where "key_encode t Metadata QUOTA_KEY = Inr (raw_key t Metadata QUOTA_KEY)" and "r = p"
      and "backend_put F s (raw_key t Metadata QUOTA_KEY) (value_encode b None) = (p, s')"
      and "st' = (if isl p then st else st\<lparr>quotas := dm_insert t q (quotas st)\<rparr>)"
proof (cases "key_encode t Metadata QUOTA_KEY")
  case (Inl e)
  with assms same [of e] show thesis by (simp add: set_quota_def)
next
  case (Inr k)
  then have k: "k = raw_key t Metadata QUOTA_KEY" by (simp add: key_encode_Inr_iff)
  show thesis
  proof (cases "to_vec J q")
    case (Inl e)
    with Inr assms same [of "projl r"] show thesis by (auto simp: set_quota_def)
  next
    case b: (Inr b)
    obtain p s1 where put: "backend_put F s k (value_encode b None) = (p, s1)" by fastforce
    with Inr b assms written [of p b] k show thesis
      by (cases p) (simp_all add: set_quota_def)
  qed
qed

lemma clear_quota_cases:
  assumes "clear_quota F st s t = (r, st', s')"
  obtains (same) e where "r = Inl e" and "st' = st" and "s' = s"
  | (written) p where "key_encode t Metadata QUOTA_KEY = Inr (raw_key t Metadata QUOTA_KEY)" and "r = p"
      and "backend_delete F s (raw_key t Metadata QUOTA_KEY) = (p, s')"
      and "st' = (if isl p then st else st\<lparr>quotas := dm_remove t (quotas st)\<rparr>)"
proof (cases "key_encode t Metadata QUOTA_KEY")
  case (Inl e)
  with assms same [of e] show thesis by (simp add: clear_quota_def)
next
  case (Inr k)
  then have k: "k = raw_key t Metadata QUOTA_KEY" by (simp add: key_encode_Inr_iff)
  obtain p s1 where del: "backend_delete F s k = (p, s1)" by fastforce
  with Inr assms written [of p] k show thesis by (cases p) (simp_all add: clear_quota_def)
qed

lemma quota_written_refl: "node_ok E fv fi fd ft n l \<Longrightarrow> quota_written E fv fi fd ft l n t new False n"
  by (simp add: quota_written_def)

lemma set_quota_written:
  assumes ctx: "fjall_ok (fjall E) fv fi" "fjall_durable (fjall E) fv fi fd ft"
    and ok: "node_ok E fv fi fd ft n l" and t: "utf8_valid t"
    and "set_quota (fjall E) J (nquotas n) (store n) t q = (r, st, s)"
  shows "quota_written E fv fi fd ft l n t q (\<not> isl r) (n\<lparr>nquotas := st, store := s\<rparr>)"
  using assms(5)
proof (cases rule: set_quota_cases)
  case (same e)
  with quota_written_refl [OF ok] show ?thesis by simp
next
  case (written b p)
  let ?k = "raw_key t Metadata QUOTA_KEY"
  have wf: "backend_wf fi (store n)" using ok by (simp add: node_ok_def)
  have k: "bookkeeping ?k" using written(1) t by (simp add: key_encode_Inr_iff tenant_ok_def)
  have s: "backend_wf fi s \<and> (backend_view fv s = contents fv n \<or> backend_view fv s = (contents fv n)(?k \<mapsto> value_encode b None))"
    using storage.put_any [OF backend_storage [OF ctx(1)] wf written(3)] by (auto simp: contents_def)
  have st: "st = (nquotas n)\<lparr>quotas := if isl p then quotas (nquotas n) else dm_insert t q (quotas (nquotas n))\<rparr>"
    using written(4) by simp
  have "node_ok E fv fi fd ft (n\<lparr>nquotas := st, store := s\<rparr>) l \<and> same_data (backend_view fv s) (contents fv n)"
    unfolding st using s crash_map_put [OF ctx(2) wf written(3)]
    by (intro node_ok_bookkeeping [OF ctx(1) ok k, where x = "Some (value_encode b None)"]) auto
  moreover have "quota_of st = (quota_of (nquotas n))(t := if isl p then quota_of (nquotas n) t else q)"
    by (auto simp: st quota_of_def fun_eq_iff dashmap_simps split: option.split)
  ultimately show ?thesis using written(2) by (simp add: quota_written_def contents_def)
qed

lemma clear_quota_written:
  assumes ctx: "fjall_ok (fjall E) fv fi" "fjall_durable (fjall E) fv fi fd ft"
    and ok: "node_ok E fv fi fd ft n l" and t: "utf8_valid t"
    and "clear_quota (fjall E) (nquotas n) (store n) t = (r, st, s)"
  shows "quota_written E fv fi fd ft l n t (default_quota (nquotas n)) (\<not> isl r) (n\<lparr>nquotas := st, store := s\<rparr>)"
  using assms(5)
proof (cases rule: clear_quota_cases)
  case (same e)
  with quota_written_refl [OF ok] show ?thesis by simp
next
  case (written p)
  let ?k = "raw_key t Metadata QUOTA_KEY"
  have wf: "backend_wf fi (store n)" using ok by (simp add: node_ok_def)
  have k: "bookkeeping ?k" using written(1) t by (simp add: key_encode_Inr_iff tenant_ok_def)
  have s: "backend_wf fi s \<and> (backend_view fv s = contents fv n \<or> backend_view fv s = (contents fv n)(?k := None))"
    using storage.delete_any [OF backend_storage [OF ctx(1)] wf written(3)] by (auto simp: contents_def)
  have st: "st = (nquotas n)\<lparr>quotas := if isl p then quotas (nquotas n) else dm_remove t (quotas (nquotas n))\<rparr>"
    using written(4) by simp
  have "node_ok E fv fi fd ft (n\<lparr>nquotas := st, store := s\<rparr>) l \<and> same_data (backend_view fv s) (contents fv n)"
    unfolding st using s crash_map_delete [OF ctx(2) wf written(3)]
    by (intro node_ok_bookkeeping [OF ctx(1) ok k, where x = None]) auto
  moreover have "quota_of st = (quota_of (nquotas n))(t := if isl p then quota_of (nquotas n) t else default_quota (nquotas n))"
    by (auto simp: st quota_of_def fun_eq_iff dashmap_simps split: option.split)
  ultimately show ?thesis using written(2) by (simp add: quota_written_def contents_def)
qed

text \<open>A request through the router, by what it may change.\<close>

lemma router_cases:
  assumes "router E ver metrics n meth path b = (reply, n')"
  obtains (read) "n' = n" and "limits_after dq q meth path b (reply_code reply) = q"
  | (set) t r st s where "path = Quotas_of t" and "meth = PUT"
      and "set_quota (fjall E) (json E) (nquotas n) (store n) t (merged_quota (quota_of (nquotas n) t) b) = (r, st, s)"
      and "n' = n\<lparr>nquotas := st, store := s\<rparr>" and "reply_code reply = OK_200 \<longleftrightarrow> \<not> isl r"
  | (clear) t r st s where "path = Quotas_of t" and "meth = DELETE"
      and "clear_quota (fjall E) (nquotas n) (store n) t = (r, st, s)"
      and "n' = n\<lparr>nquotas := st, store := s\<rparr>" and "reply_code reply = OK_200 \<longleftrightarrow> \<not> isl r"
proof (cases "\<exists>t. path = Quotas_of t \<and> meth \<in> {PUT, DELETE} \<and> validate_tenant t = Inr ()")
  case False
  with assms read show thesis
    by (cases path; cases meth)
      (auto simp: router_def limits_after_def admin_set_quota_def admin_clear_quota_def quota_reply_def
        validate_tenant_def split: prod.splits if_splits)
next
  case True
  then obtain t where t: "path = Quotas_of t" "meth = PUT \<or> meth = DELETE" "validate_tenant t = Inr ()" by auto
  obtain r st s where sq: "set_quota (fjall E) (json E) (nquotas n) (store n) t (merged_quota (quota_of (nquotas n) t) b) = (r, st, s)"
    by (metis prod_cases3)
  obtain r' st' s' where cq: "clear_quota (fjall E) (nquotas n) (store n) t = (r', st', s')" by (metis prod_cases3)
  from t(2) show thesis
  proof
    assume "meth = PUT"
    with assms t sq set [OF t(1) _ sq] show thesis
      by (cases r) (auto simp: router_def admin_set_quota_def quota_reply_def internal_def Let_def)
  next
    assume "meth = DELETE"
    with assms t cq clear [OF t(1) _ cq] show thesis
      by (cases r') (auto simp: router_def admin_clear_quota_def quota_reply_def internal_def Let_def)
  qed
qed

lemma router_ok:
  assumes "fjall_ok (fjall E) fv fi" and "fjall_durable (fjall E) fv fi fd ft"
    and "node_ok E fv fi fd ft n l" and "\<And>t. path = Quotas_of t \<Longrightarrow> utf8_valid t"
    and "router E ver metrics n meth path b = (reply, n')"
  shows "(node_ok E fv fi fd ft n' l \<and> same_data (contents fv n') (contents fv n))
    \<and> quota_of (nquotas n')
      = limits_after (default_quota (nquotas n)) (quota_of (nquotas n)) meth path b (reply_code reply)
    \<and> config n' = config n \<and> index n' = index n"
  using assms(5)
proof (cases rule: router_cases [where dq = "default_quota (nquotas n)" and q = "quota_of (nquotas n)"])
  case read
  with assms(3) show ?thesis by simp
next
  case (set t r st s)
  from set_quota_written [OF assms(1-4) set(3)] set show ?thesis
    by (auto simp: quota_written_def limits_after_def)
next
  case (clear t r st s)
  from clear_quota_written [OF assms(1-4) clear(3)] clear show ?thesis
    by (auto simp: quota_written_def limits_after_def)
qed

section \<open>Properties\<close>

text \<open>
  C24: no request to the admin server touches client data. Whatever the request and whatever fails,
  the node keeps its invariant with the same log, every entry of a client stays as it is, and the
  limits in force change for exactly the tenant and in exactly the way that a quota write answered
  with 200 asked for: fields left out keep their value, a cleared quota is the node's default.
\<close>

theorem admin_changes_only_quotas:
  assumes "fjall_ok (fjall E) fv fi" and "fjall_durable (fjall E) fv fi fd ft"
    and "node_ok E fv fi fd ft n l" and "\<And>t. path = Quotas_of t \<Longrightarrow> utf8_valid t"
    and "router E ver metrics n meth path b = (reply, n')"
  shows "node_ok E fv fi fd ft n' l \<and> same_data (contents fv n') (contents fv n)
    \<and> quota_of (nquotas n')
      = limits_after (default_quota (nquotas n)) (quota_of (nquotas n)) meth path b (reply_code reply)"
  using router_ok [OF assms] by blast

theorem admin_changes_only_quotas_witness:
  "let n' = snd (router env_example ''0'' [] node_example PUT (Quotas_of [0x61]) \<lparr>sq_max_bytes = Some 4, sq_max_ops_per_sec = None\<rparr>)
   in same_data (contents ref_view n') Map.empty
      \<and> quota_of (nquotas n') [0x61] = \<lparr>max_bytes = 4, max_ops_per_sec = 0\<rparr>"
proof -
  let ?b = "\<lparr>sq_max_bytes = Some 4, sq_max_ops_per_sec = None\<rparr>"
  obtain reply n' where r: "router env_example ''0'' [] node_example PUT (Quotas_of [0x61]) ?b = (reply, n')" by fastforce
  have "reply_code (fst (router env_example ''0'' [] node_example PUT (Quotas_of [0x61]) ?b)) = OK_200" by code_simp
  moreover have "merged_quota (quota_of (nquotas node_example) [0x61]) ?b = \<lparr>max_bytes = 4, max_ops_per_sec = 0\<rparr>" by code_simp
  moreover have "utf8_valid t" if "Quotas_of [0x61] = Quotas_of t" for t using that by (auto simp: utf8_valid_ascii)
  ultimately show ?thesis
    using r admin_changes_only_quotas [OF example_ctx node_ok_example _ r]
    by (simp add: contents_example limits_after_def)
qed

end
