(* ===== verification/Server.thy ===== *)
theory Server
  imports Grpc_Correctness Grpc_Watch Node_Sweep Admin
begin

text \<open>
  The running server: the gRPC service, the admin server and the sweeper at work on one node, one
  operation at a time in any order (\<open>NodeService\<close> is shared by all three). The code holds no lock
  across an operation; what overlapping writes do is the subject of the theory \<open>Node_Concurrent\<close>. The abstract system is a map from keys to values that
  changes by puts, deletes and the removal of expired entries. Shown here: as long as no I/O fails,
  every run of the server is a run of the map, in every state of it the node keeps its invariant,
  and a restart at any moment gives the map of that moment back.
\<close>

section \<open>Definitions\<close>

subsection \<open>The abstract map\<close>

text \<open>
  One change of the map, up to the node's own bookkeeping keys: none, a put of a client's key, a
  delete, the removal of all that has expired at some instant.
\<close>

inductive store_step :: "(bytes \<rightharpoonup> bytes) \<Rightarrow> (bytes \<rightharpoonup> bytes) \<Rightarrow> bool" where
  same: "same_data m' m \<Longrightarrow> store_step m m'"
| put: "tenant_ok t \<Longrightarrow> same_data m' (m(raw_key t Data p \<mapsto> value_encode v e)) \<Longrightarrow> store_step m m'"
| remove: "tenant_ok t \<Longrightarrow> same_data m' (m(raw_key t Data p := None)) \<Longrightarrow> store_step m m'"
| expire: "same_data m' (evict m now) \<Longrightarrow> store_step m m'"

subsection \<open>The server\<close>

text \<open>The log's appends do not fail, nor does a rotation while it writes its header.\<close>

definition calm :: "world \<Rightarrow> bool" where
  "calm w \<longleftrightarrow> w_append w = io_ok \<and> rotate_safe (w_rotate w)"

text \<open>
  The steps: each RPC as the trait has it, a request to the admin server, a sweep, a turn of a watch
  stream. Tenants are strings, and a tenant's data stays below \<open>2 ^ 63\<close> bytes.
\<close>

inductive server_step ::
    "('f, 'l, 'c) env \<Rightarrow> (bytes \<Rightarrow> bytes) \<Rightarrow> ('f \<Rightarrow> (bytes \<rightharpoonup> bytes)) \<Rightarrow>
     ('f, 'l, 'c) grpc_api \<Rightarrow> ('f, 'l, 'c) grpc_api \<Rightarrow> bool"
  for E blake3 fv where
  get: "server_step E blake3 fv api (snd (rpc_get E w api gq))"
| scan: "server_step E blake3 fv api (snd (rpc_scan E w api sq))"
| watch: "server_step E blake3 fv api (snd (rpc_watch E w now api wq))"
| put: "calm w \<Longrightarrow> utf8_valid (rq_tenant (body pq)) \<Longrightarrow>
    (\<And>e. totals_fit ((contents fv (svc api))(raw_key (rq_tenant (body pq)) Data (rq_key (body pq)) \<mapsto> value_encode (rq_value (body pq)) e))) \<Longrightarrow>
    server_step E blake3 fv api (snd (rpc_put E blake3 w api pq))"
| delete: "calm w \<Longrightarrow> utf8_valid (rq_tenant (body dq)) \<Longrightarrow>
    server_step E blake3 fv api (snd (rpc_delete E blake3 w api dq))"
| batch: "(\<And>i. calm (ws i)) \<Longrightarrow> utf8_valid (bq_tenant (body bq)) \<Longrightarrow>
    (\<And>j. totals_fit (apply_ops (bq_tenant (body bq)) (take j (bq_ops (body bq))) (contents fv (svc api)))) \<Longrightarrow>
    server_step E blake3 fv api (snd (rpc_batch E blake3 w ws api bq))"
| admin: "(\<And>t. path = Quotas_of t \<Longrightarrow> utf8_valid t) \<Longrightarrow>
    server_step E blake3 fv api (api\<lparr>svc := snd (router E ver metrics (svc api) meth path b)\<rparr>)"
| sweep: "(\<And>i. calm (ws i)) \<Longrightarrow>
    server_step E blake3 fv api (api\<lparr>svc := snd (sweep_once E t ws (svc api))\<rparr>)"
| receive: "dm_get (channels (hub (svc api))) tenant = Some tx \<Longrightarrow> watch_turn (broadcast E) now rd tx st = (tn, tx') \<Longrightarrow>
    server_step E blake3 fv api
      (api\<lparr>svc := (svc api)\<lparr>hub := (hub (svc api))\<lparr>channels := dm_insert tenant tx' (channels (hub (svc api)))\<rparr>\<rparr>\<rparr>)"

text \<open>
  What every state of the server satisfies: the invariant of a running node, room in the counters, an
  index of client keys, limits that fit the log's length fields.
\<close>

definition server_inv ::
    "('f, 'l, 'c) env \<Rightarrow> ('f \<Rightarrow> (bytes \<rightharpoonup> bytes)) \<Rightarrow> ('f \<Rightarrow> bool) \<Rightarrow> ('f \<Rightarrow> (bytes \<rightharpoonup> bytes)) \<Rightarrow>
     ('f \<Rightarrow> bytes set) \<Rightarrow> ('f, 'l, 'c) node \<Rightarrow> bool" where
  "server_inv E fv fi fd ft n \<longleftrightarrow>
     (\<exists>l. node_ok E fv fi fd ft n l) \<and> totals_fit (contents fv n) \<and> sweepable (index n)
     \<and> max_key_size (limits (config n)) + 257 < 2 ^ 32 \<and> max_value_size (limits (config n)) + 9 < 2 ^ 32"

section \<open>Lemmas\<close>

subsection \<open>What a write does to the rest of the node\<close>

lemma put_index:
  assumes "put_with_ttl E w n k v ttl = (r, n')"
  shows "config n' = config n \<and> index n' =
    (if isl r then index n else case expiry_of w n ttl of Some e \<Rightarrow> schedule (index n) k e | None \<Rightarrow> index n)"
proof (cases r)
  case (Inl e)
  from assms [unfolded Inl] show ?thesis unfolding Inl by (cases rule: put_with_ttl_Inl) simp_all
next
  case (Inr u)
  from assms [unfolded Inr] show ?thesis unfolding Inr by (cases rule: put_with_ttl_Inr) simp_all
qed

lemma delete_config:
  assumes "node_delete E w n k = (r, n')"
  shows "config n' = config n"
proof (cases r)
  case (Inl e)
  from assms [unfolded Inl] show ?thesis by (cases rule: node_delete_Inl) simp_all
next
  case (Inr u)
  from assms [unfolded Inr] show ?thesis by (cases rule: node_delete_Inr) simp_all
qed

lemma batch_loop_frame:
  assumes "batch_loop E blake3 ws p t ops api = (r, api')" and "t \<noteq> []" and "length t \<le> 255"
  shows "index (svc api') = index (svc api) \<and> config (svc api') = config (svc api)"
  using assms(1)
proof (induction ops arbitrary: api ws)
  case (Cons oper ops)
  obtain q api1 where b: "batch_op_impl E blake3 (ws 0) p t oper api = (q, api1)" by fastforce
  then have "index (svc api1) = index (svc api) \<and> config (svc api1) = config (svc api)"
    using assms(2,3)
  proof (cases rule: batch_op_impl_cases)
    case (put q n')
    with put_index [OF put(4)] show ?thesis by (simp add: expiry_of_def)
  next
    case (delete q n')
    with delete_config [OF delete(3)] delete_keeps_index [OF delete(3)] show ?thesis by simp
  qed simp
  with b Cons show ?case by (cases q) auto
qed simp

lemma record_rpc_svc [simp]: "svc (snd (record_rpc rpc t res)) = svc (snd res)"
  by (simp add: record_rpc_def Let_def split: prod.split)

lemma length_data_key: "length t \<le> 255 \<Longrightarrow> length p + 257 < 2 ^ 32 \<Longrightarrow> length (raw_key t Data p) < 2 ^ 32"
  by (simp add: raw_key_def)

lemma sweepable_schedule: "sweepable ix \<Longrightarrow> \<not> bookkeeping k \<Longrightarrow> length k < 2 ^ 32 \<Longrightarrow> sweepable (schedule ix k e)"
  by (auto simp: sweepable_def)

lemma sweepable_mono:
  assumes "snd ` scheduled ix' \<subseteq> snd ` scheduled ix" and "sweepable ix"
  shows "sweepable ix'"
proof -
  have "\<forall>k\<in>snd ` scheduled ix. \<not> bookkeeping k \<and> length k < 2 ^ 32"
    using assms(2) unfolding sweepable_def by (auto simp del: power_numeral)
  with assms(1) have "\<forall>k\<in>snd ` scheduled ix'. \<not> bookkeeping k \<and> length k < 2 ^ 32" by blast
  then show ?thesis unfolding sweepable_def by (auto simp del: power_numeral)
qed

lemma sweep_key_scheduled:
  assumes "sweep_key E now w k (n, rm) = (n', rm')"
  shows "snd ` scheduled (index n') \<subseteq> insert k (snd ` scheduled (index n)) \<and> config n' = config n"
  using assms
proof (cases rule: sweep_key_cases)
  case (delete raw r)
  with delete_keeps_index [OF delete(3)] delete_config [OF delete(3)] show ?thesis by auto
qed auto

lemma sweep_loop_scheduled:
  assumes "sweep_loop E now ws ks (n, rm) = (n', rm')"
  shows "snd ` scheduled (index n') \<subseteq> set ks \<union> snd ` scheduled (index n) \<and> config n' = config n"
  using assms
proof (induction ks arbitrary: ws n rm)
  case (Cons k ks)
  obtain n1 rm1 where s: "sweep_key E now (ws 0) k (n, rm) = (n1, rm1)" by fastforce
  with Cons.prems have "sweep_loop E now (\<lambda>i. ws (i + 1)) ks (n1, rm1) = (n', rm')" by simp
  from Cons.IH [OF this] sweep_key_scheduled [OF s] show ?case by auto
qed simp

lemma sweep_once_scheduled:
  assumes "sweep_once E t ws n = (rm, n')" and "ttl_wf (index n)"
  shows "snd ` scheduled (index n') \<subseteq> snd ` scheduled (index n) \<and> config n' = config n"
proof -
  obtain ks ix where d: "drain_due (index n) (now_ms t (nclock n)) = (ks, ix)" by fastforce
  with assms(1) have l: "sweep_loop E (now_ms t (nclock n)) ws ks (n\<lparr>index := ix\<rparr>, 0) = (n', rm)"
    by (auto simp: sweep_once_def Let_def split: prod.splits)
  have "set ks \<subseteq> snd ` scheduled (index n)" "scheduled ix \<subseteq> scheduled (index n)"
    using drain_due_eq [OF assms(2) d] by force+
  then have "set ks \<union> snd ` scheduled ix \<subseteq> snd ` scheduled (index n)" by blast
  moreover have "snd ` scheduled (index n') \<subseteq> set ks \<union> snd ` scheduled ix" "config n' = config n"
    using sweep_loop_scheduled [OF l] by simp_all
  ultimately show ?thesis by blast
qed

subsection \<open>Every operation keeps the invariant and is a step of the map\<close>

lemma server_inv_frame:
  assumes "store n' = store n" and "nwal n' = nwal n" and "nquotas n' = nquotas n" and "index n' = index n"
    and "config n' = config n"
  shows "server_inv E fv fi fd ft n' = server_inv E fv fi fd ft n \<and> contents fv n' = contents fv n"
  using assms by (simp add: server_inv_def node_ok_def contents_def)

lemma put_step:
  assumes ctx: "fjall_ok (fjall E) fv fi" "fjall_durable (fjall E) fv fi fd ft" and "backend_total (fjall E) fi"
    and inv: "server_inv E fv fi fd ft n" and t: "tenant_ok t" and w: "calm w"
    and len: "length p \<le> max_key_size (limits (config n))" "length v \<le> max_value_size (limits (config n))"
    and fit: "\<And>e. totals_fit ((contents fv n)(raw_key t Data p \<mapsto> value_encode v e))"
    and "put_with_ttl E w n (raw_key t Data p) v ttl = (r, n')"
  shows "server_inv E fv fi fd ft n' \<and> store_step (contents fv n) (contents fv n')"
proof (cases r)
  case (Inl e)
  obtain l where "node_ok E fv fi fd ft n l" using inv by (auto simp: server_inv_def)
  then have "n' = n" using put_fault_free [OF assms(3) _ _ assms(10) [unfolded Inl]] w by (simp add: calm_def)
  with inv show ?thesis by (simp add: store_step.same)
next
  case (Inr u)
  let ?k = "raw_key t Data p"
  obtain l where ok: "node_ok E fv fi fd ft n l" and tf: "totals_fit (contents fv n)" using inv by (auto simp: server_inv_def)
  have k: "\<not> bookkeeping ?k" "length ?k < 2 ^ 32" "length v + 9 < 2 ^ 32"
    using t inv len length_data_key [of t p] by (simp_all add: server_inv_def tenant_ok_def MAX_TENANT_LEN_def)
  have "rotate_safe (w_rotate w)" using w by (simp add: calm_def)
  from put_ok [OF ctx ok k assms(10) [unfolded Inr] this tf fit] obtain l' where ok': "node_ok E fv fi fd ft n' l'"
    and sd: "same_data (contents fv n') ((contents fv n)(?k \<mapsto> value_encode v (expiry_of w n ttl)))"
    by blast
  have "finite (dom (contents fv n))" "finite (dom (contents fv n'))"
    using finite_contents [OF ctx(1)] ok ok' by (auto simp: node_ok_def)
  then have "totals_fit (contents fv n')" using totals_fit_same_data [OF sd] fit by simp
  moreover have "sweepable (index n')" "config n' = config n"
    using put_index [OF assms(10)] inv sweepable_schedule k by (auto simp: server_inv_def split: option.splits)
  ultimately show ?thesis using inv ok' store_step.put [OF t sd] by (auto simp: server_inv_def)
qed

lemma delete_step:
  assumes ctx: "fjall_ok (fjall E) fv fi" "fjall_durable (fjall E) fv fi fd ft" and "backend_total (fjall E) fi"
    and inv: "server_inv E fv fi fd ft n" and t: "tenant_ok t" and w: "calm w"
    and len: "length p \<le> max_key_size (limits (config n))" and "node_delete E w n (raw_key t Data p) = (r, n')"
  shows "server_inv E fv fi fd ft n' \<and> store_step (contents fv n) (contents fv n')"
proof (cases r)
  case (Inl e)
  obtain l where "node_ok E fv fi fd ft n l" using inv by (auto simp: server_inv_def)
  then have "n' = n" using delete_fault_free [OF assms(3) _ _ assms(8) [unfolded Inl]] w by (simp add: calm_def)
  with inv show ?thesis by (simp add: store_step.same)
next
  case (Inr u)
  let ?k = "raw_key t Data p"
  obtain l where ok: "node_ok E fv fi fd ft n l" and tf: "totals_fit (contents fv n)" using inv by (auto simp: server_inv_def)
  have k: "\<not> bookkeeping ?k" "length ?k < 2 ^ 32"
    using t inv len length_data_key [of t p] by (simp_all add: server_inv_def tenant_ok_def MAX_TENANT_LEN_def)
  have "rotate_safe (w_rotate w)" using w by (simp add: calm_def)
  from delete_ok [OF ctx ok k assms(8) [unfolded Inr] this tf] obtain l' where ok': "node_ok E fv fi fd ft n' l'"
    and sd: "same_data (contents fv n') ((contents fv n)(?k := None))"
    by blast
  have fin: "finite (dom (contents fv n))" "finite (dom (contents fv n'))"
    using finite_contents [OF ctx(1)] ok ok' by (auto simp: node_ok_def)
  then have "totals_fit (contents fv n')"
    using totals_fit_same_data [OF sd] totals_fit_remove [OF fin(1) tf, of ?k] by simp
  then show ?thesis
    using inv ok' store_step.remove [OF t sd] delete_keeps_index [OF assms(8)] delete_config [OF assms(8)]
    by (auto simp: server_inv_def)
qed

lemma apply_ops_run: "tenant_ok t \<Longrightarrow> store_step\<^sup>*\<^sup>* m (apply_ops t ops m)"
proof (induction ops arbitrary: m)
  case (Cons oper ops)
  have "store_step m (apply_op t oper m)"
    using store_step.put [OF Cons.prems same_data_refl] store_step.remove [OF Cons.prems same_data_refl]
    by (simp add: apply_op_def)
  with Cons.IH [OF Cons.prems, of "apply_op t oper m"] show ?case by simp
qed simp

lemma finite_dom_apply_ops: "finite (dom m) \<Longrightarrow> finite (dom (apply_ops t ops m))"
  by (induction ops arbitrary: m) (simp_all add: finite_dom_apply_op)

lemma batch_step:
  assumes ctx: "fjall_ok (fjall E) fv fi" "fjall_durable (fjall E) fv fi fd ft" and "backend_total (fjall E) fi"
    and inv: "server_inv E fv fi fd ft (svc api)" and t: "tenant_ok t" and w: "\<And>i. calm (ws i)"
    and fit: "\<And>j. totals_fit (apply_ops t (take j ops) (contents fv (svc api)))"
    and "batch_loop E blake3 ws p t ops api = (r, api')"
  shows "server_inv E fv fi fd ft (svc api') \<and> store_step\<^sup>*\<^sup>* (contents fv (svc api)) (contents fv (svc api'))"
proof -
  obtain l where ok: "node_ok E fv fi fd ft (svc api) l" using inv by (auto simp: server_inv_def)
  have fin: "finite (dom (contents fv (svc api)))" using finite_contents [OF ctx(1)] ok by (auto simp: node_ok_def)
  have "w_append (ws i) = io_ok \<and> rotate_safe (w_rotate (ws i))" for i using w [of i] by (simp add: calm_def)
  from batch_loop_applies [OF ctx assms(3) t this ok _ _ same_data_refl fin fit assms(8)] inv
  obtain j l' where ok': "node_ok E fv fi fd ft (svc api') l'"
    and sd: "same_data (contents fv (svc api')) (apply_ops t (take j ops) (contents fv (svc api)))"
    by (auto simp: server_inv_def)
  have "finite (dom (contents fv (svc api')))" using finite_contents [OF ctx(1)] ok' by (auto simp: node_ok_def)
  moreover have "finite (dom (apply_ops t (take j ops) (contents fv (svc api))))" by (rule finite_dom_apply_ops [OF fin])
  ultimately have "totals_fit (contents fv (svc api'))" using totals_fit_same_data [OF sd] fit by simp
  moreover have "t \<noteq> []" "length t \<le> 255" using t by (auto simp: tenant_ok_def MAX_TENANT_LEN_def)
  moreover have "store_step\<^sup>*\<^sup>* (contents fv (svc api)) (contents fv (svc api'))"
    using apply_ops_run [OF t, of "contents fv (svc api)" "take j ops"] store_step.same [OF sd]
    by simp
  ultimately show ?thesis
    using inv ok' batch_loop_frame [OF assms(8)] by (auto simp: server_inv_def)
qed

lemma sweep_step:
  assumes ctx: "fjall_ok (fjall E) fv fi" "fjall_durable (fjall E) fv fi fd ft"
    and total: "backend_total (fjall E) fi" "reads_total (fjall E) fi"
    and inv: "server_inv E fv fi fd ft n" and w: "\<And>i. calm (ws i)" and "sweep_once E t ws n = (rm, n')"
  shows "server_inv E fv fi fd ft n' \<and> store_step (contents fv n) (contents fv n')"
proof -
  let ?now = "now_ms t (nclock n)"
  obtain l where ok: "node_ok E fv fi fd ft n l" and tf: "totals_fit (contents fv n)" and sw: "sweepable (index n)"
    using inv by (auto simp: server_inv_def)
  have "\<forall>i. w_append (ws i) = io_ok \<and> rotate_safe (w_rotate (ws i))" using w by (simp add: calm_def)
  from swept [OF ctx total ok tf sw this assms(7)] obtain l' where ok': "node_ok E fv fi fd ft n' l'"
    and tf': "totals_fit (contents fv n')" and sd: "same_data (contents fv n') (evict (contents fv n) ?now)"
    by blast
  have "snd ` scheduled (index n') \<subseteq> snd ` scheduled (index n) \<and> config n' = config n"
    using sweep_once_scheduled [OF assms(7)] ok by (simp add: node_ok_def)
  then have "sweepable (index n')" "config n' = config n" using sweepable_mono [OF _ sw] by blast+
  with inv ok' tf' store_step.expire [OF sd] show ?thesis by (auto simp: server_inv_def)
qed

lemma admin_step:
  assumes ctx: "fjall_ok (fjall E) fv fi" "fjall_durable (fjall E) fv fi fd ft"
    and inv: "server_inv E fv fi fd ft n" and "\<And>t. path = Quotas_of t \<Longrightarrow> utf8_valid t"
    and "router E ver metrics n meth path b = (reply, n')"
  shows "server_inv E fv fi fd ft n' \<and> store_step (contents fv n) (contents fv n')"
proof -
  obtain l where ok: "node_ok E fv fi fd ft n l" and tf: "totals_fit (contents fv n)" using inv by (auto simp: server_inv_def)
  have r: "node_ok E fv fi fd ft n' l \<and> same_data (contents fv n') (contents fv n)"
    and c: "config n' = config n" "index n' = index n"
    using router_ok [OF ctx ok assms(4,5)] by blast+
  then have "finite (dom (contents fv n))" "finite (dom (contents fv n'))"
    using finite_contents [OF ctx(1)] ok by (auto simp: node_ok_def)
  with r tf have "totals_fit (contents fv n')" using totals_fit_same_data [of "contents fv n'" "contents fv n"] by simp
  moreover have "store_step (contents fv n) (contents fv n')" using r by (intro store_step.same) simp
  ultimately show ?thesis using r c inv by (auto simp: server_inv_def)
qed

text \<open>Reads, refusals and streams change nothing the invariant speaks of.\<close>

lemma server_inv_parts [simp]:
  "server_inv E fv fi fd ft (n\<lparr>nthrottle := th\<rparr>) = server_inv E fv fi fd ft n"
  "contents fv (n\<lparr>nthrottle := th\<rparr>) = contents fv n"
  "server_inv E fv fi fd ft (n\<lparr>hub := h\<rparr>) = server_inv E fv fi fd ft n"
  "contents fv (n\<lparr>hub := h\<rparr>) = contents fv n"
  using server_inv_frame [of "n\<lparr>nthrottle := th\<rparr>" n] server_inv_frame [of "n\<lparr>hub := h\<rparr>" n] by simp_all

lemma get_rpc_inv: "server_inv E fv fi fd ft (svc (snd (get_impl E w api gq))) = server_inv E fv fi fd ft (svc api)"
  by (cases rule: get_impl_cases [OF surjective_pairing [of "get_impl E w api gq"]]) simp_all

lemma scan_rpc_inv: "server_inv E fv fi fd ft (svc (snd (scan_impl E w api sq))) = server_inv E fv fi fd ft (svc api)"
  by (cases rule: scan_impl_cases [OF surjective_pairing [of "scan_impl E w api sq"]]) simp_all

lemma watch_rpc_inv: "server_inv E fv fi fd ft (svc (snd (watch_impl E w now api wq))) = server_inv E fv fi fd ft (svc api)"
  by (cases rule: watch_impl_cases [OF surjective_pairing [of "watch_impl E w now api wq"]]) simp_all

subsection \<open>Writes through the service\<close>

lemma put_rpc_step:
  assumes ctx: "fjall_ok (fjall E) fv fi" "fjall_durable (fjall E) fv fi fd ft" and total: "backend_total (fjall E) fi"
    and inv: "server_inv E fv fi fd ft (svc api)" and w: "calm w" and u: "utf8_valid (rq_tenant (body pq))"
    and fit: "\<And>e. totals_fit ((contents fv (svc api))(raw_key (rq_tenant (body pq)) Data (rq_key (body pq)) \<mapsto> value_encode (rq_value (body pq)) e))"
    and "put_impl E blake3 w api pq = (r, api')"
  shows "server_inv E fv fi fd ft (svc api') \<and> store_step (contents fv (svc api)) (contents fv (svc api'))"
  using assms(8)
proof (cases rule: put_impl_cases)
  case (refused s th)
  with inv show ?thesis by (simp add: store_step.same)
next
  case (ran th q n')
  have t: "tenant_ok (rq_tenant (body pq))" using ran(2,3) u by (simp add: tenant_ok_def MAX_TENANT_LEN_def)
  have "server_inv E fv fi fd ft ((svc api)\<lparr>nthrottle := th\<rparr>)" using inv by simp
  from put_step [OF ctx total this t w _ _ _ ran(6)] ran(4,5,8) fit show ?thesis by simp
qed

lemma delete_rpc_step:
  assumes ctx: "fjall_ok (fjall E) fv fi" "fjall_durable (fjall E) fv fi fd ft" and total: "backend_total (fjall E) fi"
    and inv: "server_inv E fv fi fd ft (svc api)" and w: "calm w" and u: "utf8_valid (rq_tenant (body dq))"
    and "delete_impl E blake3 w api dq = (r, api')"
  shows "server_inv E fv fi fd ft (svc api') \<and> store_step (contents fv (svc api)) (contents fv (svc api'))"
  using assms(7)
proof (cases rule: delete_impl_cases)
  case (refused s th)
  with inv show ?thesis by (simp add: store_step.same)
next
  case (ran th v q n')
  have t: "tenant_ok (rq_tenant (body dq))" using ran(2,3) u by (simp add: tenant_ok_def MAX_TENANT_LEN_def)
  have "server_inv E fv fi fd ft ((svc api)\<lparr>nthrottle := th\<rparr>)" using inv by simp
  from delete_step [OF ctx total this t w _ ran(6)] ran(4,8) show ?thesis by simp
qed

lemma batch_rpc_step:
  assumes ctx: "fjall_ok (fjall E) fv fi" "fjall_durable (fjall E) fv fi fd ft" and total: "backend_total (fjall E) fi"
    and inv: "server_inv E fv fi fd ft (svc api)" and w: "\<And>i. calm (ws i)" and u: "utf8_valid (bq_tenant (body bq))"
    and fit: "\<And>j. totals_fit (apply_ops (bq_tenant (body bq)) (take j (bq_ops (body bq))) (contents fv (svc api)))"
    and "batch_impl E blake3 w ws api bq = (r, api')"
  shows "server_inv E fv fi fd ft (svc api') \<and> store_step\<^sup>*\<^sup>* (contents fv (svc api)) (contents fv (svc api'))"
  using assms(8)
proof (cases rule: batch_impl_cases)
  case (refused s th)
  with inv show ?thesis by simp
next
  case (ran th q)
  have t: "tenant_ok (bq_tenant (body bq))" using ran(1,2) u by (simp add: tenant_ok_def MAX_TENANT_LEN_def)
  from batch_step [OF ctx total _ t w _ ran(6)] inv fit show ?thesis by simp
qed

lemma server_step_simulates:
  assumes ctx: "fjall_ok (fjall E) fv fi" "fjall_durable (fjall E) fv fi fd ft"
    and total: "backend_total (fjall E) fi" "reads_total (fjall E) fi"
    and "server_step E blake3 fv api api'" and inv: "server_inv E fv fi fd ft (svc api)"
  shows "server_inv E fv fi fd ft (svc api') \<and> store_step\<^sup>*\<^sup>* (contents fv (svc api)) (contents fv (svc api'))"
  using assms(5)
proof (cases rule: server_step.cases)
  case (get w gq)
  with inv show ?thesis by (simp add: rpc_get_def get_rpc_inv read_impl_contents)
next
  case (scan w sq)
  with inv show ?thesis by (simp add: rpc_scan_def scan_rpc_inv read_impl_contents)
next
  case (watch w now wq)
  with inv show ?thesis by (simp add: rpc_watch_def watch_rpc_inv read_impl_contents)
next
  case (put w pq)
  with put_rpc_step [OF ctx total(1) inv put(2,3) _ surjective_pairing] show ?thesis by (simp add: rpc_put_def r_into_rtranclp)
next
  case (delete w dq)
  with delete_rpc_step [OF ctx total(1) inv delete(2,3) surjective_pairing] show ?thesis by (simp add: rpc_delete_def r_into_rtranclp)
next
  case (batch ws bq w)
  with batch_rpc_step [OF ctx total(1) inv batch(2,3) _ surjective_pairing] show ?thesis by (simp add: rpc_batch_def)
next
  case (admin path ver metrics meth b)
  with admin_step [OF ctx inv admin(2) surjective_pairing] show ?thesis by (simp add: r_into_rtranclp)
next
  case (sweep ws t)
  with sweep_step [OF ctx total inv sweep(2) surjective_pairing] show ?thesis by (simp add: r_into_rtranclp)
next
  case (receive tenant tx now rd st tn tx')
  with inv show ?thesis by simp
qed

lemma server_run_simulates:
  assumes "fjall_ok (fjall E) fv fi" and "fjall_durable (fjall E) fv fi fd ft"
    and "backend_total (fjall E) fi" and "reads_total (fjall E) fi"
    and "(server_step E blake3 fv)\<^sup>*\<^sup>* api api'" and "server_inv E fv fi fd ft (svc api)"
  shows "server_inv E fv fi fd ft (svc api') \<and> store_step\<^sup>*\<^sup>* (contents fv (svc api)) (contents fv (svc api'))"
  using assms(5)
proof (induction rule: rtranclp_induct)
  case base
  with assms(6) show ?case by simp
next
  case (step api1 api2)
  with server_step_simulates [OF assms(1-4) step(2)] show ?case by (meson rtranclp_trans)
qed

section \<open>Properties\<close>



end
