(* ===== verification/Cli.thy ===== *)
theory Cli
  imports Grpc_Correctness
begin

text \<open>
  The command-line client \<open>ferriskv-cli\<close>: its arguments, the channel it opens, and its four commands
  with what they print and how they end. The channel is \<open>tonic\<close>'s and is a parameter; the node at
  its other end is the model of the gRPC service behind its interceptor. Shown here: printing never
  fails and is faithful to text, the channel is encrypted as the endpoint says, and a value put by
  one command is what a later one prints.
\<close>

section \<open>Definitions\<close>

subsection \<open>Text output\<close>

text \<open>
  \<open>String::from_utf8_lossy\<close> of the standard library: every maximal part that cannot be continued to
  a character becomes one U+FFFD. A step says whether a character starts here, and how many bytes it
  or the part has.
\<close>

definition REPLACEMENT :: bytes where
  "REPLACEMENT = [0xEF, 0xBF, 0xBD]"

definition utf8_step :: "u8 \<Rightarrow> bytes \<Rightarrow> bool \<times> nat" where
  "utf8_step a r =
     (if a < 0x80 then (True, 1)
      else if 0xC2 \<le> a \<and> a \<le> 0xDF then
        (case r of b # _ \<Rightarrow> (cont_byte b, if cont_byte b then 2 else 1) | [] \<Rightarrow> (False, 1))
      else if 0xE0 \<le> a \<and> a \<le> 0xEF then
        (case r of
           b # r' \<Rightarrow>
             if (if a = 0xE0 then 0xA0 else 0x80) \<le> b \<and> b \<le> (if a = 0xED then 0x9F else 0xBF) then
               (case r' of c # _ \<Rightarrow> (cont_byte c, if cont_byte c then 3 else 2) | [] \<Rightarrow> (False, 2))
             else (False, 1)
         | [] \<Rightarrow> (False, 1))
      else if 0xF0 \<le> a \<and> a \<le> 0xF4 then
        (case r of
           b # r' \<Rightarrow>
             if (if a = 0xF0 then 0x90 else 0x80) \<le> b \<and> b \<le> (if a = 0xF4 then 0x8F else 0xBF) then
               (case r' of
                  c # r'' \<Rightarrow>
                    if cont_byte c then
                      (case r'' of d # _ \<Rightarrow> (cont_byte d, if cont_byte d then 4 else 3) | [] \<Rightarrow> (False, 3))
                    else (False, 2)
                | [] \<Rightarrow> (False, 2))
             else (False, 1)
         | [] \<Rightarrow> (False, 1))
      else (False, 1))"

fun from_utf8_lossy :: "bytes \<Rightarrow> str" where
  "from_utf8_lossy [] = []"
| "from_utf8_lossy (a # r) =
     (case utf8_step a r of
        (ok, n) \<Rightarrow> (if ok then take n (a # r) else REPLACEMENT) @ from_utf8_lossy (drop (n - 1) r))"

text \<open>\<open>Display\<close> of \<open>bool\<close>.\<close>

definition bool_display :: "bool \<Rightarrow> str" where
  "bool_display b = lit (if b then ''true'' else ''false'')"

definition println :: "str \<Rightarrow> bytes" where
  "println s = s @ [0x0A]"

subsection \<open>Arguments and channel\<close>

datatype command =
    Get_key str
  | Put_key str str u64
  | Delete_key str
  | Scan_prefix str u32

record args =
  endpoint :: str
  cli_tenant :: str
  tls_ca :: "path option"
  tls_domain :: "str option"
  cmd :: command

text \<open>What \<open>tonic\<close> is asked for, and whether it succeeds.\<close>

record client_tls =
  native_roots :: bool
  ca_certificate :: "bytes option"
  domain_name :: "str option"

record 'h tonic_api =
  from_shared :: "str \<Rightarrow> bool"
  tls_accepted :: "client_tls \<Rightarrow> bool"
  connect :: "str \<Rightarrow> client_tls option \<Rightarrow> 'h option"

datatype cli_error = Context string | Read_ca path io_error | Rpc status

definition build_channel :: "'h tonic_api \<Rightarrow> read_file \<Rightarrow> args \<Rightarrow> cli_error + 'h" where
  "build_channel T read a =
     (if \<not> from_shared T (endpoint a) then Inl (Context ''invalid endpoint URL'')
      else
        (case (if prefix (lit ''https://'') (endpoint a) then
                 (case tls_ca a of
                    None \<Rightarrow> Inr (Some \<lparr>native_roots = True, ca_certificate = None, domain_name = tls_domain a\<rparr>)
                  | Some p \<Rightarrow>
                      (case read p of
                         Inl e \<Rightarrow> Inl (Read_ca p e)
                       | Inr pem \<Rightarrow> Inr (Some \<lparr>native_roots = True, ca_certificate = Some pem, domain_name = tls_domain a\<rparr>)))
               else Inr None) of
           Inl e \<Rightarrow> Inl e
         | Inr sec \<Rightarrow>
             if (case sec of Some c \<Rightarrow> \<not> tls_accepted T c | None \<Rightarrow> False) then Inl (Context ''configure TLS'')
             else
               (case connect T (endpoint a) sec of
                  None \<Rightarrow> Inl (Context ''connect to endpoint'')
                | Some h \<Rightarrow> Inr h)))"

subsection \<open>Commands\<close>

text \<open>
  The generated client over a channel: the calls and what they do to the far end. A scan answers a
  stream, a message of which may be an error.
\<close>

record 's client =
  client_get :: "key_request \<Rightarrow> 's \<Rightarrow> (status + get_response) \<times> 's"
  client_put :: "put_request \<Rightarrow> 's \<Rightarrow> (status + u64) \<times> 's"
  client_delete :: "key_request \<Rightarrow> 's \<Rightarrow> (status + bool) \<times> 's"
  client_scan :: "scan_request \<Rightarrow> 's \<Rightarrow> (status + (status + (bytes \<times> bytes) list) list) \<times> 's"

text \<open>How the process ends: status 0, status 1 without a message, or an error.\<close>

datatype outcome = Ended | Exit_1 | Failed cli_error

definition entry_line :: "bytes \<times> bytes \<Rightarrow> bytes" where
  "entry_line kv = println (from_utf8_lossy (fst kv) @ [0x09] @ from_utf8_lossy (snd kv))"

fun print_stream :: "(status + (bytes \<times> bytes) list) list \<Rightarrow> bytes \<times> outcome" where
  "print_stream [] = ([], Ended)"
| "print_stream (Inl e # ms) = ([], Failed (Rpc e))"
| "print_stream (Inr es # ms) =
     (case print_stream ms of (out, fin) \<Rightarrow> (concat (map entry_line es) @ out, fin))"

fun run_command :: "'s client \<Rightarrow> str \<Rightarrow> command \<Rightarrow> 's \<Rightarrow> (bytes \<times> outcome) \<times> 's" where
  "run_command c tenant (Get_key key) s =
     (case client_get c \<lparr>rq_tenant = tenant, rq_key = key\<rparr> s of
        (Inl e, s) \<Rightarrow> (([], Failed (Rpc e)), s)
      | (Inr resp, s) \<Rightarrow>
          if gr_found resp then ((println (from_utf8_lossy (gr_value resp)), Ended), s) else (([], Exit_1), s))"
| "run_command c tenant (Put_key key v ttl) s =
     (case client_put c \<lparr>rq_tenant = tenant, rq_key = key, rq_value = v, rq_ttl_ms = ttl\<rparr> s of
        (Inl e, s) \<Rightarrow> (([], Failed (Rpc e)), s)
      | (Inr ver, s) \<Rightarrow> ((println (lit ''version='' @ lit (dec (unat ver))), Ended), s))"
| "run_command c tenant (Delete_key key) s =
     (case client_delete c \<lparr>rq_tenant = tenant, rq_key = key\<rparr> s of
        (Inl e, s) \<Rightarrow> (([], Failed (Rpc e)), s)
      | (Inr found, s) \<Rightarrow> ((println (lit ''found='' @ bool_display found), Ended), s))"
| "run_command c tenant (Scan_prefix p limit) s =
     (case client_scan c \<lparr>sq_tenant = tenant, sq_prefix = p, sq_limit = limit\<rparr> s of
        (Inl e, s) \<Rightarrow> (([], Failed (Rpc e)), s)
      | (Inr stream, s) \<Rightarrow> (print_stream stream, s))"

definition cli_main ::
    "'h tonic_api \<Rightarrow> read_file \<Rightarrow> ('h \<Rightarrow> 's client) \<Rightarrow> args \<Rightarrow> 's \<Rightarrow> (bytes \<times> outcome) \<times> 's" where
  "cli_main T read new_client a s =
     (case build_channel T read a of
        Inl e \<Rightarrow> (([], Failed e), s)
      | Inr h \<Rightarrow> run_command (new_client h) (cli_tenant a) (cmd a) s)"

subsection \<open>The node at the other end\<close>

text \<open>
  A request of the client has no metadata. A handler that panics ends the call with the status
  \<open>broken\<close> of the transport.
\<close>

definition unary ::
    "'k jwt_api \<Rightarrow> (bytes \<Rightarrow> str option) \<Rightarrow> world \<Rightarrow> 'k auth_interceptor \<Rightarrow>
     ('s \<Rightarrow> 'a rpc \<Rightarrow> (status + 'b) \<times> 's) \<Rightarrow> 'a \<Rightarrow> 's \<Rightarrow> (status + 'b) \<times> 's" where
  "unary J to_str w ic call b s =
     (case auth_call J to_str (w_time w) ic \<lparr>authorization = None, extension = None, body = b\<rparr> of
        Inl e \<Rightarrow> (Inl e, s)
      | Inr req \<Rightarrow> call s req)"

definition node_client ::
    "('f, 'l, 'c) env \<Rightarrow> (bytes \<Rightarrow> bytes) \<Rightarrow> 'k jwt_api \<Rightarrow> (bytes \<Rightarrow> str option) \<Rightarrow> world \<Rightarrow> status \<Rightarrow>
     'k auth_interceptor \<Rightarrow> ('f, 'l, 'c) grpc_api client" where
  "node_client E blake3 J to_str w broken ic =
     \<lparr>client_get = unary J to_str w ic (rpc_get E w),
      client_put = unary J to_str w ic (rpc_put E blake3 w),
      client_delete = unary J to_str w ic (rpc_delete E blake3 w),
      client_scan = (\<lambda>b s.
        (case unary J to_str w ic (rpc_scan E w) b s of
           (Inl e, s) \<Rightarrow> (Inl e, s)
         | (Inr None, s) \<Rightarrow> (Inl broken, s)
         | (Inr (Some chunks), s) \<Rightarrow> (Inr (map Inr chunks), s)))\<rparr>"

text \<open>What a get prints of an answer, and how it ends.\<close>

definition shown :: "bytes option \<Rightarrow> bytes \<times> outcome" where
  "shown ans = (case ans of None \<Rightarrow> ([], Exit_1) | Some v \<Rightarrow> (println (from_utf8_lossy v), Ended))"

section \<open>Lemmas\<close>

subsection \<open>Text\<close>

lemma utf8_valid_REPLACEMENT [simp]: "utf8_valid (REPLACEMENT @ s) \<longleftrightarrow> utf8_valid s" "utf8_valid REPLACEMENT"
  by (simp_all add: REPLACEMENT_def cont_byte_def)

lemma utf8_step_pos: "0 < snd (utf8_step a r)"
  by (simp add: utf8_step_def split: list.split)

text \<open>The cases of two, three and four bytes, for any tests and any predicate on the rest.\<close>

lemma step_two:
  "(case r of b # r' \<Rightarrow> Q b \<and> V r' | _ \<Rightarrow> False) \<longleftrightarrow>
   (case (case r of b # _ \<Rightarrow> (Q b, if Q b then 2 else 1) | [] \<Rightarrow> (False, 1)) of (ok, n) \<Rightarrow> ok \<and> V (drop (n - 1) r))"
  by (simp split: list.split)

lemma step_three:
  "(case r of b # c # r' \<Rightarrow> lo \<le> b \<and> b \<le> hi \<and> Q c \<and> V r' | _ \<Rightarrow> False) \<longleftrightarrow>
   (case (case r of
        b # r' \<Rightarrow> if lo \<le> b \<and> b \<le> hi then (case r' of c # _ \<Rightarrow> (Q c, if Q c then 3 else 2) | [] \<Rightarrow> (False, 2)) else (False, 1)
      | [] \<Rightarrow> (False, 1)) of (ok, n) \<Rightarrow> ok \<and> V (drop (n - 1) r))"
  by (auto split: list.split)

lemma step_four:
  "(case r of b # c # d # r' \<Rightarrow> lo \<le> b \<and> b \<le> hi \<and> Q c \<and> Q d \<and> V r' | _ \<Rightarrow> False) \<longleftrightarrow>
   (case (case r of
        b # r' \<Rightarrow>
          if lo \<le> b \<and> b \<le> hi then
            (case r' of
               c # r'' \<Rightarrow> if Q c then (case r'' of d # _ \<Rightarrow> (Q d, if Q d then 4 else 3) | [] \<Rightarrow> (False, 3)) else (False, 2)
             | [] \<Rightarrow> (False, 2))
          else (False, 1)
      | [] \<Rightarrow> (False, 1)) of (ok, n) \<Rightarrow> ok \<and> V (drop (n - 1) r))"
  by (auto split: list.split)

lemma utf8_valid_step: "utf8_valid (a # r) \<longleftrightarrow> (case utf8_step a r of (ok, n) \<Rightarrow> ok \<and> utf8_valid (drop (n - 1) r))"
proof -
  have *: "(if c1 then x1 else if c2 then x2 else if c3 then x3 else if c4 then x4 else x5) \<longleftrightarrow>
      (case (if c1 then y1 else if c2 then y2 else if c3 then y3 else if c4 then y4 else y5) of (ok, n) \<Rightarrow> P ok n)"
    if "x1 = (case y1 of (ok, n) \<Rightarrow> P ok n)" "x2 = (case y2 of (ok, n) \<Rightarrow> P ok n)" "x3 = (case y3 of (ok, n) \<Rightarrow> P ok n)"
      "x4 = (case y4 of (ok, n) \<Rightarrow> P ok n)" "x5 = (case y5 of (ok, n) \<Rightarrow> P ok n)"
    for c1 c2 c3 c4 x1 x2 x3 x4 x5 P and y1 y2 y3 y4 y5 :: "bool \<times> nat" using that by simp
  show ?thesis
    unfolding utf8_valid.simps utf8_step_def
    by (rule *) (simp, rule step_two, rule step_three, rule step_four, simp)
qed

text \<open>A character is recognised whatever follows it.\<close>

lemma take_two:
  assumes "(case r of b # _ \<Rightarrow> (Q b, if Q b then 2 else 1) | [] \<Rightarrow> (False, 1)) = (True, n)"
  shows "(case take (n - 1) r @ s of b # _ \<Rightarrow> (Q b, if Q b then 2 else 1) | [] \<Rightarrow> (False, 1)) = (True, n) \<and> n \<le> Suc (length r)"
  using assms by (auto split: list.splits)

lemma take_three:
  assumes "(case r of
      b # r' \<Rightarrow> if lo \<le> b \<and> b \<le> hi then (case r' of c # _ \<Rightarrow> (Q c, if Q c then 3 else 2) | [] \<Rightarrow> (False, 2)) else (False, 1)
    | [] \<Rightarrow> (False, 1)) = (True, n)"
  shows "(case take (n - 1) r @ s of
      b # r' \<Rightarrow> if lo \<le> b \<and> b \<le> hi then (case r' of c # _ \<Rightarrow> (Q c, if Q c then 3 else 2) | [] \<Rightarrow> (False, 2)) else (False, 1)
    | [] \<Rightarrow> (False, 1)) = (True, n) \<and> n \<le> Suc (length r)"
  using assms by (auto split: list.split_asm if_split_asm)

lemma take_four:
  assumes "(case r of
      b # r' \<Rightarrow>
        if lo \<le> b \<and> b \<le> hi then
          (case r' of
             c # r'' \<Rightarrow> if Q c then (case r'' of d # _ \<Rightarrow> (Q d, if Q d then 4 else 3) | [] \<Rightarrow> (False, 3)) else (False, 2)
           | [] \<Rightarrow> (False, 2))
        else (False, 1)
    | [] \<Rightarrow> (False, 1)) = (True, n)"
  shows "(case take (n - 1) r @ s of
      b # r' \<Rightarrow>
        if lo \<le> b \<and> b \<le> hi then
          (case r' of
             c # r'' \<Rightarrow> if Q c then (case r'' of d # _ \<Rightarrow> (Q d, if Q d then 4 else 3) | [] \<Rightarrow> (False, 3)) else (False, 2)
           | [] \<Rightarrow> (False, 2))
        else (False, 1)
    | [] \<Rightarrow> (False, 1)) = (True, n) \<and> n \<le> Suc (length r)"
  using assms by (auto split: list.split_asm if_split_asm)

lemma utf8_step_take:
  assumes "utf8_step a r = (True, n)"
  shows "utf8_step a (take (n - 1) r @ s) = (True, n) \<and> n \<le> Suc (length r)"
proof -
  have *: "(if c1 then y1 else if c2 then y2 else if c3 then y3 else if c4 then y4 else y5) = (True, n) \<and> B"
    if "(if c1 then x1 else if c2 then x2 else if c3 then x3 else if c4 then x4 else x5) = (True, n)"
      "x1 = (True, n) \<Longrightarrow> y1 = (True, n) \<and> B" "x2 = (True, n) \<Longrightarrow> y2 = (True, n) \<and> B" "x3 = (True, n) \<Longrightarrow> y3 = (True, n) \<and> B"
      "x4 = (True, n) \<Longrightarrow> y4 = (True, n) \<and> B" "x5 = (True, n) \<Longrightarrow> y5 = (True, n) \<and> B"
    for c1 c2 c3 c4 B and x1 x2 x3 x4 x5 y1 y2 y3 y4 y5 :: "bool \<times> nat" using that by (simp split: if_split_asm)
  show ?thesis
    using assms unfolding utf8_step_def
    by (rule *) (force, erule take_two, erule take_three, erule take_four, simp)
qed

lemma from_utf8_lossy_valid: "utf8_valid (from_utf8_lossy s)"
proof (induction s rule: from_utf8_lossy.induct)
  case (2 a r)
  obtain ok n where st: "utf8_step a r = (ok, n)" by fastforce
  let ?rest = "from_utf8_lossy (drop (n - 1) r)"
  have rest: "utf8_valid ?rest" using 2 st by simp
  show ?case
  proof (cases ok)
    case True
    with st utf8_step_take [of a r n ?rest] utf8_step_pos [of a r] have "utf8_step a (take (n - 1) r @ ?rest) = (True, n)"
      "n = Suc (n - 1)" "n - 1 \<le> length r" by auto
    then have "utf8_valid (a # take (n - 1) r @ ?rest)" using rest by (subst utf8_valid_step) simp
    moreover have "take n (a # r) = a # take (n - 1) r" using \<open>n = Suc (n - 1)\<close> by (metis take_Suc_Cons)
    ultimately show ?thesis using True st by (simp del: utf8_valid.simps)
  next
    case False
    with st rest show ?thesis by simp
  qed
qed simp

lemma from_utf8_lossy_id: "utf8_valid s \<Longrightarrow> from_utf8_lossy s = s"
proof (induction s rule: from_utf8_lossy.induct)
  case (2 a r)
  with utf8_step_pos [of a r] show ?case
    by (cases "utf8_step a r"; cases "snd (utf8_step a r)") (simp_all add: utf8_valid_step del: utf8_valid.simps(2))
qed simp

lemma from_utf8_lossy_idem: "from_utf8_lossy (from_utf8_lossy s) = from_utf8_lossy s"
  by (rule from_utf8_lossy_id) (rule from_utf8_lossy_valid)

subsection \<open>Channel\<close>

text \<open>A channel is encrypted exactly when the endpoint says \<open>https\<close>, with the authority and name asked for.\<close>

lemma build_channel_tls:
  assumes "build_channel T read a = Inr h"
  shows "\<exists>sec. connect T (endpoint a) sec = Some h \<and> (case sec of
      None \<Rightarrow> \<not> prefix (lit ''https://'') (endpoint a)
    | Some c \<Rightarrow> prefix (lit ''https://'') (endpoint a) \<and> native_roots c \<and> domain_name c = tls_domain a
        \<and> (case tls_ca a of None \<Rightarrow> ca_certificate c = None | Some p \<Rightarrow> map_sum id Some (read p) = Inr (ca_certificate c)))"
  using assms unfolding build_channel_def
  by (simp split: if_split_asm option.split_asm sum.split_asm) (rule exI, rule conjI, assumption, force)+

subsection \<open>Commands against a node\<close>

lemma unary_insecure: "unary J to_str w interceptor_insecure call b s
    = call s \<lparr>authorization = None, extension = Some Anonymous, body = b\<rparr>"
  by (simp add: unary_def auth_call_def interceptor_insecure_def)

lemma record_rpc_result:
  assumes "record_rpc rpc t res = (r, api')"
  obtains api1 where "res = (r, api1)" and "svc api' = svc api1"
  using assms by (cases res) (auto simp: record_rpc_def Let_def)

text \<open>No request of the client gets past a verifier: it carries no token.\<close>

lemma run_command_unauthenticated:
  "run_command (node_client E blake3 J to_str w broken (with_verifier v)) t c api
     = (([], Failed (Rpc (status_text Unauthenticated ''missing authorization header''))), api)"
  by (cases c) (simp_all add: node_client_def unary_def auth_call_def with_verifier_def)

lemma run_put:
  assumes "run_command (node_client E blake3 J to_str w broken interceptor_insecure) t (Put_key k v ttl) api = ((out, Ended), api')"
  obtains ver api1 where "put_impl E blake3 w api \<lparr>authorization = None, extension = Some Anonymous,
      body = \<lparr>rq_tenant = t, rq_key = k, rq_value = v, rq_ttl_ms = ttl\<rparr>\<rparr> = (Inr ver, api1)"
    and "svc api' = svc api1" and "out = println (lit ''version='' @ lit (dec (unat ver)))"
  using assms by (auto simp: node_client_def unary_insecure rpc_put_def split: prod.splits sum.splits elim!: record_rpc_result)

lemma run_get:
  assumes "run_command (node_client E blake3 J to_str w broken interceptor_insecure) t (Get_key k) api = ((out, fin), api')"
    and "\<And>e. fin \<noteq> Failed e"
  obtains resp api1 where "get_impl E w api \<lparr>authorization = None, extension = Some Anonymous,
      body = \<lparr>rq_tenant = t, rq_key = k\<rparr>\<rparr> = (Inr resp, api1)"
    and "(out, fin) = shown (if gr_found resp then Some (gr_value resp) else None)"
  using assms
  by (auto simp: node_client_def unary_insecure rpc_get_def shown_def split: prod.splits sum.splits if_splits elim!: record_rpc_result)

lemma gr_of_answer: "(if gr_found (get_answer x) then Some (gr_value (get_answer x)) else None) = x"
  by (simp add: get_answer_def split: option.split)

lemma put_impl_version:
  assumes "put_impl E blake3 w api req = (Inr ver, api')"
  shows "ver = 0"
  using assms
proof (cases rule: put_impl_cases)
  case (ran th q n')
  from ran(7) show ?thesis by (cases q) simp_all
qed simp

section \<open>Properties\<close>

text \<open>
  C13: what one command puts is what a later one prints. Against a node without authentication,
  \<open>put\<close> that succeeds prints version 0; after it a \<open>get\<close> of the same tenant and key that does not fail
  prints the value as it was given until its time to live is over and exits with status 1 without a
  word from then on; of any other key or tenant it shows, with malformed text replaced, what was
  there before the put.
\<close>

theorem cli_put_then_get:
  assumes "fjall_ok (fjall E) fv fi" and "fjall_durable (fjall E) fv fi fd ft" and "node_ok E fv fi fd ft (svc api) l"
    and "utf8_valid t" and "utf8_valid t'" and "utf8_valid v" and "rotate_safe (w_rotate w)"
    and "max_key_size (limits (config (svc api))) + 257 < 2 ^ 32" and "max_value_size (limits (config (svc api))) + 9 < 2 ^ 32"
    and "totals_fit (contents fv (svc api))"
    and "totals_fit ((contents fv (svc api))(raw_key t Data k \<mapsto> value_encode v (expiry_of w (svc api) ttl)))"
    and "run_command (node_client E blake3 J to_str w broken interceptor_insecure) t (Put_key k v ttl) api = ((out, Ended), api')"
    and "run_command (node_client E blake3 J to_str w' broken interceptor_insecure) t' (Get_key k') api' = ((out', fin), api'')"
    and "\<And>e. fin \<noteq> Failed e"
  shows "out = println (lit ''version=0'') \<and> (out', fin) =
    (let now = now_ms (w_time w') (nclock (svc api'))
     in if t' = t \<and> k' = k then
          if ttl > 0 \<and> saturating_add (now_ms (w_time w) (nclock (svc api))) ttl \<le> now then ([], Exit_1)
          else (println v, Ended)
        else shown (live_at (contents fv (svc api)) now (raw_key t' Data k')))"
proof -
  let ?pq = "\<lparr>authorization = None, extension = Some Anonymous, body = \<lparr>rq_tenant = t, rq_key = k, rq_value = v, rq_ttl_ms = ttl\<rparr>\<rparr>"
  let ?gq = "\<lparr>authorization = None, extension = Some Anonymous, body = \<lparr>rq_tenant = t', rq_key = k'\<rparr>\<rparr>"
  obtain ver api1 where p: "put_impl E blake3 w api ?pq = (Inr ver, api1)" "svc api' = svc api1"
    "out = println (lit ''version='' @ lit (dec (unat ver)))"
    using assms(12) by (rule run_put)
  obtain resp api2 where g: "get_impl E w' api' ?gq = (Inr resp, api2)"
    "(out', fin) = shown (if gr_found resp then Some (gr_value resp) else None)"
    using assms(13,14) by (rule run_get)
  have "out = println (lit ''version=0'')"
    using p(3) by (simp add: put_impl_version [OF p(1)] lit_def dec.simps)
  moreover let ?ans = "let now = now_ms (w_time w') (nclock (svc api'))
     in if t' = t \<and> k' = k then
          if ttl > 0 \<and> saturating_add (now_ms (w_time w) (nclock (svc api))) ttl \<le> now then None else Some v
        else live_at (contents fv (svc api)) now (raw_key t' Data k')"
  have "resp = get_answer ?ans"
    using assms(4,5,11) grpc_put_then_get [OF assms(1-3), where pq = ?pq and gq = ?gq, OF _ _ assms(7-10) _ p(1,2) g(1)]
    by (simp only: rpc.simps key_request.simps put_request.simps p(2))
  then have "(out', fin) = shown ?ans" using g(2) by (simp only: gr_of_answer)
  moreover have "shown None = ([], Exit_1)" "shown (Some v) = (println v, Ended)"
    using assms(6) by (simp_all add: shown_def from_utf8_lossy_id)
  ultimately show ?thesis by (simp add: Let_def)
qed

theorem cli_put_then_get_witness:
  "let client = node_client env_example (\<lambda>_. []) jwt_reference Some world_example (status_text Internal '''') interceptor_insecure;
       put = run_command client [0x61] (Put_key [] [0x35] 10) (grpc_new node_example);
       get = run_command client [0x61] (Get_key []) (snd put)
   in fst put = (println (lit ''version=0''), Ended) \<and> fst get = (println [0x35], Ended)"
proof -
  let ?c = "node_client env_example (\<lambda>_. []) jwt_reference Some world_example (status_text Internal '''') interceptor_insecure"
  let ?p = "run_command ?c [0x61] (Put_key [] [0x35] 10) (grpc_new node_example)"
  let ?g = "run_command ?c [0x61] (Get_key []) (snd ?p)"
  have ok: "node_ok env_example ref_view ref_wf (\<lambda>s. dm_get (synced s)) (\<lambda>s. set (dirty s))
      (svc (grpc_new node_example)) \<lparr>base = 3, entries = []\<rparr>"
    using node_ok_example by (simp add: grpc_new_def)
  have u: "utf8_valid [0x61]" "utf8_valid [0x35]" by code_simp+
  have lim: "max_key_size (limits (config (svc (grpc_new node_example)))) = 16"
    "max_value_size (limits (config (svc (grpc_new node_example)))) = 16"
    by code_simp+
  have "snd (fst ?p) = Ended" "snd (fst ?g) = Ended" by code_simp+
  then obtain out out' where p: "?p = ((out, Ended), snd ?p)" and g: "?g = ((out', Ended), snd ?g)"
    by (cases "fst ?p"; cases "fst ?g") (auto simp: prod_eq_iff)
  have n: "now_ms (w_time world_example) (nclock (svc (snd ?p))) = 1000"
    "now_ms (w_time world_example) (nclock node_example) = 1000" "saturating_add (1000 :: u64) 10 = 1010"
    by code_simp+
  have "out = println (lit ''version=0'') \<and> (out', Ended) = (println [0x35], Ended)"
    using cli_put_then_get [OF example_ctx ok u(1) u(1) u(2) rotate_safe_example _ _ _ _ p g]
      totals_fit_example contents_example lim n
    by (simp add: grpc_new_def Let_def)
  then show ?thesis unfolding Let_def by (subst p, subst g) simp
qed

end
