(* ===== verification/Node_Main.thy ===== *)
theory Node_Main
  imports Node_Correctness Auth_Layer
begin

text \<open>
  The node's \<open>main\<close>, \<open>ferriskv-node/src/main.rs\<close>: which configuration it runs with, what must succeed
  before it serves, how the gRPC server ends, and what happens after that. The parser of the
  configuration file (the crate \<open>config\<close>) and the TLS set-up of \<open>tonic\<close> are arguments. Instants are
  seconds since the server was first polled. Shown here: a node serves only with a valid
  configuration, the data of its disk, and the authentication and transport security it was
  configured with; and the server stops at a fixed instant after the start, signal or not.
\<close>

section \<open>Definitions\<close>

subsection \<open>Starting\<close>

text \<open>The configuration without a configuration file.\<close>

definition main_config :: node_config where
  "main_config =
     \<lparr>node_id = lit ''node-0'', listen = ''127.0.0.1:7100'',
      data_dir = \<lparr>absolute = False, comps = [''.'', ''data'', ''node'']\<rparr>, coord_endpoints = [],
      backend = MemoryBackend, limits = limits_default,
      auth = auth_config_default\<lparr>insecure := True\<rparr>, tls = None, admin_listen = None,
      ttl_sweep_interval_secs = 60, shutdown_timeout_secs = 10, quota = quota_config_default,
      watch_buffer = 1024, watch_heartbeat_secs = 30, wal_rotate_bytes = 64 * 1024 * 1024\<rparr>"

datatype start_error =
    Message string
  | Open_failed error
  | Auth_failed auth_error

text \<open>\<open>parsed\<close> is what the parser makes of the file, if there is one.\<close>

definition load_config :: "(string + node_config) option \<Rightarrow> start_error + node_config" where
  "load_config parsed =
     (case parsed of
        Some p \<Rightarrow> map_sum Message id p
      | None \<Rightarrow> Inr main_config)"

definition build_tls :: "read_file \<Rightarrow> tls_config \<Rightarrow> start_error + bytes \<times> bytes" where
  "build_tls read cfg = map_sum Message id (tls_load read cfg)"

definition build_auth_interceptor ::
    "'k jwt_api \<Rightarrow> read_file \<Rightarrow> auth_config \<Rightarrow> start_error + 'k auth_interceptor" where
  "build_auth_interceptor J read cfg =
     (if insecure cfg then Inr interceptor_insecure
      else
        (case load_public_key read cfg of
           Inl e \<Rightarrow> Inl (Message e)
         | Inr None \<Rightarrow> Inl (Message ''auth: public_key_path required when not insecure'')
         | Inr (Some pem) \<Rightarrow>
             (case new_rs256 J pem of
                Inl e \<Rightarrow> Inl (Auth_failed e)
              | Inr verifier \<Rightarrow> Inr (with_verifier verifier))))"

text \<open>
  Everything before the server is polled, in order; the first error ends the process. \<open>identity\<close>
  stands for \<open>tonic\<close>'s reading of a certificate and its key. The outcome is the node, the
  interceptor and the TLS identity, if there is one.
\<close>

definition startup ::
    "('f, 'l, 'c) env \<Rightarrow> 'k jwt_api \<Rightarrow> (bytes \<times> bytes \<Rightarrow> string + 'i) \<Rightarrow> (path \<Rightarrow> bool) \<Rightarrow> read_file \<Rightarrow>
     open_world \<Rightarrow> (string + node_config) option \<Rightarrow> 'f disk \<Rightarrow>
     (start_error + ('f, 'l, 'c) node \<times> 'k auth_interceptor \<times> 'i option) \<times> 'f disk" where
  "startup E J identity exists read ow parsed d =
     (case load_config parsed of
        Inl e \<Rightarrow> (Inl e, d)
      | Inr cfg \<Rightarrow>
     (case node_config_validate exists cfg of
        Inl e \<Rightarrow> (Inl (Message e), d)
      | Inr _ \<Rightarrow>
     (case node_open E ow cfg d of
        (Inl e, d) \<Rightarrow> (Inl (Open_failed e), d)
      | (Inr n, d) \<Rightarrow>
     (case build_auth_interceptor J read (auth (config n)) of
        Inl e \<Rightarrow> (Inl e, d)
      | Inr ic \<Rightarrow>
     (case tls (config n) of
        None \<Rightarrow> (Inr (n, ic, None), d)
      | Some t \<Rightarrow>
          (case build_tls read t of
             Inl e \<Rightarrow> (Inl e, d)
           | Inr pair \<Rightarrow>
               (case identity pair of
                  Inl e \<Rightarrow> (Inl (Message e), d)
                | Inr i \<Rightarrow> (Inr (n, ic, Some i), d))))))))"

subsection \<open>Serving and stopping\<close>

text \<open>
  What happens from outside while the node runs: when a SIGINT or SIGTERM comes, if any; how long the
  requests then in flight take; when the server fails by itself, if it does; and how long the admin
  server takes to close.
\<close>

record life =
  lf_signal :: "nat option"
  lf_drain :: nat
  lf_failure :: "nat option"
  lf_admin_drain :: nat

datatype served = Stopped | Server_error | Timed_out

text \<open>\<open>serve_with_shutdown\<close>: when it ends and how.\<close>

definition serve :: "life \<Rightarrow> (nat \<times> served) option" where
  "serve lf =
     (let drained = map_option (\<lambda>s. s + lf_drain lf) (lf_signal lf)
      in case (drained, lf_failure lf) of
           (None, None) \<Rightarrow> None
         | (Some t, None) \<Rightarrow> Some (t, Stopped)
         | (None, Some f) \<Rightarrow> Some (f, Server_error)
         | (Some t, Some f) \<Rightarrow> if f < t then Some (f, Server_error) else Some (t, Stopped))"

text \<open>\<open>tokio::time::timeout\<close>: the future's outcome if it is there in time.\<close>

definition timeout :: "nat \<Rightarrow> (nat \<times> served) option \<Rightarrow> nat \<times> served" where
  "timeout limit fut =
     (case fut of
        Some (t, r) \<Rightarrow> if t \<le> limit then (t, r) else (limit, Timed_out)
      | None \<Rightarrow> (limit, Timed_out))"

text \<open>
  The sum of durations panics on overflow: then there is no outcome. A duration of \<open>secs\<close> seconds
  overflows from \<open>2 ^ 64\<close> seconds on.
\<close>

definition main_serve :: "node_config \<Rightarrow> life \<Rightarrow> (nat \<times> served) option" where
  "main_serve cfg lf =
     map_option (\<lambda>limit. timeout limit (serve lf)) (checked_add (unat (shutdown_timeout_secs cfg)) 5)"

text \<open>
  The tasks \<open>main\<close> waits for after the server: the admin server and the sweeper, each until its own
  wait for a signal ends. When \<open>main\<close> gets past them; never if no signal comes for one of them.
\<close>

definition admin_done :: "node_config \<Rightarrow> life \<Rightarrow> nat option" where
  "admin_done cfg lf =
     (case admin_listen cfg of
        None \<Rightarrow> Some 0
      | Some _ \<Rightarrow> map_option (\<lambda>s. s + lf_admin_drain lf) (lf_signal lf))"

definition ttl_done :: "node_config \<Rightarrow> life \<Rightarrow> nat option" where
  "ttl_done cfg lf = (if ttl_sweep_interval_secs cfg = 0 then Some 0 else lf_signal lf)"

definition main_exit :: "node_config \<Rightarrow> life \<Rightarrow> nat option" where
  "main_exit cfg lf =
     (case (main_serve cfg lf, admin_done cfg lf, ttl_done cfg lf) of
        (Some (t, _), Some a, Some s) \<Rightarrow> Some (max t (max a s))
      | _ \<Rightarrow> None)"

text \<open>The last step: the log is flushed; an error is reported and changes nothing.\<close>

definition main_sync :: "io \<Rightarrow> ('f, 'l, 'c) node \<Rightarrow> bool \<times> ('f, 'l, 'c) node" where
  "main_sync io n = (case sync io (nwal n) of (r, w) \<Rightarrow> (\<not> isl r, n\<lparr>nwal := w\<rparr>))"

subsection \<open>Signals\<close>

text \<open>
  A handler of a signal: it could not be installed, or its wait ends at the first delivery, if there
  is one. A handler that could not be installed is reported, and its wait is over at once.
\<close>

datatype handler = Not_installed | Delivers "nat option"

fun handler_wait :: "handler \<Rightarrow> nat option" where
  "handler_wait Not_installed = Some 0"
| "handler_wait (Delivers t) = t"

text \<open>\<open>tokio::select!\<close> takes the wait that ends first.\<close>

definition shutdown_signal :: "handler \<Rightarrow> handler \<Rightarrow> nat option" where
  "shutdown_signal ctrl_c terminate =
     (case (handler_wait ctrl_c, handler_wait terminate) of
        (Some a, Some b) \<Rightarrow> Some (min a b)
      | (Some a, None) \<Rightarrow> Some a
      | (None, t) \<Rightarrow> t)"

definition life_quiet :: life where
  "life_quiet = \<lparr>lf_signal = None, lf_drain = 0, lf_failure = None, lf_admin_drain = 0\<rparr>"

section \<open>Lemmas\<close>

lemma build_auth_interceptor_Inr:
  assumes "build_auth_interceptor J read cfg = Inr ic"
  shows "if insecure cfg then ic = interceptor_insecure
    else \<exists>path pem k. public_key_path cfg = Some path \<and> read path = Inr pem \<and> from_rsa_pem J pem = Inr k
      \<and> ic = with_verifier \<lparr>vkey = k, validation = RS256\<rparr>"
  using assms
  by (auto simp: build_auth_interceptor_def load_public_key_def new_rs256_def split: if_splits sum.splits option.splits)

lemma startup_Inr:
  assumes "startup E J identity exists read ow parsed d = (Inr (n, ic, i), d')"
  obtains cfg where "load_config parsed = Inr cfg" and "node_config_validate exists cfg = Inr ()"
    and "node_open E ow cfg d = (Inr n, d')" and "build_auth_interceptor J read (auth (config n)) = Inr ic"
    and "i = None \<longleftrightarrow> tls (config n) = None"
  using assms
  by (auto simp: startup_def split: sum.splits prod.splits option.splits)

text \<open>Without a handler for one of the signals the server stops as soon as it has started.\<close>

lemma shutdown_without_handler:
  assumes "ctrl_c = Not_installed \<or> terminate = Not_installed" and "lf_signal lf = shutdown_signal ctrl_c terminate"
    and "lf_failure lf = None"
  shows "serve lf = Some (lf_drain lf, Stopped)"
  using assms by (auto simp: serve_def shutdown_signal_def split: option.split)

lemma shutdown_signal_least:
  "shutdown_signal (Delivers a) (Delivers b) = Some t \<longleftrightarrow> Some t \<in> {a, b} \<and> (\<forall>x. Some x \<in> {a, b} \<longrightarrow> t \<le> x)"
  by (auto simp: shutdown_signal_def min_def split: option.splits)

section \<open>Properties\<close>

text \<open>
  C25: a node serves only as it was configured, and what was on its disk. When \<open>main\<close> gets as far as
  serving, on the disk of a node that ran before, the configuration is valid, the node holds the same
  entries and its invariant, TLS is on exactly if configured, and a request reaches a handler
  anonymously only in insecure mode; otherwise only with the claims of a token issued under the key
  of the file at \<open>public_key_path\<close>.
\<close>

theorem startup_serves_as_configured:
  assumes "fjall_ok (fjall E) fv fi" and "fjall_durable (fjall E) fv fi fd ft" and "jwt_ok J issued"
    and "node_ok E fv fi fd ft before l" and "length (segment (nwal before)) < 2 ^ 64"
    and "startup E J identity exists read ow parsed (node_disk d before) = (Inr (n, ic, i), d')"
    and "backend (config n) = backend_of before" and "auth_call J to_str t ic req = Inr req'"
  shows "same_data (contents fv n) (contents fv before) \<and> (\<exists>l'. node_ok E fv fi fd ft n l')
    \<and> node_config_validate exists (config n) = Inr () \<and> (i = None \<longleftrightarrow> tls (config n) = None)
    \<and> (if insecure (auth (config n)) then extension req' = Some Anonymous
       else \<exists>path pem k token c. public_key_path (auth (config n)) = Some path \<and> read path = Inr pem
         \<and> from_rsa_pem J pem = Inr k \<and> issued k RS256 token c \<and> extension req' = Some (Authenticated c))"
proof -
  obtain cfg where v: "node_config_validate exists cfg = Inr ()" and o: "node_open E ow cfg (node_disk d before) = (Inr n, d')"
    and ic: "build_auth_interceptor J read (auth (config n)) = Inr ic" and i: "i = None \<longleftrightarrow> tls (config n) = None"
    using startup_Inr [OF assms(6)] by metis
  have cfg: "config n = cfg"
    using o by (auto simp: node_open_def open_with_clock_def Let_def split: option.splits sum.splits prod.splits)
  have "disk_holds E fi fd ft (backend cfg) (node_disk d before) (contents fv before)"
    using node_ok_disk [OF assms(4,5) same_data_refl] assms(7) cfg by simp
  moreover have "values_ok (contents fv before)" using assms(4) by (simp add: node_ok_def)
  ultimately have "same_data (contents fv n) (contents fv before)" "\<exists>l'. node_ok E fv fi fd ft n l'"
    using open_recovers [OF assms(1,2)] o unfolding node_open_def by blast+
  moreover have "if insecure (auth (config n)) then extension req' = Some Anonymous
       else \<exists>path pem k token c. public_key_path (auth (config n)) = Some path \<and> read path = Inr pem
         \<and> from_rsa_pem J pem = Inr k \<and> issued k RS256 token c \<and> extension req' = Some (Authenticated c)"
  proof (cases "insecure (auth (config n))")
    case True
    with build_auth_interceptor_Inr [OF ic] assms(8) show ?thesis
      by (auto simp: auth_call_Inr_iff interceptor_insecure_def)
  next
    case False
    with build_auth_interceptor_Inr [OF ic] obtain path pem k where p: "public_key_path (auth (config n)) = Some path"
      "read path = Inr pem" "from_rsa_pem J pem = Inr k" "ic = with_verifier \<lparr>vkey = k, validation = RS256\<rparr>"
      by auto
    from assms(8) obtain token c where "jwt_decode J t token k RS256 = Inr c" "extension req' = Some (Authenticated c)"
      by (auto simp: p(4) auth_call_Inr_iff with_verifier_def jwt_verify_Inr_iff)
    moreover from this have "issued k RS256 token c" using assms(3) unfolding jwt_ok_def by blast
    ultimately show ?thesis using p False by auto
  qed
  ultimately show ?thesis using v i cfg by simp
qed

theorem startup_serves_as_configured_witness:
  "\<exists>n ic l. fst (startup env_example jwt_reference Inr (\<lambda>_. True) (\<lambda>_. Inr []) open_example (Some (Inr config_example))
       (node_disk disk_example node_example)) = Inr (n, ic, None :: (bytes \<times> bytes) option)
     \<and> node_ok env_example ref_view ref_wf (\<lambda>s. dm_get (synced s)) (\<lambda>s. set (dirty s)) n l"
proof -
  let ?s = "startup env_example jwt_reference Inr (\<lambda>_. True) (\<lambda>_. Inr []) open_example (Some (Inr config_example))
       (node_disk disk_example node_example)"
  let ?req = "\<lparr>authorization = None, extension = None, body = ()\<rparr>"
  have "isl (fst ?s) = False" by code_simp
  then obtain n ic i where s: "?s = (Inr (n, ic, i), snd ?s)"
    by (cases "fst ?s") (auto simp: prod_eq_iff)
  obtain cfg where c: "load_config (Some (Inr config_example)) = Inr cfg" "node_open env_example open_example cfg
      (node_disk disk_example node_example) = (Inr n, snd ?s)" "build_auth_interceptor jwt_reference (\<lambda>_. Inr []) (auth (config n)) = Inr ic"
    using startup_Inr [OF s] by metis
  then have cfg: "config n = config_example"
    by (auto simp: load_config_def node_open_def open_with_clock_def Let_def split: option.splits sum.splits prod.splits)
  then have ic: "ic = interceptor_insecure"
    using build_auth_interceptor_Inr [OF c(3)] by (simp add: config_example_def)
  have "backend config_example = backend_of node_example" by code_simp
  moreover have "length (segment (nwal node_example)) < 2 ^ 64"
    by (simp add: node_example_def segment_example HEADER_LEN_def)
  moreover have "auth_call jwt_reference Some 0 ic ?req = Inr (?req\<lparr>extension := Some Anonymous\<rparr>)"
    by (simp add: ic auth_call_Inr_iff interceptor_insecure_def)
  ultimately have "(\<exists>l. node_ok env_example ref_view ref_wf (\<lambda>s. dm_get (synced s)) (\<lambda>s. set (dirty s)) n l)
      \<and> (i = None \<longleftrightarrow> tls (config n) = None)"
    using startup_serves_as_configured [OF example_ctx jwt_ok_reference node_ok_example _ s] cfg by metis
  with s cfg show ?thesis by (metis config_example_def fst_conv node_config.select_convs(8))
qed

text \<open>
  C26: the server runs for a bounded time. However the node is used, it stops serving at the latest
  \<open>shutdown_timeout_secs + 5\<close> seconds after it started, and at exactly that instant if nobody asked it
  to stop; with an admin server or a sweeper the process then waits for a signal without serving.
  Requests in flight at a signal are drained only if that ends before the same instant.
\<close>

theorem server_stops_without_signal:
  assumes "unat (shutdown_timeout_secs cfg) + 5 < 2 ^ 64"
  defines "limit \<equiv> unat (shutdown_timeout_secs cfg) + 5"
  shows "(\<exists>t r. main_serve cfg lf = Some (t, r) \<and> t \<le> limit)
    \<and> (lf_signal lf = None \<and> lf_failure lf = None \<longrightarrow>
         main_serve cfg lf = Some (limit, Timed_out)
         \<and> (admin_listen cfg \<noteq> None \<or> ttl_sweep_interval_secs cfg \<noteq> 0 \<longrightarrow> main_exit cfg lf = None))
    \<and> (lf_failure lf = None \<longrightarrow>
         (\<exists>t. main_serve cfg lf = Some (t, Stopped)) = (\<exists>s. lf_signal lf = Some s \<and> s + lf_drain lf \<le> limit))"
proof -
  have m: "main_serve cfg lf = Some (timeout limit (serve lf))"
    using assms by (simp add: main_serve_def checked_add_def limit_def)
  then show ?thesis
    by (auto simp: timeout_def serve_def main_exit_def admin_done_def ttl_done_def Let_def
        split: option.splits if_splits)
qed

theorem server_stops_without_signal_witness:
  "main_serve main_config life_quiet = Some (15, Timed_out) \<and> main_exit main_config life_quiet = None"
  using server_stops_without_signal [of main_config life_quiet]
  by (simp add: main_config_def life_quiet_def)

end
