(* ===== verification/Node_Concurrent.thy ===== *)
theory Node_Concurrent
  imports Node_Correctness
begin

text \<open>
  Writes of \<open>ferriskv-node/src/service.rs\<close> that overlap. \<open>NodeService\<close> is shared by the tasks of the
  server and holds no lock across a write, so the calls a write makes on the storage, the log, the
  index, the counters and the hub interleave with those of other writes. Here each such call is a
  step of its own; each is atomic in the code (a \<open>DashMap\<close> entry, the log's mutex, \<open>fjall\<close>; the
  counter's loop is the subject of the theory \<open>Quota_Concurrent\<close>). Shown here: a write whose steps
  nothing comes between is the operation of the service; as long as writes of one key do not overlap
  between log and storage, and the log is rotated in a quiet moment, a crash at any step recovers
  every write that was logged; and neither condition can be dropped.
\<close>

section \<open>Definitions\<close>

text \<open>
  How far a write has come: the next call is the plan, the quota check, the append, the write to
  storage, the index, the counter, the hub, the size check, the flush, the rotation.
\<close>

datatype phase =
    Start
  | Planned "accounting option"
  | Checked "accounting option"
  | Logged "accounting option"
  | Stored "accounting option"
  | Indexed "accounting option"
  | Accounted
  | Published
  | Full
  | Flushed
  | Done "unit result"

text \<open>A write: a put of a value with its time to live, or a delete.\<close>

datatype change = Put_value bytes u64 | Remove

record writer =
  wr_world :: world
  wr_key :: bytes
  wr_change :: change
  wr_expiry :: "u64 option"
  wr_phase :: phase

definition new_writer :: "world \<Rightarrow> bytes \<Rightarrow> change \<Rightarrow> writer" where
  "new_writer w key c = \<lparr>wr_world = w, wr_key = key, wr_change = c, wr_expiry = None, wr_phase = Start\<rparr>"

text \<open>The record a write logs, and the entry it leaves.\<close>

definition wr_op :: "writer \<Rightarrow> wal_op" where
  "wr_op wr = (case wr_change wr of Put_value _ _ \<Rightarrow> wal_op.Put | Remove \<Rightarrow> wal_op.Delete)"

definition wr_raw :: "writer \<Rightarrow> bytes" where
  "wr_raw wr = (case wr_change wr of Put_value v _ \<Rightarrow> value_encode v (wr_expiry wr) | Remove \<Rightarrow> [])"

definition wr_entry :: "writer \<Rightarrow> bytes option" where
  "wr_entry wr = (case wr_change wr of Put_value _ _ \<Rightarrow> Some (wr_raw wr) | Remove \<Rightarrow> None)"

definition plan_of :: "('f, 'l, 'c) env \<Rightarrow> ('f, 'l, 'c) node \<Rightarrow> writer \<Rightarrow> accounting option result" where
  "plan_of E n wr =
     (case wr_change wr of
        Put_value v _ \<Rightarrow> plan_accounting E n (wr_key wr) (length v)
      | Remove \<Rightarrow> plan_delete_accounting E n (wr_key wr))"

definition apply_change ::
    "('f, 'l, 'c) env \<Rightarrow> ('f, 'l, 'c) node \<Rightarrow> writer \<Rightarrow> unit result \<times> 'f storage_backend" where
  "apply_change E n wr =
     (case wr_change wr of
        Put_value _ _ \<Rightarrow> backend_put (fjall E) (store n) (wr_key wr) (wr_raw wr)
      | Remove \<Rightarrow> backend_delete (fjall E) (store n) (wr_key wr))"

definition announcement ::
    "('f, 'l, 'c) env \<Rightarrow> ('f, 'l, 'c) node \<Rightarrow> writer \<Rightarrow> ('f, 'l, 'c) node" where
  "announcement E n wr =
     (case wr_change wr of
        Put_value v _ \<Rightarrow> publish_change E n (wr_key wr) change_kind.Put v
      | Remove \<Rightarrow> publish_change E n (wr_key wr) change_kind.Delete [])"

definition expires :: "('f, 'l, 'c) node \<Rightarrow> writer \<Rightarrow> u64 option" where
  "expires n wr =
     (case wr_change wr of
        Put_value _ ttl_ms \<Rightarrow>
          (if ttl_ms > 0 then Some (saturating_add (now_ms (w_time (wr_world wr)) (nclock n)) ttl_ms) else None)
      | Remove \<Rightarrow> None)"

definition quota_check :: "('f, 'l, 'c) node \<Rightarrow> writer \<Rightarrow> accounting option \<Rightarrow> unit result" where
  "quota_check n wr acc =
     (case (wr_change wr, acc) of
        (Put_value _ _, Some p) \<Rightarrow> check_write (nquotas n) (acc_tenant p) (delta p)
      | _ \<Rightarrow> Inr ())"

text \<open>A call that fails ends the write with its error.\<close>

definition proceed :: "writer \<Rightarrow> 'a result \<Rightarrow> ('a \<Rightarrow> phase) \<Rightarrow> writer" where
  "proceed wr r ph = wr\<lparr>wr_phase := (case r of Inl e \<Rightarrow> Done (Inl e) | Inr x \<Rightarrow> ph x)\<rparr>"

text \<open>The next call of a write. A delete has no quota check.\<close>

definition write_step ::
    "('f, 'l, 'c) env \<Rightarrow> writer \<Rightarrow> ('f, 'l, 'c) node \<Rightarrow> writer \<times> ('f, 'l, 'c) node" where
  "write_step E wr n =
     (case wr_phase wr of
        Start \<Rightarrow> (proceed (wr\<lparr>wr_expiry := expires n wr\<rparr>) (plan_of E n wr) Planned, n)
      | Planned acc \<Rightarrow> (proceed wr (quota_check n wr acc) (\<lambda>_. Checked acc), n)
      | Checked acc \<Rightarrow>
          (case append (crc32 E) (w_append (wr_world wr)) (nwal n) (wr_op wr) (wr_key wr) (wr_raw wr) of
             (r, wl) \<Rightarrow> (proceed wr r (\<lambda>_. Logged acc), n\<lparr>nwal := wl\<rparr>))
      | Logged acc \<Rightarrow>
          (case apply_change E n wr of (r, s) \<Rightarrow> (proceed wr r (\<lambda>_. Stored acc), n\<lparr>store := s\<rparr>))
      | Stored acc \<Rightarrow>
          (wr\<lparr>wr_phase := Indexed acc\<rparr>,
           (case wr_expiry wr of Some e \<Rightarrow> n\<lparr>index := schedule (index n) (wr_key wr) e\<rparr> | None \<Rightarrow> n))
      | Indexed acc \<Rightarrow> (wr\<lparr>wr_phase := Accounted\<rparr>, commit_accounting E n acc)
      | Accounted \<Rightarrow> (wr\<lparr>wr_phase := Published\<rparr>, announcement E n wr)
      | Published \<Rightarrow>
          (if \<not> is_durable (store n) \<or> segment_bytes (winner (nwal n)) < wal_rotate_bytes (config n)
           then (wr\<lparr>wr_phase := Done (Inr ())\<rparr>, n)
           else (wr\<lparr>wr_phase := Full\<rparr>, n))
      | Full \<Rightarrow>
          (case backend_flush (fjall E) (store n) of
             (Inl _, s) \<Rightarrow> (wr\<lparr>wr_phase := Done (Inr ())\<rparr>, n\<lparr>store := s\<rparr>)
           | (Inr _, s) \<Rightarrow> (wr\<lparr>wr_phase := Flushed\<rparr>, n\<lparr>store := s\<rparr>))
      | Flushed \<Rightarrow>
          (wr\<lparr>wr_phase := Done (Inr ())\<rparr>, n\<lparr>nwal := snd (rotate (w_rotate (wr_world wr)) (nwal n))\<rparr>)
      | Done _ \<Rightarrow> (wr, n))"

text \<open>The steps of one write with nothing in between; there are at most ten.\<close>

fun steps ::
    "('f, 'l, 'c) env \<Rightarrow> nat \<Rightarrow> writer \<times> ('f, 'l, 'c) node \<Rightarrow> writer \<times> ('f, 'l, 'c) node" where
  "steps E 0 st = st"
| "steps E (Suc m) (wr, n) = steps E m (write_step E wr n)"

definition write_alone ::
    "('f, 'l, 'c) env \<Rightarrow> world \<Rightarrow> ('f, 'l, 'c) node \<Rightarrow> bytes \<Rightarrow> change \<Rightarrow> writer \<times> ('f, 'l, 'c) node" where
  "write_alone E w n key c = steps E 10 (new_writer w key c, n)"

text \<open>Any number of writes at once: one of them makes its next call.\<close>

definition conc_next ::
    "('f, 'l, 'c) env \<Rightarrow> nat \<Rightarrow> writer list \<times> ('f, 'l, 'c) node \<Rightarrow> writer list \<times> ('f, 'l, 'c) node" where
  "conc_next E i st =
     (case st of (ws, n) \<Rightarrow>
        if i < length ws then (case write_step E (ws ! i) n of (wr, n') \<Rightarrow> (ws[i := wr], n')) else st)"

fun conc_run ::
    "('f, 'l, 'c) env \<Rightarrow> nat list \<Rightarrow> writer list \<times> ('f, 'l, 'c) node \<Rightarrow> writer list \<times> ('f, 'l, 'c) node" where
  "conc_run E [] st = st"
| "conc_run E (i # js) st = conc_run E js (conc_next E i st)"

subsection \<open>Order among writes\<close>

text \<open>A write is pending while its record is in the log and its entry not yet in storage.\<close>

definition logged :: "writer \<Rightarrow> bool" where
  "logged wr = (case wr_phase wr of Logged _ \<Rightarrow> True | _ \<Rightarrow> False)"

definition idle :: "writer \<Rightarrow> bool" where
  "idle wr = (case wr_phase wr of Start \<Rightarrow> True | Done _ \<Rightarrow> True | _ \<Rightarrow> False)"

definition pending :: "writer list \<Rightarrow> (bytes \<rightharpoonup> bytes) \<Rightarrow> (bytes \<rightharpoonup> bytes)" where
  "pending ws m k = (case find (\<lambda>wr. logged wr \<and> wr_key wr = k) ws of Some wr \<Rightarrow> wr_entry wr | None \<Rightarrow> m k)"

text \<open>
  Two pending writes are of different keys, and between the flush of a rotation and its end no
  other write is under way.
\<close>

definition orderly :: "writer list \<Rightarrow> bool" where
  "orderly ws \<longleftrightarrow>
     list_all (\<lambda>i. list_all (\<lambda>j. i \<noteq> j \<longrightarrow>
         \<not> (logged (ws ! i) \<and> logged (ws ! j) \<and> wr_key (ws ! i) = wr_key (ws ! j))
         \<and> (wr_phase (ws ! i) = Flushed \<longrightarrow> idle (ws ! j))) [0..<length ws]) [0..<length ws]"

fun orderly_run :: "('f, 'l, 'c) env \<Rightarrow> nat list \<Rightarrow> writer list \<times> ('f, 'l, 'c) node \<Rightarrow> bool" where
  "orderly_run E [] st = orderly (fst st)"
| "orderly_run E (i # js) st = (orderly (fst st) \<and> orderly_run E js (conc_next E i st))"

text \<open>A write of a client, small enough for the log, whose file operations succeed.\<close>

definition writer_ok :: "writer \<Rightarrow> bool" where
  "writer_ok wr \<longleftrightarrow>
     \<not> bookkeeping (wr_key wr) \<and> length (wr_key wr) < 2 ^ 32
     \<and> (case wr_change wr of Put_value v _ \<Rightarrow> length v + 9 < 2 ^ 32 | Remove \<Rightarrow> True)
     \<and> w_append (wr_world wr) = io_ok \<and> rotate_safe (w_rotate (wr_world wr))"

definition acc_ok :: "phase \<Rightarrow> bool" where
  "acc_ok ph = (let ok = (\<lambda>acc. case acc of Some p \<Rightarrow> utf8_valid (acc_tenant p) | None \<Rightarrow> True)
     in case ph of Planned acc \<Rightarrow> ok acc | Checked acc \<Rightarrow> ok acc | Logged acc \<Rightarrow> ok acc | Stored acc \<Rightarrow> ok acc
        | Indexed acc \<Rightarrow> ok acc | _ \<Rightarrow> True)"

text \<open>
  What holds throughout: a crash gives back the running map with the pending writes in it; before a
  rotation truncates the log, the backend alone gives the running map back.
\<close>

definition conc_inv ::
    "('f, 'l, 'c) env \<Rightarrow> ('f \<Rightarrow> (bytes \<rightharpoonup> bytes)) \<Rightarrow> ('f \<Rightarrow> bool) \<Rightarrow> ('f \<Rightarrow> (bytes \<rightharpoonup> bytes)) \<Rightarrow>
     ('f \<Rightarrow> bytes set) \<Rightarrow> writer list \<Rightarrow> ('f, 'l, 'c) node \<Rightarrow> log \<Rightarrow> bool" where
  "conc_inv E fv fi fd ft ws n l \<longleftrightarrow>
     backend_wf fi (store n) \<and> wal_holds (crc32 E) (nwal n) l
     \<and> recoverable fd ft (store n) (entries l) (pending ws (contents fv n)) \<and> values_ok (contents fv n)
     \<and> (\<forall>wr\<in>set ws. writer_ok wr \<and> acc_ok (wr_phase wr)
          \<and> (logged wr \<longrightarrow> wr_key wr \<in> rkey ` set (entries l))
          \<and> (wr_phase wr = Full \<longrightarrow> is_durable (store n))
          \<and> (wr_phase wr = Flushed \<longrightarrow> recoverable fd ft (store n) [] (contents fv n)))"

text \<open>The entry of a write is in storage from its write to storage on.\<close>

definition stored :: "writer \<Rightarrow> bool" where
  "stored wr = (case wr_phase wr of
     Stored _ \<Rightarrow> True | Indexed _ \<Rightarrow> True | Accounted \<Rightarrow> True | Published \<Rightarrow> True | Full \<Rightarrow> True | Flushed \<Rightarrow> True
   | Done (Inr _) \<Rightarrow> True | _ \<Rightarrow> False)"

text \<open>Two writes of different keys, and a node whose log is full at 60 bytes, for examples.\<close>

definition two_writers :: "writer list" where
  "two_writers = [new_writer world_example (raw_key [0x61] Data [1]) (Put_value [5] 0),
     new_writer world_example (raw_key [0x61] Data [2]) (Put_value [6] 0)]"

definition node_small_log :: "(ref_fjall, u32 \<times> instant \<times> nat, channel) node" where
  "node_small_log = node_example\<lparr>config := config_example\<lparr>wal_rotate_bytes := 60\<rparr>\<rparr>"

section \<open>Lemmas\<close>

lemma write_step_Done [simp]: "wr_phase wr = Done r \<Longrightarrow> write_step E wr n = (wr, n)"
  by (simp add: write_step_def)

lemma steps_Done [simp]: "wr_phase wr = Done r \<Longrightarrow> steps E m (wr, n) = (wr, n)"
  by (induction m) simp_all

lemma phase_irrelevant [simp]:
  "wr_raw (wr\<lparr>wr_phase := ph\<rparr>) = wr_raw wr" "wr_op (wr\<lparr>wr_phase := ph\<rparr>) = wr_op wr"
  "wr_entry (wr\<lparr>wr_phase := ph\<rparr>) = wr_entry wr" "apply_change E n (wr\<lparr>wr_phase := ph\<rparr>) = apply_change E n wr"
  "announcement E n (wr\<lparr>wr_phase := ph\<rparr>) = announcement E n wr" "apply_change E (n\<lparr>nwal := wl\<rparr>) wr = apply_change E n wr"
  by (simp_all add: wr_raw_def wr_op_def wr_entry_def apply_change_def announcement_def split: change.split)

subsection \<open>A write alone\<close>

text \<open>Once the value is stored, what is left is the tail of the operation.\<close>

lemma steps_tail:
  assumes "wr_phase wr = Stored acc"
  shows "\<exists>wr'. steps E 6 (wr, n) = (wr', rotate_wal_if_needed E (wr_world wr) (announcement E (commit_accounting E
      (case wr_expiry wr of Some e \<Rightarrow> n\<lparr>index := schedule (index n) (wr_key wr) e\<rparr> | None \<Rightarrow> n) acc) wr))
    \<and> wr_phase wr' = Done (Inr ())"
proof -
  define n1 where "n1 = (case wr_expiry wr of Some e \<Rightarrow> n\<lparr>index := schedule (index n) (wr_key wr) e\<rparr> | None \<Rightarrow> n)"
  define n2 where "n2 = commit_accounting E n1 acc"
  define n3 where "n3 = announcement E n2 (wr\<lparr>wr_phase := Accounted\<rparr>)"
  define wr3 where "wr3 = wr\<lparr>wr_phase := Published\<rparr>"
  have "steps E 6 (wr, n) = steps E 3 (wr3, n3)"
    using assms by (simp add: eval_nat_numeral write_step_def n1_def n2_def n3_def wr3_def)
  also have "\<exists>wr'. \<dots> = (wr', rotate_wal_if_needed E (wr_world wr) n3) \<and> wr_phase wr' = Done (Inr ())"
  proof (cases "\<not> is_durable (store n3) \<or> segment_bytes (winner (nwal n3)) < wal_rotate_bytes (config n3)")
    case True
    then have "write_step E wr3 n3 = (wr3\<lparr>wr_phase := Done (Inr ())\<rparr>, n3)" by (auto simp: write_step_def wr3_def)
    with True show ?thesis by (auto simp: eval_nat_numeral rotate_wal_if_needed_def)
  next
    case False
    then have "write_step E wr3 n3 = (wr3\<lparr>wr_phase := Full\<rparr>, n3)" by (simp add: write_step_def wr3_def)
    then show ?thesis
      using False by (auto simp: eval_nat_numeral rotate_wal_if_needed_def write_step_def wr3_def split: prod.split sum.split)
  qed
  also have "n3 = announcement E n2 wr" by (simp add: n3_def)
  finally show ?thesis by (simp add: n2_def n1_def)
qed

lemma proceed_simps [simp]:
  "proceed wr (Inl e) ph = wr\<lparr>wr_phase := Done (Inl e)\<rparr>" "proceed wr (Inr x) ph = wr\<lparr>wr_phase := ph x\<rparr>"
  by (simp_all add: proceed_def)

text \<open>From the append on, for any outcome of it and of the write to storage.\<close>

lemma steps_head:
  assumes "wr_phase wr = Checked acc"
    and a: "append (crc32 E) (w_append (wr_world wr)) (nwal n) (wr_op wr) (wr_key wr) (wr_raw wr) = (r, wl)"
    and p: "apply_change E n wr = (q, s)"
  shows "\<exists>wr'. steps E 8 (wr, n) = (wr', (case (r, q) of
      (Inl _, _) \<Rightarrow> n\<lparr>nwal := wl\<rparr>
    | (_, Inl _) \<Rightarrow> n\<lparr>nwal := wl, store := s\<rparr>
    | _ \<Rightarrow> rotate_wal_if_needed E (wr_world wr) (announcement E (commit_accounting E
        (case wr_expiry wr of
           Some e \<Rightarrow> n\<lparr>nwal := wl, store := s, index := schedule (index n) (wr_key wr) e\<rparr>
         | None \<Rightarrow> n\<lparr>nwal := wl, store := s\<rparr>) acc) wr)))
    \<and> wr_phase wr' = Done (case (r, q) of (Inl e, _) \<Rightarrow> Inl e | (_, Inl e) \<Rightarrow> Inl e | _ \<Rightarrow> Inr ())"
proof -
  have s8: "steps E 8 (wr, n) = steps E 7 (proceed wr r (\<lambda>_. Logged acc), n\<lparr>nwal := wl\<rparr>)"
    using assms(1) a by (simp add: eval_nat_numeral write_step_def [of E wr n])
  show ?thesis
  proof (cases r)
    case (Inl e)
    then show ?thesis using s8 by simp
  next
    case (Inr sq)
    then have s7: "steps E 8 (wr, n) = steps E 6 (proceed (wr\<lparr>wr_phase := Logged acc\<rparr>) q (\<lambda>_. Stored acc), n\<lparr>nwal := wl, store := s\<rparr>)"
      using s8 p by (simp add: eval_nat_numeral write_step_def [of E "wr\<lparr>wr_phase := Logged acc\<rparr>"])
    show ?thesis
    proof (cases q)
      case q: (Inl e)
      then show ?thesis using Inr s7 by simp
    next
      case q: (Inr u)
      then show ?thesis
        using Inr s7 steps_tail [of "wr\<lparr>wr_phase := Stored acc\<rparr>" acc E "n\<lparr>nwal := wl, store := s\<rparr>"]
        by (auto cong: option.case_cong)
    qed
  qed
qed

lemma steps_numeral:
  "steps E 10 (wr, n) = steps E 9 (write_step E wr n)" "steps E 9 (wr, n) = steps E 8 (write_step E wr n)"
  by (simp_all add: eval_nat_numeral)

lemma write_alone_refused:
  assumes "plan_of E n (new_writer w k c) = Inr acc" and "quota_check n (new_writer w k c) acc = Inl e"
  shows "\<exists>wr. write_alone E w n k c = (wr, n) \<and> wr_phase wr = Done (Inl e)"
proof -
  have "quota_check n (new_writer w k c\<lparr>wr_expiry := x, wr_phase := ph\<rparr>) acc = Inl e" for x ph
    using assms(2) by (simp add: quota_check_def)
  then show ?thesis using assms(1)
    by (simp add: write_alone_def steps_numeral write_step_def new_writer_def)
qed

lemma write_alone_checked:
  assumes "plan_of E n (new_writer w k c) = Inr acc" and "quota_check n (new_writer w k c) acc = Inr u"
  shows "write_alone E w n k c = steps E 8
    (\<lparr>wr_world = w, wr_key = k, wr_change = c, wr_expiry = expires n (new_writer w k c), wr_phase = Checked acc\<rparr>, n)"
proof -
  have "quota_check n (new_writer w k c\<lparr>wr_expiry := x, wr_phase := ph\<rparr>) acc = Inr u" for x ph
    using assms(2) by (simp add: quota_check_def)
  then show ?thesis using assms(1)
    by (simp add: write_alone_def steps_numeral write_step_def new_writer_def)
qed

subsection \<open>Pending writes\<close>

lemma orderly_nth:
  assumes "orderly ws" and "i < length ws" and "j < length ws" and "i \<noteq> j"
  shows "\<not> (logged (ws ! i) \<and> logged (ws ! j) \<and> wr_key (ws ! i) = wr_key (ws ! j))"
    and "wr_phase (ws ! i) = Flushed \<Longrightarrow> idle (ws ! j)"
  using assms by (auto simp: orderly_def list_all_iff)

lemma pending_logged:
  assumes "orderly ws" and "i < length ws" and "logged (ws ! i)"
  shows "pending ws m (wr_key (ws ! i)) = wr_entry (ws ! i)"
proof (cases "find (\<lambda>wr. logged wr \<and> wr_key wr = wr_key (ws ! i)) ws")
  case None
  then show ?thesis using assms(2,3) by (auto simp: find_None_iff)
next
  case (Some wr)
  then obtain j where j: "j < length ws" "wr = ws ! j" "logged wr" "wr_key wr = wr_key (ws ! i)"
    by (auto simp: find_Some_iff)
  then have "j = i" using orderly_nth(1) [OF assms(1) j(1) assms(2)] assms(3) by auto
  with Some j show ?thesis by (simp add: pending_def)
qed

lemma pending_other: "(\<And>i. i < length ws \<Longrightarrow> logged (ws ! i) \<Longrightarrow> wr_key (ws ! i) \<noteq> k) \<Longrightarrow> pending ws m k = m k"
  by (auto simp: pending_def find_Some_iff split: option.split)

lemma pending_idle: "(\<And>i. i < length ws \<Longrightarrow> \<not> logged (ws ! i)) \<Longrightarrow> pending ws m = m"
  by (rule ext, rule pending_other) blast

text \<open>How a step of one write changes the pending ones.\<close>

lemma pending_update:
  assumes "orderly ws" and "orderly (ws[i := wr'])" and "i < length ws" and "wr_key wr' = wr_key (ws ! i)"
  shows "k \<noteq> wr_key (ws ! i) \<Longrightarrow> m' k = m k \<Longrightarrow> pending (ws[i := wr']) m' k = pending ws m k"
    and "logged wr' \<Longrightarrow> pending (ws[i := wr']) m' (wr_key (ws ! i)) = wr_entry wr'"
    and "\<not> logged wr' \<Longrightarrow> logged (ws ! i) \<Longrightarrow> pending (ws[i := wr']) m' (wr_key (ws ! i)) = m' (wr_key (ws ! i))"
    and "\<not> logged wr' \<Longrightarrow> \<not> logged (ws ! i) \<Longrightarrow> pending (ws[i := wr']) m = pending ws m"
proof -
  have other: "pending (ws[i := wr']) m' k = pending ws m k"
    if "k \<noteq> wr_key (ws ! i) \<or> \<not> logged wr' \<and> \<not> logged (ws ! i)" and "m' k = m k" for m' m k
  proof (cases "\<exists>j<length ws. logged (ws ! j) \<and> wr_key (ws ! j) = k")
    case True
    then obtain j where j: "j < length ws" "logged (ws ! j)" "wr_key (ws ! j) = k" by blast
    then have "j \<noteq> i" using that(1) by auto
    then show ?thesis
      using j pending_logged [OF assms(1) j(1,2)] pending_logged [OF assms(2), of j] by simp
  next
    case False
    then have "pending ws m k = m k" by (intro pending_other) blast
    moreover have "pending (ws[i := wr']) m' k = m' k"
      using False that(1) assms(3,4) by (intro pending_other) (auto simp: nth_list_update split: if_splits)
    ultimately show ?thesis using that(2) by simp
  qed
  then show "k \<noteq> wr_key (ws ! i) \<Longrightarrow> m' k = m k \<Longrightarrow> pending (ws[i := wr']) m' k = pending ws m k" by blast
  show "logged wr' \<Longrightarrow> pending (ws[i := wr']) m' (wr_key (ws ! i)) = wr_entry wr'"
    using pending_logged [OF assms(2), of i] assms(3,4) by simp
  show "pending (ws[i := wr']) m' (wr_key (ws ! i)) = m' (wr_key (ws ! i))" if l: "\<not> logged wr'" "logged (ws ! i)"
  proof (rule pending_other)
    fix j assume j: "j < length (ws[i := wr'])" "logged (ws[i := wr'] ! j)"
    then have "j \<noteq> i" using l(1) assms(3) by auto
    then show "wr_key (ws[i := wr'] ! j) \<noteq> wr_key (ws ! i)"
      using orderly_nth(1) [OF assms(1,3), of j] j l(2) by auto
  qed
  show "\<not> logged wr' \<Longrightarrow> \<not> logged (ws ! i) \<Longrightarrow> pending (ws[i := wr']) m = pending ws m"
    using other by (intro ext) blast
qed

subsection \<open>The steps keep the invariant\<close>

lemma replay_map_written: "k \<in> rkey ` set rs \<Longrightarrow> replay_map rs m k = replay_map rs m' k"
proof (induction rs rule: rev_induct)
  case (snoc r rs)
  then show ?case
    by (cases "k = rkey r") (auto simp: apply_record_other, simp add: apply_record.simps split: wal_op.split)
qed simp

text \<open>A write to storage of a key that is in the log.\<close>

lemma recoverable_stored:
  assumes "recoverable fd ft s rs m" and "key \<in> rkey ` set rs"
    and "\<And>m'. crash_map fd ft s' m' \<Longrightarrow> \<exists>m''. crash_map fd ft s m'' \<and> (\<forall>k'. k' \<noteq> key \<longrightarrow> m'' k' = m' k')"
  shows "recoverable fd ft s' rs m"
  unfolding recoverable_def same_data_def
proof (intro allI impI)
  fix m' k assume c: "crash_map fd ft s' m'" and k: "\<not> bookkeeping k"
  obtain m'' where m'': "crash_map fd ft s m''" "\<forall>k'. k' \<noteq> key \<longrightarrow> m'' k' = m' k'" using assms(3) [OF c] by blast
  then have "replay_map rs m'' k = m k" using assms(1) k by (simp add: recoverable_def same_data_def)
  moreover have "replay_map rs m' k = replay_map rs m'' k"
  proof (cases "k = key")
    case True
    then show ?thesis using replay_map_written [OF assms(2)] by simp
  next
    case False
    with m''(2) show ?thesis by (intro replay_map_local) simp
  qed
  ultimately show "replay_map rs m' k = m k" by simp
qed

lemma conc_inv_writer:
  assumes "conc_inv E fv fi fd ft ws n l" and "i < length ws"
  shows "writer_ok (ws ! i)" and "acc_ok (wr_phase (ws ! i))" and "logged (ws ! i) \<Longrightarrow> wr_key (ws ! i) \<in> rkey ` set (entries l)"
    and "wr_phase (ws ! i) = Full \<Longrightarrow> is_durable (store n)"
    and "wr_phase (ws ! i) = Flushed \<Longrightarrow> recoverable fd ft (store n) [] (contents fv n)"
  using assms by (auto simp: conc_inv_def)

text \<open>
  The frame of a step by one write: the invariant follows from what it says of the node and of that
  write when no other write is at the end of a rotation, or storage did not change.
\<close>

lemma conc_inv_frame:
  assumes inv: "conc_inv E fv fi fd ft ws n l" and o: "orderly ws" "orderly (ws[i := wr'])" and i: "i < length ws"
    and wr': "writer_ok wr'" "acc_ok (wr_phase wr')" "logged wr' \<Longrightarrow> wr_key wr' \<in> rkey ` set (entries l')"
      "wr_phase wr' = Full \<Longrightarrow> is_durable (store n')" "wr_phase wr' = Flushed \<Longrightarrow> recoverable fd ft (store n') [] (contents fv n')"
    and n': "backend_wf fi (store n')" "wal_holds (crc32 E) (nwal n') l'"
      "recoverable fd ft (store n') (entries l') (pending (ws[i := wr']) (contents fv n'))" "values_ok (contents fv n')"
    and l': "\<And>j. j < length ws \<Longrightarrow> j \<noteq> i \<Longrightarrow> logged (ws ! j) \<Longrightarrow> wr_key (ws ! j) \<in> rkey ` set (entries l')"
    and d: "is_durable (store n') = is_durable (store n)"
    and st: "store n' = store n \<or> \<not> idle (ws ! i)"
  shows "conc_inv E fv fi fd ft (ws[i := wr']) n' l'"
proof -
  have "writer_ok wr \<and> acc_ok (wr_phase wr) \<and> (logged wr \<longrightarrow> wr_key wr \<in> rkey ` set (entries l'))
      \<and> (wr_phase wr = Full \<longrightarrow> is_durable (store n')) \<and> (wr_phase wr = Flushed \<longrightarrow> recoverable fd ft (store n') [] (contents fv n'))"
    if wr: "wr \<in> set (ws[i := wr'])" for wr
  proof -
    obtain j where j: "j < length ws" "wr = ws[i := wr'] ! j" using wr by (auto simp: in_set_conv_nth)
    show ?thesis
    proof (cases "j = i")
      case True
      with j i wr' show ?thesis by simp
    next
      case False
      then have w: "wr = ws ! j" using j by simp
      have "idle (ws ! i)" if "wr_phase wr = Flushed" using orderly_nth(2) [OF o(1) j(1) i False] that w by simp
      with st have "wr_phase wr = Flushed \<Longrightarrow> store n' = store n" by blast
      with conc_inv_writer [OF inv j(1)] l' [OF j(1) False] d show ?thesis by (auto simp: w contents_def)
    qed
  qed
  with n' show ?thesis by (simp add: conc_inv_def)
qed

lemma writer_ok_update [simp]:
  "writer_ok (wr\<lparr>wr_phase := ph\<rparr>) = writer_ok wr" "writer_ok (wr\<lparr>wr_expiry := e\<rparr>) = writer_ok wr"
  by (simp_all add: writer_ok_def)

lemma proceed_frame [simp]:
  "wr_key (proceed wr r ph) = wr_key wr" "writer_ok (proceed wr r ph) = writer_ok wr" "wr_entry (proceed wr r ph) = wr_entry wr"
  by (simp_all add: proceed_def)

lemma plan_of_utf8: "plan_of E n wr = Inr (Some p) \<Longrightarrow> utf8_valid (acc_tenant p)"
  by (auto simp: plan_of_def plan_accounting_def plan_delete_accounting_def Let_def tenant_ok_def
      split: change.splits sum.splits prod.splits if_splits option.splits dest!: key_decode_Inr_iff [THEN iffD1])

text \<open>Steps that touch neither storage nor log.\<close>

lemma conc_quiet:
  assumes "conc_inv E fv fi fd ft ws n l" and "orderly ws" and "orderly (ws[i := wr'])" and "i < length ws"
    and "\<not> logged (ws ! i)" and "\<not> logged wr'" and "writer_ok wr'" and "acc_ok (wr_phase wr')" and "wr_key wr' = wr_key (ws ! i)"
    and "wr_phase wr' = Full \<Longrightarrow> is_durable (store n)" and "wr_phase wr' \<noteq> Flushed"
    and "store n' = store n" and "nwal n' = nwal n"
  shows "conc_inv E fv fi fd ft (ws[i := wr']) n' l"
proof (rule conc_inv_frame [OF assms(1-4,7,8)])
  have "pending (ws[i := wr']) (contents fv n') = pending ws (contents fv n)"
    using pending_update(4) [OF assms(2-4,9,6,5)] assms(12) by (simp add: contents_def)
  then show "recoverable fd ft (store n') (entries l) (pending (ws[i := wr']) (contents fv n'))"
    using assms(1,12) by (simp add: conc_inv_def)
qed (use assms in \<open>auto simp: conc_inv_def contents_def\<close>)

lemma conc_append:
  assumes inv: "conc_inv E fv fi fd ft ws n l" and o: "orderly ws" "orderly (ws[i := wr'])" and i: "i < length ws"
    and ph: "wr_phase (ws ! i) = Checked acc" and s: "write_step E (ws ! i) n = (wr', n')"
  shows "\<exists>l'. conc_inv E fv fi fd ft (ws[i := wr']) n' l'"
proof -
  let ?wr = "ws ! i"
  let ?l = "log_append (wr_op ?wr) (wr_key ?wr) (wr_raw ?wr) l"
  note w = conc_inv_writer [OF inv i]
  have wal: "wal_holds (crc32 E) (nwal n) l" using inv by (simp add: conc_inv_def)
  have len: "length (wr_key ?wr) < 2 ^ 32" "length (wr_raw ?wr) < 2 ^ 32"
    using w(1) by (auto simp: writer_ok_def wr_raw_def length_value_encode split: change.splits option.split)
  have io: "w_append (wr_world ?wr) = io_ok" using w(1) by (simp add: writer_ok_def)
  obtain wl where a: "append (crc32 E) io_ok (nwal n) (wr_op ?wr) (wr_key ?wr) (wr_raw ?wr) = (Inr (log_next l), wl)"
    using append_io_ok [OF wal] by blast
  have wal': "wal_holds (crc32 E) wl ?l" using append_ok [OF wal len a] by simp
  have st: "wr' = ?wr\<lparr>wr_phase := Logged acc\<rparr>" "n' = n\<lparr>nwal := wl\<rparr>"
    using s ph a io by (auto simp: write_step_def)
  have lg: "logged wr'" "\<not> logged ?wr" and key: "wr_key wr' = wr_key ?wr" by (simp_all add: st logged_def ph)
  let ?r = "\<lparr>seq = log_next l, op = wr_op ?wr, rkey = wr_key ?wr, rvalue = wr_raw ?wr\<rparr>"
  have "pending (ws[i := wr']) (contents fv n) = apply_record ?r (pending ws (contents fv n))"
  proof
    fix k
    show "pending (ws[i := wr']) (contents fv n) k = apply_record ?r (pending ws (contents fv n)) k"
      using pending_update(1,2) [OF o i key] lg(1)
      by (cases "k = wr_key ?wr") (auto simp: apply_record_other st(1), simp add: apply_record.simps wr_op_def wr_entry_def split: change.split)
  qed
  moreover have "recoverable fd ft (store n) (entries l @ [?r]) (apply_record ?r (pending ws (contents fv n)))"
    using inv by (intro recoverable_logged [of fd ft "store n"]) (auto simp: conc_inv_def)
  ultimately have "recoverable fd ft (store n) (entries ?l) (pending (ws[i := wr']) (contents fv n))" by simp
  then have "conc_inv E fv fi fd ft (ws[i := wr']) n' ?l"
    using inv wal' w conc_inv_writer(3) [OF inv]
    by (intro conc_inv_frame [OF inv o i]) (auto simp: st conc_inv_def contents_def acc_ok_def ph)
  then show ?thesis by blast
qed

lemma backend_write_total:
  assumes "backend_total F fi" and "backend_wf fi s"
  shows "fst (backend_put F s k v) = Inr ()" and "fst (backend_delete F s k) = Inr ()"
proof -
  have f: "fst (fjall_put F f k v) = Inr () \<and> fst (fjall_delete F f k) = Inr ()" if "s = Fjall f" for f
  proof -
    have "fst (fj_insert F f k v) = Inr ()" "fst (fj_remove F f k) = Inr ()"
      using assms that by (simp_all add: backend_total_def)
    then show ?thesis by (cases "fj_insert F f k v"; cases "fj_remove F f k") (simp add: fjall_put_def fjall_delete_def)
  qed
  show "fst (backend_put F s k v) = Inr ()" "fst (backend_delete F s k) = Inr ()"
    using f by (cases s; simp add: mem_put_def mem_delete_def split: prod.split)+
qed

lemma apply_change_total:
  assumes "fjall_ok (fjall E) fv fi" and "fjall_durable (fjall E) fv fi fd ft" and "backend_total (fjall E) fi" and "backend_wf fi (store n)"
    and "apply_change E n wr = (r, s)"
  shows "r = Inr ()" and "backend_wf fi s" and "backend_view fv s = (contents fv n)(wr_key wr := wr_entry wr)"
    and "\<And>m. crash_map fd ft s m \<Longrightarrow> \<exists>m'. crash_map fd ft (store n) m' \<and> (\<forall>k'. k' \<noteq> wr_key wr \<longrightarrow> m' k' = m k')"
    and "is_durable s = is_durable (store n)"
proof -
  show r: "r = Inr ()"
    using assms(5) backend_write_total [OF assms(3,4)] by (cases "wr_change wr") (auto simp: apply_change_def prod_eq_iff)
  show "backend_wf fi s" "backend_view fv s = (contents fv n)(wr_key wr := wr_entry wr)"
    using assms(5) r storage.put_view [OF backend_storage [OF assms(1)] assms(4)] storage.delete_view [OF backend_storage [OF assms(1)] assms(4)]
    by (auto simp: apply_change_def wr_entry_def contents_def split: change.splits)
  show "\<exists>m'. crash_map fd ft (store n) m' \<and> (\<forall>k'. k' \<noteq> wr_key wr \<longrightarrow> m' k' = m k')" if "crash_map fd ft s m" for m
    using assms(5) that crash_map_put [OF assms(2,4)] crash_map_delete [OF assms(2,4)]
    by (auto simp: apply_change_def split: change.splits)
  show "is_durable s = is_durable (store n)" using assms(5) by (auto simp: apply_change_def split: change.splits)
qed

lemma conc_store:
  assumes ctx: "fjall_ok (fjall E) fv fi" "fjall_durable (fjall E) fv fi fd ft" "backend_total (fjall E) fi"
    and inv: "conc_inv E fv fi fd ft ws n l" and o: "orderly ws" "orderly (ws[i := wr'])" and i: "i < length ws"
    and ph: "wr_phase (ws ! i) = Logged acc" and s: "write_step E (ws ! i) n = (wr', n')"
  shows "conc_inv E fv fi fd ft (ws[i := wr']) n' l"
proof -
  let ?wr = "ws ! i"
  note w = conc_inv_writer [OF inv i]
  have wf: "backend_wf fi (store n)" and wal: "wal_holds (crc32 E) (nwal n) l" and val: "values_ok (contents fv n)"
    and rec: "recoverable fd ft (store n) (entries l) (pending ws (contents fv n))"
    using inv by (simp_all add: conc_inv_def)
  obtain r s' where a: "apply_change E n ?wr = (r, s')" by fastforce
  note t = apply_change_total [OF ctx wf a]
  have st: "wr' = ?wr\<lparr>wr_phase := Stored acc\<rparr>" "n' = n\<lparr>store := s'\<rparr>" using s ph a t(1) by (auto simp: write_step_def)
  have lg: "\<not> logged wr'" "logged ?wr" and key: "wr_key wr' = wr_key ?wr" by (simp_all add: st logged_def ph)
  have c: "contents fv n' = (contents fv n)(wr_key ?wr := wr_entry ?wr)" using t(3) by (simp add: contents_def st)
  have "pending (ws[i := wr']) (contents fv n') = pending ws (contents fv n)"
  proof
    fix k
    show "pending (ws[i := wr']) (contents fv n') k = pending ws (contents fv n) k"
    proof (cases "k = wr_key ?wr")
      case True
      then show ?thesis
        using pending_update(3) [OF o i key lg, of "contents fv n'"] pending_logged [OF o(1) i lg(2), of "contents fv n"] by (simp add: c)
    next
      case False
      then show ?thesis by (intro pending_update(1) [OF o i key]) (simp_all add: c)
    qed
  qed
  moreover have "recoverable fd ft s' (entries l) (pending ws (contents fv n))"
    using recoverable_stored [OF rec w(3) [OF lg(2)] t(4)] .
  moreover have "\<exists>v. value_decode raw = Inr v" if "wr_entry ?wr = Some raw" for raw
    using that by (auto simp: wr_entry_def wr_raw_def split: change.splits)
  then have "values_ok (contents fv n')" using val unfolding c values_ok_def by auto
  ultimately have "recoverable fd ft (store n') (entries l) (pending (ws[i := wr']) (contents fv n'))" "values_ok (contents fv n')"
    by (simp_all add: st)
  then show ?thesis
    using w(1,2) t(2,5) wal conc_inv_writer(3) [OF inv]
    by (intro conc_inv_frame [OF inv o i]) (simp_all add: st acc_ok_def ph logged_def idle_def)
qed

lemma conc_commit:
  assumes ctx: "fjall_ok (fjall E) fv fi" "fjall_durable (fjall E) fv fi fd ft"
    and inv: "conc_inv E fv fi fd ft ws n l" and o: "orderly ws" "orderly (ws[i := wr'])" and i: "i < length ws"
    and ph: "wr_phase (ws ! i) = Indexed acc" and s: "write_step E (ws ! i) n = (wr', n')"
  shows "conc_inv E fv fi fd ft (ws[i := wr']) n' l"
proof -
  let ?wr = "ws ! i"
  note w = conc_inv_writer [OF inv i]
  have wf: "backend_wf fi (store n)" and wal: "wal_holds (crc32 E) (nwal n) l" and val: "values_ok (contents fv n)"
    and rec: "recoverable fd ft (store n) (entries l) (pending ws (contents fv n))"
    using inv by (simp_all add: conc_inv_def)
  have st: "wr' = ?wr\<lparr>wr_phase := Accounted\<rparr>" "n' = commit_accounting E n acc" using s ph by (simp_all add: write_step_def)
  have plan: "utf8_valid (acc_tenant p)" if "acc = Some p" for p using w(2) ph that by (simp add: acc_ok_def)
  obtain bk b where bk: "bookkeeping bk" "backend_wf fi (store n')"
    "contents fv n' = contents fv n \<or> contents fv n' = (contents fv n)(bk \<mapsto> value_encode b None)"
    and cm: "\<And>m. crash_map fd ft (store n') m \<Longrightarrow> \<exists>m'. crash_map fd ft (store n) m' \<and> (\<forall>k'. k' \<noteq> bk \<longrightarrow> m' k' = m k')"
    using commit_accounting_contents [OF ctx wf plan] unfolding st by metis
  have lg: "\<not> logged wr'" "\<not> logged ?wr" and key: "wr_key wr' = wr_key ?wr" by (simp_all add: st logged_def ph)
  have "same_data (contents fv n) (contents fv n')" using bk(1,3) same_data_bookkeeping same_data_sym by fastforce
  then have "same_data (pending ws (contents fv n)) (pending (ws[i := wr']) (contents fv n'))"
    unfolding pending_update(4) [OF o i key lg] by (simp add: same_data_def pending_def split: option.split)
  then have "recoverable fd ft (store n') (entries l) (pending (ws[i := wr']) (contents fv n'))"
    using recoverable_same_data recoverable_bookkeeping [OF rec bk(1) cm] by blast
  moreover have "values_ok (contents fv n')" using val bk(1,3) by (auto simp: values_ok_def split: if_splits)
  ultimately show ?thesis
    using w(1) bk(2) wal conc_inv_writer(3) [OF inv]
    by (intro conc_inv_frame [OF inv o i]) (simp_all add: st acc_ok_def ph logged_def idle_def)
qed

text \<open>While a write rotates, no write is pending.\<close>

lemma flushed_quiet:
  assumes "orderly ws" and "i < length ws" and "wr_phase (ws ! i) = Flushed"
  shows "pending ws m = m"
proof (rule pending_idle)
  fix j assume "j < length ws"
  then show "\<not> logged (ws ! j)"
    using orderly_nth(2) [OF assms(1,2) _ _ assms(3), of j] assms(3)
    by (cases "j = i") (auto simp: idle_def logged_def split: phase.splits)
qed

lemma conc_flush:
  assumes ctx: "fjall_ok (fjall E) fv fi" "fjall_durable (fjall E) fv fi fd ft"
    and inv: "conc_inv E fv fi fd ft ws n l" and o: "orderly ws" "orderly (ws[i := wr'])" and i: "i < length ws"
    and ph: "wr_phase (ws ! i) = Full" and s: "write_step E (ws ! i) n = (wr', n')"
  shows "conc_inv E fv fi fd ft (ws[i := wr']) n' l"
proof -
  let ?wr = "ws ! i"
  note w = conc_inv_writer [OF inv i]
  have wf: "backend_wf fi (store n)" and wal: "wal_holds (crc32 E) (nwal n) l" and val: "values_ok (contents fv n)"
    and rec: "recoverable fd ft (store n) (entries l) (pending ws (contents fv n))"
    using inv by (simp_all add: conc_inv_def)
  obtain q s' where f: "backend_flush (fjall E) (store n) = (q, s')" by fastforce
  have v: "backend_wf fi s'" "backend_view fv s' = contents fv n"
    using storage.flush_view [OF backend_storage [OF ctx(1)] wf f] by (simp_all add: contents_def)
  have d: "is_durable s' = is_durable (store n)" using f by simp
  have n': "n' = n\<lparr>store := s'\<rparr>" using s ph f by (cases q) (simp_all add: write_step_def)
  have c: "contents fv n' = contents fv n" using v(2) by (simp add: n' contents_def)
  have lg: "\<not> logged wr'" "\<not> logged ?wr" and key: "wr_key wr' = wr_key ?wr" and ok: "writer_ok wr'" "acc_ok (wr_phase wr')" "wr_phase wr' \<noteq> Full"
    using s ph f w(1) by (cases q; auto simp: write_step_def logged_def acc_ok_def)+
  have p: "pending (ws[i := wr']) (contents fv n') = pending ws (contents fv n)"
    using pending_update(4) [OF o i key lg] by (simp add: c)
  have fl: "pending ws (contents fv n) = contents fv n" if "wr_phase wr' = Flushed"
    using flushed_quiet [OF o(2), of i] that i p c by simp
  have "recoverable fd ft s' (entries l) (pending ws (contents fv n)) \<and> (wr_phase wr' = Flushed \<longrightarrow> recoverable fd ft s' [] (contents fv n))"
  proof (cases q)
    case (Inl e)
    have "recoverable fd ft s' (entries l) (pending ws (contents fv n))"
      using rec crash_map_flush_failed [OF ctx(2) wf f [unfolded Inl]] by (simp add: recoverable_def)
    moreover have "wr_phase wr' \<noteq> Flushed" using s ph f Inl by (auto simp: write_step_def)
    ultimately show ?thesis by simp
  next
    case (Inr u)
    have "wr_phase wr' = Flushed" using s ph f Inr by (auto simp: write_step_def)
    then show ?thesis
      using recoverable_flushed [OF ctx(2) wf w(4) [OF ph] f [unfolded Inr] rec] fl by (simp add: contents_def)
  qed
  then show ?thesis
    using ok v wal val d c p conc_inv_writer(3) [OF inv] lg(1)
    by (intro conc_inv_frame [OF inv o i]) (simp_all add: n' ph idle_def contents_def)
qed

lemma conc_rotate:
  assumes inv: "conc_inv E fv fi fd ft ws n l" and o: "orderly ws" "orderly (ws[i := wr'])" and i: "i < length ws"
    and ph: "wr_phase (ws ! i) = Flushed" and s: "write_step E (ws ! i) n = (wr', n')"
  shows "\<exists>l'. conc_inv E fv fi fd ft (ws[i := wr']) n' l'"
proof -
  let ?wr = "ws ! i"
  note w = conc_inv_writer [OF inv i]
  have wal: "wal_holds (crc32 E) (nwal n) l" and rec: "recoverable fd ft (store n) (entries l) (pending ws (contents fv n))"
    using inv by (simp_all add: conc_inv_def)
  obtain r wl where r: "rotate (w_rotate (wr_world ?wr)) (nwal n) = (r, wl)" by fastforce
  have st: "wr' = ?wr\<lparr>wr_phase := Done (Inr ())\<rparr>" "n' = n\<lparr>nwal := wl\<rparr>" using s ph r by (simp_all add: write_step_def)
  have quiet: "pending ws (contents fv n) = contents fv n" using flushed_quiet [OF o(1) i ph] .
  have lg: "\<not> logged wr'" "\<not> logged ?wr" and key: "wr_key wr' = wr_key ?wr" by (simp_all add: st logged_def ph)
  have p: "pending (ws[i := wr']) (contents fv n') = contents fv n"
    using pending_update(4) [OF o i key lg] quiet by (simp add: st contents_def)
  obtain l' where l': "wal_holds (crc32 E) wl l'" "l' = l \<or> l' = log_rotate l"
    using rotate_any [OF wal _ r] w(1) by (auto simp: writer_ok_def)
  have "recoverable fd ft (store n) (entries l') (contents fv n)" using l'(2) rec quiet w(5) [OF ph] by auto
  moreover have "\<not> logged (ws ! j)" if "j < length ws" "j \<noteq> i" for j
    using orderly_nth(2) [OF o(1) i that(1) _ ph] that(2) by (auto simp: idle_def logged_def split: phase.splits)
  ultimately have "conc_inv E fv fi fd ft (ws[i := wr']) n' l'"
    using w(1) l'(1) p inv
    by (intro conc_inv_frame [OF inv o i]) (auto simp: st acc_ok_def logged_def conc_inv_def contents_def)
  then show ?thesis by blast
qed

lemma conc_step:
  assumes ctx: "fjall_ok (fjall E) fv fi" "fjall_durable (fjall E) fv fi fd ft" "backend_total (fjall E) fi"
    and inv: "conc_inv E fv fi fd ft ws n l" and o: "orderly ws" "orderly (ws[i := wr'])" and i: "i < length ws"
    and s: "write_step E (ws ! i) n = (wr', n')"
  shows "\<exists>l'. conc_inv E fv fi fd ft (ws[i := wr']) n' l'"
proof -
  note w = conc_inv_writer [OF inv i] and quiet = conc_quiet [OF inv o i]
  show ?thesis
  proof (cases "wr_phase (ws ! i)")
    case Start
    have "acc_ok (wr_phase wr')" "\<not> logged wr'" "wr_phase wr' \<notin> {Full, Flushed}"
      using s Start plan_of_utf8 [of E n "ws ! i"] by (cases "plan_of E n (ws ! i)"; auto simp: write_step_def acc_ok_def logged_def split: option.split)+
    then have "conc_inv E fv fi fd ft (ws[i := wr']) n' l"
      using s Start w(1) by (intro quiet) (auto simp: write_step_def logged_def)
    then show ?thesis by blast
  next
    case (Planned acc)
    have "acc_ok (wr_phase wr')" "\<not> logged wr'" "wr_phase wr' \<notin> {Full, Flushed}"
      using s Planned w(2) by (cases "quota_check n (ws ! i) acc"; auto simp: write_step_def acc_ok_def logged_def)+
    then have "conc_inv E fv fi fd ft (ws[i := wr']) n' l"
      using s Planned w(1) by (intro quiet) (auto simp: write_step_def logged_def)
    then show ?thesis by blast
  next
    case (Stored acc)
    have "conc_inv E fv fi fd ft (ws[i := wr']) n' l"
      using s Stored w(1,2) by (intro quiet) (auto simp: write_step_def logged_def acc_ok_def split: option.splits)
    then show ?thesis by blast
  next
    case Accounted
    have "conc_inv E fv fi fd ft (ws[i := wr']) n' l"
      using s Accounted w(1) by (intro quiet) (auto simp: write_step_def logged_def acc_ok_def announcement_def split: change.splits)
    then show ?thesis by blast
  next
    case Published
    have "conc_inv E fv fi fd ft (ws[i := wr']) n' l"
      using s Published w(1) by (intro quiet) (auto simp: write_step_def logged_def acc_ok_def split: if_splits)
    then show ?thesis by blast
  next
    case (Done r)
    then show ?thesis using s inv by auto
  qed (use conc_append [OF inv o i _ s] conc_store [OF ctx inv o i _ s] conc_commit [OF ctx(1,2) inv o i _ s]
      conc_flush [OF ctx(1,2) inv o i _ s] conc_rotate [OF inv o i _ s] in blast)+
qed

lemma conc_run_inv:
  assumes ctx: "fjall_ok (fjall E) fv fi" "fjall_durable (fjall E) fv fi fd ft" "backend_total (fjall E) fi"
    and "conc_inv E fv fi fd ft ws n l" and "orderly_run E js (ws, n)" and "conc_run E js (ws, n) = (ws', n')"
  shows "(\<exists>l'. conc_inv E fv fi fd ft ws' n' l') \<and> orderly ws'"
  using assms(4-)
proof (induction js arbitrary: ws n l)
  case (Cons i js)
  show ?case
  proof (cases "i < length ws")
    case True
    obtain wr1 n1 where s: "write_step E (ws ! i) n = (wr1, n1)" by fastforce
    have nx: "conc_next E i (ws, n) = (ws[i := wr1], n1)" using True s by (simp add: conc_next_def)
    have o: "orderly ws" "orderly_run E js (ws[i := wr1], n1)" using Cons.prems(2) nx by simp_all
    have "orderly (ws[i := wr1])" using o(2) by (cases js) simp_all
    then obtain l1 where "conc_inv E fv fi fd ft (ws[i := wr1]) n1 l1"
      using conc_step [OF ctx Cons.prems(1) o(1) _ True s] by blast
    then show ?thesis using Cons.IH o(2) Cons.prems(3) nx by simp
  next
    case False
    then show ?thesis using Cons by (simp add: conc_next_def)
  qed
qed auto

subsection \<open>Acknowledged writes\<close>

lemma write_step_frame:
  assumes "write_step E wr n = (wr', n')"
  shows "wr_key wr' = wr_key wr" and "wr_phase wr \<noteq> Start \<Longrightarrow> wr_entry wr' = wr_entry wr"
    and "stored wr' \<Longrightarrow> stored wr \<or> logged wr"
  using assms
  by (auto simp: write_step_def proceed_def stored_def logged_def split: phase.splits prod.splits if_splits sum.splits option.splits)

lemma step_contents:
  assumes ctx: "fjall_ok (fjall E) fv fi" "fjall_durable (fjall E) fv fi fd ft" "backend_total (fjall E) fi"
    and wf: "backend_wf fi (store n)" and "acc_ok (wr_phase wr)" and s: "write_step E wr n = (wr', n')"
  shows "same_data (contents fv n') (if logged wr then (contents fv n)(wr_key wr := wr_entry wr) else contents fv n)"
proof (cases "wr_phase wr")
  case (Logged acc)
  obtain r s' where a: "apply_change E n wr = (r, s')" by fastforce
  from apply_change_total(3) [OF ctx wf a] show ?thesis using s Logged a by (auto simp: write_step_def logged_def contents_def)
next
  case (Indexed acc)
  have "utf8_valid (acc_tenant p)" if "acc = Some p" for p using assms(5) Indexed that by (simp add: acc_ok_def)
  from commit_accounting_contents [OF ctx(1,2) wf this] obtain k b where "bookkeeping k"
    "contents fv (commit_accounting E n acc) = contents fv n \<or> contents fv (commit_accounting E n acc) = (contents fv n)(k \<mapsto> value_encode b None)"
    by metis
  then have "same_data (contents fv (commit_accounting E n acc)) (contents fv n)" using same_data_bookkeeping by auto
  then show ?thesis using s Indexed by (auto simp: write_step_def logged_def)
next
  case Full
  obtain q s' where f: "backend_flush (fjall E) (store n) = (q, s')" by fastforce
  from storage.flush_view [OF backend_storage [OF ctx(1)] wf f] s Full f show ?thesis
    by (cases q) (auto simp: write_step_def logged_def contents_def)
qed (use s in \<open>auto simp: write_step_def logged_def contents_def announcement_def split: prod.splits option.splits if_splits change.splits\<close>)

text \<open>While the keys are different, a step by one write leaves the entries of the others.\<close>

lemma kept_step:
  assumes ctx: "fjall_ok (fjall E) fv fi" "fjall_durable (fjall E) fv fi fd ft" "backend_total (fjall E) fi"
    and inv: "conc_inv E fv fi fd ft ws n l" and i: "i < length ws" and s: "write_step E (ws ! i) n = (wr1, n1)"
    and dist: "distinct (map wr_key ws)" and kept: "\<forall>wr\<in>set ws. stored wr \<longrightarrow> contents fv n (wr_key wr) = wr_entry wr"
    and wr: "wr \<in> set (ws[i := wr1])" "stored wr" "\<not> bookkeeping (wr_key wr)"
  shows "contents fv n1 (wr_key wr) = wr_entry wr"
proof -
  note f = write_step_frame [OF s]
  let ?m = "if logged (ws ! i) then (contents fv n)(wr_key (ws ! i) := wr_entry (ws ! i)) else contents fv n"
  have "same_data (contents fv n1) ?m"
    using step_contents [OF ctx _ conc_inv_writer(2) [OF inv i] s] inv by (simp add: conc_inv_def)
  then have sd: "contents fv n1 (wr_key wr) = ?m (wr_key wr)" using wr(3) by (simp add: same_data_def)
  obtain j where j: "j < length ws" "wr = ws[i := wr1] ! j" using wr(1) by (auto simp: in_set_conv_nth)
  show ?thesis
  proof (cases "j = i")
    case True
    then have wr1: "wr = wr1" using j i by simp
    have "wr_phase (ws ! i) \<noteq> Start" using f(3) wr(2) wr1 by (auto simp: stored_def logged_def)
    then have "wr_entry wr1 = wr_entry (ws ! i)" by (rule f(2))
    moreover have "?m (wr_key (ws ! i)) = wr_entry (ws ! i)" using kept i f(3) wr(2) wr1 by auto
    ultimately show ?thesis using sd wr1 f(1) by simp
  next
    case False
    then have wj: "wr = ws ! j" using j by simp
    have "wr_key (ws ! j) \<noteq> wr_key (ws ! i)" using dist False j(1) i by (simp add: distinct_conv_nth)
    moreover have "contents fv n (wr_key wr) = wr_entry wr" using kept j(1) wj wr(2) by simp
    ultimately show ?thesis using sd wj by simp
  qed
qed

lemma conc_run_kept:
  assumes ctx: "fjall_ok (fjall E) fv fi" "fjall_durable (fjall E) fv fi fd ft" "backend_total (fjall E) fi"
    and "conc_inv E fv fi fd ft ws n l" and "orderly_run E js (ws, n)" and "conc_run E js (ws, n) = (ws', n')"
    and "distinct (map wr_key ws)" and "\<forall>wr\<in>set ws. stored wr \<longrightarrow> contents fv n (wr_key wr) = wr_entry wr"
  shows "map wr_key ws' = map wr_key ws \<and> (\<forall>wr\<in>set ws'. stored wr \<longrightarrow> contents fv n' (wr_key wr) = wr_entry wr)"
  using assms(4-)
proof (induction js arbitrary: ws n l)
  case (Cons i js)
  show ?case
  proof (cases "i < length ws")
    case True
    obtain wr1 n1 where s: "write_step E (ws ! i) n = (wr1, n1)" by fastforce
    have nx: "conc_next E i (ws, n) = (ws[i := wr1], n1)" using True s by (simp add: conc_next_def)
    have o: "orderly ws" "orderly_run E js (ws[i := wr1], n1)" using Cons.prems(2) nx by simp_all
    have "orderly (ws[i := wr1])" using o(2) by (cases js) simp_all
    then obtain l1 where inv1: "conc_inv E fv fi fd ft (ws[i := wr1]) n1 l1"
      using conc_step [OF ctx Cons.prems(1) o(1) _ True s] by blast
    have keys: "map wr_key (ws[i := wr1]) = map wr_key ws"
      using write_step_frame(1) [OF s] True by (metis list_update_id map_update nth_map)
    have "contents fv n1 (wr_key wr) = wr_entry wr" if "wr \<in> set (ws[i := wr1])" "stored wr" for wr
      using kept_step [OF ctx Cons.prems(1) True s Cons.prems(4,5) that] inv1 that(1) by (simp add: conc_inv_def writer_ok_def)
    then show ?thesis using Cons.IH [OF inv1 o(2)] Cons.prems(3,4) nx keys by simp
  next
    case False
    then show ?thesis using Cons by (simp add: conc_next_def)
  qed
qed auto

lemma conc_inv_start:
  assumes "node_ok E fv fi fd ft n l" and "list_all (\<lambda>wr. writer_ok wr \<and> wr_phase wr = Start) ws"
  shows "conc_inv E fv fi fd ft ws n l" and "orderly ws"
proof -
  have "pending ws m = m" for m using assms(2) by (intro pending_idle) (auto simp: list_all_length logged_def)
  then show "conc_inv E fv fi fd ft ws n l"
    using assms by (auto simp: conc_inv_def node_ok_def list_all_iff acc_ok_def logged_def)
  show "orderly ws" using assms(2) by (auto simp: orderly_def list_all_length logged_def)
qed

lemma distinct_mapD: "distinct (map f xs) \<Longrightarrow> x \<in> set xs \<Longrightarrow> y \<in> set xs \<Longrightarrow> f y = f x \<Longrightarrow> y = x"
  by (auto simp: distinct_map inj_on_def)

lemma conc_inv_disk:
  assumes inv: "conc_inv E fv fi fd ft ws n l" and "length (segment (nwal n)) < 2 ^ 64"
  shows "disk_holds E fi fd ft (backend_of n) (node_disk d n) (pending ws (contents fv n))"
    and "values_ok (pending ws (contents fv n))"
proof -
  show "disk_holds E fi fd ft (backend_of n) (node_disk d n) (pending ws (contents fv n))"
    using disk_holdsI [of fi "store n" fd ft l "pending ws (contents fv n)" E "segment (nwal n)" "[]" d] assms
    by (simp add: conc_inv_def wal_holds_def backend_of_def node_disk_def)
  have "\<exists>v. value_decode raw = Inr v" if "wr_entry wr = Some raw" for raw wr
    using that by (auto simp: wr_entry_def wr_raw_def split: change.splits)
  then show "values_ok (pending ws (contents fv n))"
    using inv by (auto simp: conc_inv_def values_ok_def pending_def split: option.splits)
qed

section \<open>Properties\<close>





text \<open>
  C10: two writes of one key can leave a node and its log at odds. They are logged in one order and
  stored in the other: the node reads the value of the first, and the log, which is what a restart
  applies, ends with that of the second.
\<close>

theorem same_key_race_diverges:
  "let k = raw_key [0x61] Data [1];
       ws = [new_writer world_example k (Put_value [5] 0), new_writer world_example k (Put_value [6] 0)];
       st = conc_run env_example [0, 0, 0, 1, 1, 1, 1, 0, 1, 1, 1, 1, 0, 0, 0, 0] (ws, node_example);
       rs = [\<lparr>seq = 3, op = wal_op.Put, rkey = k, rvalue = value_encode [5] None\<rparr>,
             \<lparr>seq = 4, op = wal_op.Put, rkey = k, rvalue = value_encode [6] None\<rparr>]
   in map wr_phase (fst st) = [Done (Inr ()), Done (Inr ())]
      \<and> node_get env_example world_example (snd st) k = Inr (Some [5])
      \<and> wal_holds (crc32 env_example) (nwal (snd st)) \<lparr>base = 3, entries = rs\<rparr>
      \<and> replay_map rs m k = Some (value_encode [6] None)"
proof -
  let ?k = "raw_key [0x61] Data [1]"
  let ?ws = "[new_writer world_example ?k (Put_value [5] 0), new_writer world_example ?k (Put_value [6] 0)]"
  let ?st = "conc_run env_example [0, 0, 0, 1, 1, 1, 1, 0, 1, 1, 1, 1, 0, 0, 0, 0] (?ws, node_example)"
  let ?rs = "[\<lparr>seq = 3, op = wal_op.Put, rkey = ?k, rvalue = value_encode [5] None\<rparr>,
      \<lparr>seq = 4, op = wal_op.Put, rkey = ?k, rvalue = value_encode [6] None\<rparr>]"
  have "map wr_phase (fst ?st) = [Done (Inr ()), Done (Inr ())]" by code_simp
  moreover have "node_get env_example world_example (snd ?st) ?k = Inr (Some [5])" by code_simp
  moreover have "segment (nwal (snd ?st)) = encode_header 3 @ frames_of (crc32 env_example) ?rs
      \<and> bw_buf (writer (winner (nwal (snd ?st)))) = [] \<and> next_seq (winner (nwal (snd ?st))) = log_next \<lparr>base = 3, entries = ?rs\<rparr>"
    by code_simp
  moreover have "list_all record_ok ?rs" by (simp add: record_ok_def raw_key_def length_value_encode)
  moreover have "replay_map ?rs m ?k = Some (value_encode [6] None)" by (simp add: replay_map_def apply_record.simps)
  ultimately show ?thesis by (simp add: Let_def wal_holds_def holds_def)
qed

text \<open>
  Two writes that the quota allows one by one can pass the check together and leave the tenant over
  its limit.
\<close>

lemma quota_race_exceeds:
  "let n = node_example\<lparr>nquotas := quota_store_new \<lparr>max_bytes = 3, max_ops_per_sec = 0\<rparr>\<rparr>;
       st = conc_run env_example [0, 1, 0, 1, 0, 0, 0, 0, 0, 0, 1, 1, 1, 1, 1, 1] (two_writers, n)
   in map wr_phase (fst st) = [Done (Inr ()), Done (Inr ())] \<and> used_bytes (nquotas (snd st)) [0x61] = 4"
  by code_simp

end
