(* ===== verification/Quota_Concurrent.thy ===== *)
theory Quota_Concurrent
  imports Quota
begin

text \<open>
  The usage counter of a tenant under concurrent writes: \<open>apply_delta\<close> of \<open>ferriskv-node/src/quota.rs\<close>
  run by several threads on one \<open>AtomicU64\<close>, one atomic operation per step, in any interleaving.
  \<open>compare_exchange_weak\<close> may fail for no reason; \<open>counter_step True\<close> allows this, \<open>counter_step False\<close>
  lets it fail only when another thread has moved the counter. Shown here: the updates are
  linearizable and none is lost, and without spurious failures every update ends, after a number of
  steps bounded by the number of threads alone.
\<close>

section \<open>Definitions\<close>

text \<open>A thread in \<open>apply_delta\<close>: about to start, in the loop with what it last saw, or returned.\<close>

datatype updater = Begin i64 | Looping i64 u64 | Returned i64 u64

inductive counter_step :: "bool \<Rightarrow> u64 \<times> updater list \<Rightarrow> u64 \<times> updater list \<Rightarrow> bool" for spurious where
  fetch_add: "i < length ts \<Longrightarrow> ts ! i = Begin d \<Longrightarrow> sint d \<ge> 0 \<Longrightarrow>
    counter_step spurious (c, ts) (c + d, ts[i := Returned d (c + d)])"
| load: "i < length ts \<Longrightarrow> ts ! i = Begin d \<Longrightarrow> sint d < 0 \<Longrightarrow>
    counter_step spurious (c, ts) (c, ts[i := Looping d c])"
| exchanged: "i < length ts \<Longrightarrow> ts ! i = Looping d c \<Longrightarrow> nxt = saturating_sub c (unsigned_abs d) \<Longrightarrow>
    counter_step spurious (c, ts) (nxt, ts[i := Returned d nxt])"
| lost: "i < length ts \<Longrightarrow> ts ! i = Looping d current \<Longrightarrow> current \<noteq> c \<or> spurious \<Longrightarrow>
    counter_step spurious (c, ts) (c, ts[i := Looping d c])"

subsection \<open>What the threads should do\<close>

fun delta_of :: "updater \<Rightarrow> i64" where
  "delta_of (Begin d) = d"
| "delta_of (Looping d _) = d"
| "delta_of (Returned d _) = d"

fun returned :: "updater \<Rightarrow> bool" where
  "returned (Returned _ _) = True"
| "returned _ = False"

fun begun :: "updater \<Rightarrow> bool" where
  "begun (Begin _) = False"
| "begun _ = True"

text \<open>A thread in the loop whose view of the counter is out of date.\<close>

fun stale :: "u64 \<Rightarrow> updater \<Rightarrow> bool" where
  "stale c (Looping _ current) = (current \<noteq> c)"
| "stale c _ = False"

text \<open>Only negative deltas loop.\<close>

fun updater_wf :: "updater \<Rightarrow> bool" where
  "updater_wf (Looping d _) = (sint d < 0)"
| "updater_wf _ = True"

text \<open>The counter is what the updates that returned give, one after the other in some order.\<close>

definition linearized :: "u64 \<Rightarrow> u64 \<times> updater list \<Rightarrow> bool" where
  "linearized c0 s \<longleftrightarrow>
     (\<exists>order. mset order = mset (map delta_of (filter returned (snd s)))
        \<and> fst s = foldl (apply_delta []) c0 order)"

definition potential :: "u64 \<times> updater list \<Rightarrow> nat" where
  "potential s = (case s of (c, ts) \<Rightarrow>
     Suc (length ts) * length (filter (Not \<circ> returned) ts) + length (filter (Not \<circ> begun) ts)
     + length (filter (stale c) ts))"

text \<open>The sums of the growth and of the shrinking among deltas.\<close>

definition growth :: "i64 list \<Rightarrow> nat" where
  "growth ds = (\<Sum>d\<leftarrow>ds. nat (sint d))"

definition shrink :: "i64 list \<Rightarrow> nat" where
  "shrink ds = (\<Sum>d\<leftarrow>ds. nat (- sint d))"

section \<open>Lemmas\<close>

lemma length_filter_update:
  assumes "i < length xs"
  shows "length (filter P (xs[i := x])) + of_bool (P (xs ! i)) = length (filter P xs) + of_bool (P x)"
  using assms
proof (induction xs arbitrary: i)
  case (Cons y ys)
  then show ?case by (cases i) auto
qed simp

lemma mset_filter_map_update:
  assumes "i < length xs" and "f x = f (xs ! i)" and "P x" and "\<not> P (xs ! i)"
  shows "mset (map f (filter P (xs[i := x]))) = add_mset (f (xs ! i)) (mset (map f (filter P xs)))"
  using assms
proof (induction xs arbitrary: i)
  case (Cons y ys)
  then show ?case by (cases i) auto
qed simp

lemma filter_map_update_same:
  assumes "i < length xs" and "\<not> P x" and "\<not> P (xs ! i)"
  shows "filter P (xs[i := x]) = filter P xs"
  using assms
proof (induction xs arbitrary: i)
  case (Cons y ys)
  then show ?case by (cases i) auto
qed simp

subsection \<open>Linearizability\<close>

lemma linearized_return:
  assumes "linearized c0 (c, ts)" and "i < length ts" and "\<not> returned (ts ! i)" and "delta_of (ts ! i) = d"
  shows "linearized c0 (apply_delta [] c d, ts[i := Returned d x])"
proof -
  obtain order where o: "mset order = mset (map delta_of (filter returned ts))" "c = foldl (apply_delta []) c0 order"
    using assms(1) by (auto simp: linearized_def)
  have "mset (order @ [d]) = mset (map delta_of (filter returned (ts[i := Returned d x])))"
    using mset_filter_map_update [of i ts delta_of "Returned d x" returned] assms(2-4) o(1) by simp
  moreover have "apply_delta [] c d = foldl (apply_delta []) c0 (order @ [d])" using o(2) by simp
  ultimately show ?thesis unfolding linearized_def fst_conv snd_conv by blast
qed

lemma counter_step_linearized:
  assumes "counter_step b s s'" and "linearized c0 s" and "list_all updater_wf (snd s)"
  shows "linearized c0 s' \<and> list_all updater_wf (snd s') \<and> map delta_of (snd s') = map delta_of (snd s)"
  using assms(1)
proof (cases rule: counter_step.cases)
  case (fetch_add i ts d c)
  with assms(2,3) linearized_return [of c0 c ts i d "c + d"] show ?thesis
    by (auto simp: apply_delta_def map_update list_all_length nth_list_update list_update_same_conv)
next
  case (exchanged i ts d c nxt)
  then have "sint d < 0" using assms(3) by (auto simp: list_all_length)
  with exchanged assms(2,3) linearized_return [of c0 c ts i d nxt] show ?thesis
    by (auto simp: apply_delta_def map_update list_all_length nth_list_update list_update_same_conv)
qed (use assms(2,3) in \<open>auto simp: linearized_def filter_map_update_same map_update list_all_length
    nth_list_update list_update_same_conv\<close>)

lemma counter_run_linearized:
  assumes "(counter_step b)\<^sup>*\<^sup>* (c0, map Begin ds) s"
  shows "linearized c0 s \<and> list_all updater_wf (snd s) \<and> map delta_of (snd s) = ds"
  using assms
proof (induction rule: rtranclp_induct)
  case base
  then show ?case by (auto simp: linearized_def list_all_iff comp_def)
next
  case (step s s')
  then show ?case using counter_step_linearized [of b s s' c0] by auto
qed

subsection \<open>Exactness\<close>

lemma growth_shrink_simps [simp]:
  "growth [] = 0" "growth (d # ds) = nat (sint d) + growth ds"
  "shrink [] = 0" "shrink (d # ds) = nat (- sint d) + shrink ds"
  by (simp_all add: growth_def shrink_def)

lemma growth_shrink_mset: "mset xs = mset ys \<Longrightarrow> growth xs = growth ys \<and> shrink xs = shrink ys"
  by (simp add: growth_def shrink_def flip: sum_mset_sum_list)

lemma foldl_apply_delta:
  assumes "shrink ds \<le> unat c" and "unat c + growth ds < 2 ^ 63"
  shows "int (unat (foldl (apply_delta []) c ds)) = int (unat c) + int (growth ds) - int (shrink ds)"
  using assms
proof (induction ds arbitrary: c)
  case (Cons d ds)
  have le: "nat (- sint d) + shrink ds \<le> unat c" "unat c + (nat (sint d) + growth ds) < 2 ^ 63"
    using Cons.prems by simp_all
  then have u: "unat c < 2 ^ 63" and nn: "0 \<le> int (unat c) + sint d" by linarith+
  let ?c = "apply_delta [] c d"
  have "?c = word_of_nat (nat (int (unat c) + sint d))" using apply_delta_exact [OF u nn] by simp
  moreover have "nat (int (unat c) + sint d) < 2 ^ 63" using le nn by linarith
  then have "nat (int (unat c) + sint d) < 2 ^ 64" by (rule less_trans) simp
  ultimately have "unat ?c = nat (int (unat c) + sint d)" by (simp only: unat_u64_of_nat)
  then have c: "int (unat ?c) = int (unat c) + sint d" using nn by linarith
  then have "shrink ds \<le> unat ?c" "unat ?c + growth ds < 2 ^ 63" using le by linarith+
  from Cons.IH [OF this] c show ?case by simp
qed simp

subsection \<open>Termination\<close>

lemma potential_step: "counter_step False s s' \<Longrightarrow> potential s' < potential s"
proof (induction rule: counter_step.induct)
  case (fetch_add i ts d c)
  note len = length_filter_update [OF fetch_add(1), of _ "Returned d (c + d)"]
  have "length (filter (stale (c + d)) (ts[i := Returned d (c + d)])) \<le> length ts"
    by (metis length_filter_le length_list_update)
  moreover have "length (filter (Not \<circ> returned) ts) = Suc (length (filter (Not \<circ> returned) (ts[i := Returned d (c + d)])))"
    "length (filter (Not \<circ> begun) ts) = Suc (length (filter (Not \<circ> begun) (ts[i := Returned d (c + d)])))"
    using len [of "Not \<circ> returned"] len [of "Not \<circ> begun"] fetch_add(2) by simp_all
  ultimately show ?case by (simp add: potential_def)
next
  case (load i ts d c)
  note len = length_filter_update [OF load(1), of _ "Looping d c"]
  have "length (filter (Not \<circ> returned) (ts[i := Looping d c])) = length (filter (Not \<circ> returned) ts)"
    "length (filter (Not \<circ> begun) ts) = Suc (length (filter (Not \<circ> begun) (ts[i := Looping d c])))"
    "length (filter (stale c) (ts[i := Looping d c])) = length (filter (stale c) ts)"
    using len [of "Not \<circ> returned"] len [of "Not \<circ> begun"] len [of "stale c"] load(2) by simp_all
  then show ?case by (simp add: potential_def)
next
  case (exchanged i ts d c nxt)
  note len = length_filter_update [OF exchanged(1), of _ "Returned d nxt"]
  have "length (filter (stale nxt) (ts[i := Returned d nxt])) \<le> length ts"
    by (metis length_filter_le length_list_update)
  moreover have "length (filter (Not \<circ> returned) ts) = Suc (length (filter (Not \<circ> returned) (ts[i := Returned d nxt])))"
    "length (filter (Not \<circ> begun) (ts[i := Returned d nxt])) = length (filter (Not \<circ> begun) ts)"
    using len [of "Not \<circ> returned"] len [of "Not \<circ> begun"] exchanged(2) by simp_all
  ultimately show ?case by (simp add: potential_def)
next
  case (lost i ts d current c)
  note len = length_filter_update [OF lost(1), of _ "Looping d c"]
  have "length (filter (Not \<circ> returned) (ts[i := Looping d c])) = length (filter (Not \<circ> returned) ts)"
    "length (filter (Not \<circ> begun) (ts[i := Looping d c])) = length (filter (Not \<circ> begun) ts)"
    "length (filter (stale c) ts) = Suc (length (filter (stale c) (ts[i := Looping d c])))"
    using len [of "Not \<circ> returned"] len [of "Not \<circ> begun"] len [of "stale c"] lost(2,3) by simp_all
  then show ?case by (simp add: potential_def)
qed

lemma potential_steps: "(counter_step False ^^ k) s s' \<Longrightarrow> k + potential s' \<le> potential s"
proof (induction k arbitrary: s')
  case (Suc k)
  then obtain t where "(counter_step False ^^ k) s t" "counter_step False t s'" by auto
  with Suc.IH [of t] potential_step [of t s'] show ?case by simp
qed simp

lemma potential_start: "potential (c, map Begin ds) = (length ds + 2) * length ds"
  by (simp add: potential_def comp_def)

text \<open>A thread that has not returned can take a step.\<close>

lemma counter_progress:
  assumes "\<nexists>s'. counter_step False (c, ts) s'" and "u \<in> set ts"
  shows "returned u"
proof -
  obtain i where i: "i < length ts" "ts ! i = u" using assms(2) by (auto simp: in_set_conv_nth)
  show ?thesis
  proof (cases u)
    case (Begin d)
    with assms(1) i counter_step.fetch_add [of i ts d False c] counter_step.load [of i ts d False c] show ?thesis
      by (cases "sint d < 0") (auto simp: not_less)
  next
    case (Looping d current)
    with assms(1) i counter_step.exchanged [of i ts d c _ False] counter_step.lost [of i ts d current c False] show ?thesis
      by (cases "current = c") auto
  qed simp
qed

section \<open>Properties\<close>



text \<open>
  C23: updates of a usage counter end. When the exchange fails only because the counter has moved,
  \<open>n\<close> concurrent updates take at most \<open>n (n + 2)\<close> steps in all, in every interleaving, and they can
  stop only when all of them have returned.
\<close>

theorem counter_updates_terminate:
  assumes "(counter_step False ^^ k) (c0, map Begin ds) s"
  shows "k \<le> length ds * (length ds + 2) \<and> ((\<nexists>s'. counter_step False s s') \<longrightarrow> list_all returned (snd s))"
  using potential_steps [OF assms] potential_start [of c0 ds] counter_progress [of "fst s" "snd s"]
  by (auto simp: list_all_iff mult.commute)

theorem counter_updates_terminate_witness:
  "\<exists>s. (counter_step False ^^ 1) (5, map Begin [7]) s \<and> list_all returned (snd s)"
proof -
  have s: "(counter_step False ^^ 1) (5, map Begin [7]) (12, [Returned 7 12])"
    using counter_step.fetch_add [of 0 "map Begin [7]" 7 False 5] by (simp add: relcompp_apply)
  have "\<nexists>s'. counter_step False (12, [Returned 7 12]) s'" by (auto elim: counter_step.cases)
  with counter_updates_terminate [OF s] have "list_all returned (snd (12 :: u64, [Returned 7 12]))" by simp
  with s show ?thesis by blast
qed

end
