(* ===== verification/Hashing.thy ===== *)
theory Hashing
  imports Core_Types
begin

text \<open>
  Rendezvous hashing, \<open>ferriskv-core/src/hashing.rs\<close>: which nodes hold a key. \<open>blake3\<close> is a
  parameter, the digest of a byte string. \<open>sort_unstable_by_key\<close> leaves the order of equal scores
  open; it is a parameter too, with what the standard library documents as \<open>sort_unstable_ok\<close>.
  Shown here: the nodes picked are the best scored, and taking away a node that was not picked
  moves no key.
\<close>

section \<open>Definitions\<close>

type_synonym node_id = str

definition blake3_hash :: "(bytes \<Rightarrow> bytes) \<Rightarrow> bytes \<Rightarrow> bytes" where
  "blake3_hash blake3 data = blake3 data"

definition hrw_score :: "(bytes \<Rightarrow> bytes) \<Rightarrow> bytes \<Rightarrow> str \<Rightarrow> u64" where
  "hrw_score blake3 key nd = from_le_bytes (take 8 (blake3 (key @ nd)))"

text \<open>\<open>srt\<close> is the unstable sort by decreasing score.\<close>

definition hrw_select ::
    "(bytes \<Rightarrow> bytes) \<Rightarrow> ((u64 \<times> node_id) list \<Rightarrow> (u64 \<times> node_id) list) \<Rightarrow> bytes \<Rightarrow> node_id list \<Rightarrow> usize \<Rightarrow>
     node_id list" where
  "hrw_select blake3 srt key nodes n =
     (if nodes = [] \<or> n = 0 then []
      else
        (let scored = srt (map (\<lambda>nd. (hrw_score blake3 key nd, nd)) nodes)
         in map snd (take n scored)))"

definition sort_unstable_ok :: "((u64 \<times> node_id) list \<Rightarrow> (u64 \<times> node_id) list) \<Rightarrow> bool" where
  "sort_unstable_ok srt \<longleftrightarrow>
     (\<forall>xs. mset (srt xs) = mset xs \<and> sorted_wrt (\<lambda>a b. fst b \<le> fst a) (srt xs))"

text \<open>A sort that keeps the documentation, and a digest that spreads three names.\<close>

definition sort_reference :: "(u64 \<times> node_id) list \<Rightarrow> (u64 \<times> node_id) list" where
  "sort_reference xs = rev (sort_key fst xs)"

definition digest_example :: "bytes \<Rightarrow> bytes" where
  "digest_example data = replicate 8 (last data * 7) @ replicate 24 0"

section \<open>Lemmas\<close>

lemma sort_unstable_ok_reference: "sort_unstable_ok sort_reference"
proof -
  have "sorted_wrt (\<lambda>a b. fst b \<le> fst a) (rev (sort_key fst xs))" for xs :: "(u64 \<times> node_id) list"
    using sorted_sort_key [of fst xs] by (simp add: sorted_wrt_rev sorted_map)
  then show ?thesis by (simp add: sort_unstable_ok_def sort_reference_def)
qed

text \<open>The selection as a prefix of a list of the nodes, by decreasing score.\<close>

lemma hrw_select_ranking:
  assumes "sort_unstable_ok srt"
  obtains ranking where "mset ranking = mset nodes"
    and "sorted_wrt (\<lambda>a b. hrw_score blake3 key b \<le> hrw_score blake3 key a) ranking"
    and "hrw_select blake3 srt key nodes n = take n ranking"
proof -
  let ?sc = "hrw_score blake3 key"
  let ?xs = "map (\<lambda>nd. (?sc nd, nd)) nodes"
  have m: "mset (srt ?xs) = mset ?xs" and s: "sorted_wrt (\<lambda>a b. fst b \<le> fst a) (srt ?xs)"
    using assms by (simp_all add: sort_unstable_ok_def)
  have "fst p = ?sc (snd p)" if "p \<in> set (srt ?xs)" for p
    using that mset_eq_setD [OF m] by auto
  then have r: "sorted_wrt (\<lambda>a b. ?sc b \<le> ?sc a) (map snd (srt ?xs))"
    using s by (auto simp: sorted_wrt_map intro: sorted_wrt_mono_rel [rotated])
  have "mset (map snd (srt ?xs)) = image_mset snd (mset ?xs)" by (simp only: mset_map m)
  also have "\<dots> = mset nodes" by (simp add: image_mset.compositionality comp_def)
  finally have mm: "mset (map snd (srt ?xs)) = mset nodes" .
  then have "hrw_select blake3 srt key nodes n = take n (map snd (srt ?xs))"
    by (cases "nodes = []") (auto simp: hrw_select_def take_map)
  with r mm that show thesis by blast
qed

lemma sorted_wrt_inj_unique:
  fixes f :: "'a \<Rightarrow> 'b::linorder"
  assumes "sorted_wrt (\<lambda>a b. f b \<le> f a) xs" and "sorted_wrt (\<lambda>a b. f b \<le> f a) ys"
    and "mset xs = mset ys" and "inj_on f (set xs)"
  shows "xs = ys"
  using assms
proof (induction xs arbitrary: ys)
  case (Cons x xs)
  then obtain y ys' where ys: "ys = y # ys'" by (cases ys) auto
  have s: "set (x # xs) = set ys" using Cons.prems(3) by (rule mset_eq_setD)
  have "f y \<le> f x" using s ys Cons.prems(1) by (metis list.set_intros(1) order_refl set_ConsD sorted_wrt.simps(2))
  moreover have "f x \<le> f y" using s ys Cons.prems(2) by (metis list.set_intros(1) order_refl set_ConsD sorted_wrt.simps(2))
  ultimately have "x = y" using Cons.prems(4) s ys by (metis inj_onD list.set_intros(1) antisym)
  with Cons ys show ?case by (auto simp: inj_on_def)
qed simp

section \<open>Properties\<close>

text \<open>
  C28: rendezvous hashing picks the best nodes and is stable. It returns \<open>n\<close> of the nodes, or all if
  there are fewer, each as often as it is listed at most, by decreasing score and such that no node
  left out beats one that was picked. Taking away nodes that were not picked leaves the
  selection as it was, when the scores of the nodes differ: only keys of a lost node move.
\<close>

theorem hrw_select_stable:
  fixes blake3 :: "bytes \<Rightarrow> bytes" and key :: bytes and n :: usize
  assumes "sort_unstable_ok srt"
  defines "pick \<equiv> \<lambda>nodes. hrw_select blake3 srt key nodes n"
  shows "length (pick nodes) = min n (length nodes) \<and> mset (pick nodes) \<subseteq># mset nodes
    \<and> (\<forall>a\<in>#mset nodes - mset (pick nodes). \<forall>b\<in>set (pick nodes). hrw_score blake3 key a \<le> hrw_score blake3 key b)
    \<and> (inj_on (hrw_score blake3 key) (set nodes) \<longrightarrow> distinct nodes \<longrightarrow> set (pick nodes) \<inter> gone = {} \<longrightarrow>
        pick (filter (\<lambda>nd. nd \<notin> gone) nodes) = pick nodes)"
proof -
  let ?sc = "hrw_score blake3 key"
  obtain rk where m: "mset rk = mset nodes" and s: "sorted_wrt (\<lambda>a b. ?sc b \<le> ?sc a) rk" and p: "pick nodes = take n rk"
    using hrw_select_ranking [OF assms(1)] unfolding pick_def by metis
  obtain rk' where m': "mset rk' = mset (filter (\<lambda>nd. nd \<notin> gone) nodes)"
    and s': "sorted_wrt (\<lambda>a b. ?sc b \<le> ?sc a) rk'" and p': "pick (filter (\<lambda>nd. nd \<notin> gone) nodes) = take n rk'"
    using hrw_select_ranking [OF assms(1)] unfolding pick_def by metis
  have split: "mset nodes = mset (take n rk) + mset (drop n rk)"
    using m by (metis append_take_drop_id mset_append)
  have "?sc a \<le> ?sc b" if "a \<in> set (drop n rk)" "b \<in> set (take n rk)" for a b
    using s that by (metis append_take_drop_id sorted_wrt_append)
  moreover have "take n rk' = take n rk"
    if inj: "inj_on ?sc (set nodes)" and gone: "set (take n rk) \<inter> gone = {}"
  proof -
    have "set rk' \<subseteq> set nodes" using mset_eq_setD [OF m'] by auto
    then have "inj_on ?sc (set rk')" by (rule inj_on_subset [OF inj])
    then have "rk' = filter (\<lambda>nd. nd \<notin> gone) rk"
      using s' sorted_wrt_filter [OF s] m m' by (intro sorted_wrt_inj_unique [where f = ?sc]) simp_all
    moreover have "filter (\<lambda>nd. nd \<notin> gone) (take n rk) = take n rk"
      using gone by (auto simp: filter_id_conv)
    ultimately have "rk' = take n rk @ filter (\<lambda>nd. nd \<notin> gone) (drop n rk)"
      by (metis append_take_drop_id filter_append)
    then show ?thesis by (cases "n \<le> length rk") (auto simp: not_le)
  qed
  moreover have "length rk = length nodes" using m by (metis size_mset)
  ultimately show ?thesis by (simp add: p p' split)
qed

theorem hrw_select_stable_witness:
  "hrw_select digest_example sort_reference [0x6B] [[0x61], [0x63]] 1
   = hrw_select digest_example sort_reference [0x6B] [[0x61], [0x62], [0x63]] 1"
proof -
  have "inj_on (hrw_score digest_example [0x6B]) {[0x61], [0x62], [0x63]}"
    unfolding inj_on_def by code_simp
  moreover have "hrw_select digest_example sort_reference [0x6B] [[0x61], [0x62], [0x63]] 1 = [[0x63]]"
    by code_simp
  ultimately show ?thesis
    using hrw_select_stable [OF sort_unstable_ok_reference, where ?blake3.0 = digest_example and key = "[0x6B]"
        and n = 1 and nodes = "[[0x61], [0x62], [0x63]]" and gone = "{[0x62]}"]
    by simp
qed

end
