(* ===== verification/Coord.thy ===== *)
theory Coord
  imports Hashing
begin

text \<open>
  The coordinator, crate \<open>ferriskv-coord\<close>: the map from key ranges to shards of \<open>placement.rs\<close>, the
  term and leader hint of \<open>state.rs\<close>, and the configuration of \<open>config.rs\<close> and \<open>main.rs\<close>. Locks are
  taken for one operation each, so a concurrent run is a sequence of operations. Shown here: the
  list of ranges stays sorted, whatever is inserted, so the binary search of \<open>lookup\<close> is exact; the
  term never goes back.
\<close>

section \<open>Definitions\<close>

subsection \<open>\<open>slice::partition_point\<close>\<close>

text \<open>The binary search of the standard library, over the part of the slice from \<open>b\<close> on, \<open>sz\<close> long.\<close>

function partition_search :: "('a \<Rightarrow> bool) \<Rightarrow> 'a list \<Rightarrow> usize \<Rightarrow> usize \<Rightarrow> usize" where
  "partition_search P xs b sz =
     (if sz \<le> 1 then (if P (xs ! b) then b + 1 else b)
      else
        (let half = sz div 2; mid = b + half
         in partition_search P xs (if P (xs ! mid) then mid else b) (sz - half)))"
  by pat_completeness auto
termination
  by (relation "measure (\<lambda>(_, _, _, sz). sz)") auto

declare partition_search.simps [simp del]

definition partition_point :: "('a \<Rightarrow> bool) \<Rightarrow> 'a list \<Rightarrow> usize" where
  "partition_point P xs = (if xs = [] then 0 else partition_search P xs 0 (length xs))"

subsection \<open>Ranges\<close>

type_synonym shard_id = u64

record range_entry =
  re_shard_id :: shard_id
  re_start :: bytes
  re_end :: "bytes option"
  re_primary :: node_id
  re_replicas :: "node_id list"

definition range_contains :: "range_entry \<Rightarrow> bytes \<Rightarrow> bool" where
  "range_contains e key =
     (if key < re_start e then False
      else
        (case re_end e of
           Some stop \<Rightarrow> key < stop
         | None \<Rightarrow> True))"

type_synonym range_map = "range_entry list"

definition range_map_new :: range_map where
  "range_map_new = []"

definition range_insert :: "range_map \<Rightarrow> range_entry \<Rightarrow> range_map" where
  "range_insert g entry =
     (let pos = partition_point (\<lambda>e. re_start e \<le> re_start entry) g
      in take pos g @ entry # drop pos g)"

definition range_lookup :: "range_map \<Rightarrow> bytes \<Rightarrow> range_entry option" where
  "range_lookup g key =
     (let idx = partition_point (\<lambda>e. re_start e \<le> key) g
      in if idx = 0 then None
         else
           (let candidate = g ! (idx - 1)
            in if range_contains candidate key then Some candidate else None))"

definition range_all :: "range_map \<Rightarrow> range_entry list" where
  "range_all g = g"

definition range_len :: "range_map \<Rightarrow> usize" where
  "range_len g = length g"

definition range_is_empty :: "range_map \<Rightarrow> bool" where
  "range_is_empty g \<longleftrightarrow> g = []"

subsection \<open>Configuration and state\<close>

record coord_config =
  cc_node_id :: str
  cc_listen :: string
  cc_peers :: "str list"
  cc_data_dir :: string
  cc_target_range_size_bytes :: u64
  cc_replication_factor :: u8

definition default_range_size :: u64 where
  "default_range_size = 128 * 1024 * 1024"

definition default_rf :: u8 where
  "default_rf = 3"

text \<open>What \<open>main\<close> runs with when there is no configuration file.\<close>

definition coord_main_config :: coord_config where
  "coord_main_config =
     \<lparr>cc_node_id = lit ''coord-0'', cc_listen = ''127.0.0.1:7000'', cc_peers = [],
      cc_data_dir = ''./data/coord'', cc_target_range_size_bytes = 128 * 1024 * 1024,
      cc_replication_factor = 3\<rparr>"

record coord_inner =
  ci_leader_hint :: "str option"
  ci_term :: u64

record coord_state =
  co_config :: coord_config
  co_ranges :: range_map
  co_inner :: coord_inner

definition coord_new :: "coord_config \<Rightarrow> coord_state" where
  "coord_new cfg =
     \<lparr>co_config = cfg, co_ranges = range_map_new, co_inner = \<lparr>ci_leader_hint = None, ci_term = 0\<rparr>\<rparr>"

definition coord_term :: "coord_state \<Rightarrow> u64" where
  "coord_term s = ci_term (co_inner s)"

definition bump_term :: "coord_state \<Rightarrow> u64 \<Rightarrow> coord_state" where
  "bump_term s t =
     (if t > ci_term (co_inner s) then s\<lparr>co_inner := (co_inner s)\<lparr>ci_term := t\<rparr>\<rparr> else s)"

definition coord_leader_hint :: "coord_state \<Rightarrow> str option" where
  "coord_leader_hint s = ci_leader_hint (co_inner s)"

definition set_leader_hint :: "coord_state \<Rightarrow> str \<Rightarrow> coord_state" where
  "set_leader_hint s leader = s\<lparr>co_inner := (co_inner s)\<lparr>ci_leader_hint := Some leader\<rparr>\<rparr>"

subsection \<open>Runs\<close>

text \<open>The operations that change the state; a step is one of them.\<close>

inductive coord_step :: "coord_state \<Rightarrow> coord_state \<Rightarrow> bool" where
  bump: "coord_step s (bump_term s t)"
| hint: "coord_step s (set_leader_hint s leader)"
| place: "coord_step s (s\<lparr>co_ranges := range_insert (co_ranges s) e\<rparr>)"

inductive_cases coord_stepE: "coord_step s s'"

text \<open>Ranges are kept by increasing start.\<close>

definition ranges_sorted :: "range_map \<Rightarrow> bool" where
  "ranges_sorted g \<longleftrightarrow> sorted_wrt (\<lambda>a b. re_start a \<le> re_start b) g"

text \<open>The ranges of a placement hold at least one key and do not overlap.\<close>

definition range_proper :: "range_entry \<Rightarrow> bool" where
  "range_proper e \<longleftrightarrow> (case re_end e of Some stop \<Rightarrow> re_start e < stop | None \<Rightarrow> True)"

definition ranges_disjoint :: "range_entry list \<Rightarrow> bool" where
  "ranges_disjoint es \<longleftrightarrow>
     list_all range_proper es \<and> sorted_wrt (\<lambda>a b. \<forall>key. \<not> (range_contains a key \<and> range_contains b key)) es"

text \<open>What no operation takes back.\<close>

definition coord_grows :: "coord_state \<Rightarrow> coord_state \<Rightarrow> bool" where
  "coord_grows s s' \<longleftrightarrow>
     coord_term s \<le> coord_term s' \<and> (coord_leader_hint s' = None \<longrightarrow> coord_leader_hint s = None)
     \<and> mset (range_all (co_ranges s)) \<subseteq># mset (range_all (co_ranges s'))"

definition range_example :: "shard_id \<Rightarrow> bytes \<Rightarrow> bytes option \<Rightarrow> range_entry" where
  "range_example i a b =
     \<lparr>re_shard_id = i, re_start = a, re_end = b, re_primary = [0x6E], re_replicas = [[0x6E]]\<rparr>"

section \<open>Lemmas\<close>

subsection \<open>Binary search\<close>

lemma partition_search_cut:
  assumes "\<And>i. i < length xs \<Longrightarrow> P (xs ! i) \<longleftrightarrow> i < mk"
    and "b \<le> mk" and "mk \<le> b + sz" and "b + sz \<le> length xs" and "0 < sz"
  shows "partition_search P xs b sz = mk"
  using assms(2-5)
proof (induction sz arbitrary: b rule: less_induct)
  case (less sz)
  show ?case
  proof (cases "sz \<le> 1")
    case True
    with less.prems assms(1) [of b] show ?thesis by (subst partition_search.simps) auto
  next
    case False
    let ?mid = "b + sz div 2"
    have "?mid < length xs" using False less.prems by linarith
    with assms(1) [of ?mid] less.IH [of "sz - sz div 2" "if P (xs ! ?mid) then ?mid else b"] less.prems False
    show ?thesis by (subst partition_search.simps) (auto simp: Let_def)
  qed
qed

text \<open>On a partitioned slice the search finds where the predicate stops to hold.\<close>

lemma partition_point_append:
  assumes "\<forall>x\<in>set ys. P x" and "\<forall>x\<in>set zs. \<not> P x"
  shows "partition_point P (ys @ zs) = length ys"
proof (cases "ys @ zs = []")
  case False
  have "P ((ys @ zs) ! i) \<longleftrightarrow> i < length ys" if "i < length (ys @ zs)" for i
    using assms that by (auto simp: nth_append)
  with False show ?thesis
    unfolding partition_point_def by (simp only: if_False) (rule partition_search_cut, auto)
qed (simp add: partition_point_def)

lemma ranges_sorted_split:
  assumes "ranges_sorted g"
  obtains ys zs where "g = ys @ zs" and "\<forall>e\<in>set ys. re_start e \<le> key" and "\<forall>e\<in>set zs. key < re_start e"
proof
  let ?P = "\<lambda>e. re_start e \<le> key"
  show "g = takeWhile ?P g @ dropWhile ?P g" by simp
  show "\<forall>e\<in>set (takeWhile ?P g). re_start e \<le> key" by (auto dest: set_takeWhileD)
  show "\<forall>e\<in>set (dropWhile ?P g). key < re_start e"
  proof (cases "dropWhile ?P g")
    case Nil
    show ?thesis unfolding Nil by simp
  next
    case (Cons z zs)
    then have "sorted_wrt (\<lambda>a b. re_start a \<le> re_start b) (z # zs)"
      using assms by (metis ranges_sorted_def sorted_wrt_append takeWhile_dropWhile_id)
    moreover have "key < re_start z" using Cons by (metis hd_dropWhile list.distinct(1) list.sel(1) not_le)
    ultimately show ?thesis using Cons by auto
  qed
qed

lemma range_insert_sorted:
  assumes "ranges_sorted g"
  shows "ranges_sorted (range_insert g e) \<and> mset (range_insert g e) = add_mset e (mset g)"
proof -
  obtain ys zs where g: "g = ys @ zs" "\<forall>x\<in>set ys. re_start x \<le> re_start e" "\<forall>x\<in>set zs. re_start e < re_start x"
    using ranges_sorted_split [OF assms] by metis
  then have "partition_point (\<lambda>x. re_start x \<le> re_start e) g = length ys"
    by (simp add: partition_point_append not_le)
  then have "range_insert g e = ys @ e # zs" using g(1) by (simp add: range_insert_def)
  then show ?thesis using assms g by (fastforce simp: ranges_sorted_def sorted_wrt_append)
qed

lemma range_lookup_sorted:
  assumes "ranges_sorted g"
  shows "range_lookup g key =
    (let es = filter (\<lambda>e. re_start e \<le> key) g
     in if es \<noteq> [] \<and> range_contains (last es) key then Some (last es) else None)"
proof -
  obtain ys zs where g: "g = ys @ zs" "\<forall>x\<in>set ys. re_start x \<le> key" "\<forall>x\<in>set zs. key < re_start x"
    using ranges_sorted_split [OF assms] by metis
  then have p: "partition_point (\<lambda>x. re_start x \<le> key) g = length ys"
    by (simp add: partition_point_append not_le)
  have f: "filter (\<lambda>e. re_start e \<le> key) g = ys"
    using g by (auto simp: filter_id_conv filter_empty_conv not_le)
  show ?thesis
    unfolding f using p g(1)
    by (cases ys) (auto simp: range_lookup_def Let_def last_conv_nth nth_append)
qed

lemma range_lookup_disjoint:
  assumes "ranges_sorted g" and "ranges_disjoint g"
  shows "range_lookup g key = Some e \<longleftrightarrow> e \<in> set g \<and> range_contains e key"
proof -
  obtain ys zs where g: "g = ys @ zs" "\<forall>x\<in>set ys. re_start x \<le> key" "\<forall>x\<in>set zs. key < re_start x"
    using ranges_sorted_split [OF assms(1)] by metis
  have f: "filter (\<lambda>e. re_start e \<le> key) g = ys"
    using g by (auto simp: filter_id_conv filter_empty_conv not_le)
  have zs: "\<not> range_contains x key" if "x \<in> set zs" for x
    using g(3) that by (simp add: range_contains_def)
  show ?thesis
  proof (cases ys rule: rev_cases)
    case Nil
    with zs g(1) show ?thesis unfolding range_lookup_sorted [OF assms(1)] f by (auto simp: Let_def)
  next
    case (snoc us c)
    have "\<not> range_contains x key" if x: "x \<in> set us" for x
    proof
      assume k: "range_contains x key"
      have le: "re_start x \<le> re_start c" "re_start c \<le> key"
        using assms(1) g snoc x by (auto simp: ranges_sorted_def sorted_wrt_append)
      have "range_proper c" using assms(2) g(1) snoc by (simp add: ranges_disjoint_def)
      then have c: "range_contains c (re_start c)" by (simp add: range_proper_def range_contains_def split: option.splits)
      have nk: "\<not> (range_contains x (re_start c) \<and> range_contains c (re_start c))"
        using assms(2) g(1) snoc x by (simp add: ranges_disjoint_def sorted_wrt_append)
      have "range_contains x (re_start c)"
        using le k by (auto simp: range_contains_def split: option.splits if_splits)
      with c nk show False by blast
    qed
    with zs show ?thesis
      unfolding range_lookup_sorted [OF assms(1)] f using g(1) snoc by (auto simp: Let_def)
  qed
qed

subsection \<open>Runs\<close>

lemma coord_grows_trans: "coord_grows s s' \<Longrightarrow> coord_grows s' s'' \<Longrightarrow> coord_grows s s''"
  unfolding coord_grows_def by (meson order_trans subset_mset.order_trans)

lemma coord_step_grows:
  assumes "coord_step s s'" and "ranges_sorted (co_ranges s)"
  shows "coord_grows s s' \<and> ranges_sorted (co_ranges s')"
  using assms(1)
proof (cases rule: coord_step.cases)
  case (place e)
  with range_insert_sorted [OF assms(2), of e] show ?thesis
    by (simp add: coord_grows_def coord_term_def coord_leader_hint_def range_all_def)
qed (use assms(2) in \<open>auto simp: coord_grows_def coord_term_def coord_leader_hint_def bump_term_def set_leader_hint_def\<close>)

lemma coord_run_grows:
  assumes "coord_step\<^sup>*\<^sup>* s s'" and "ranges_sorted (co_ranges s)"
  shows "coord_grows s s' \<and> ranges_sorted (co_ranges s')"
  using assms
proof (induction rule: rtranclp_induct)
  case base
  then show ?case by (simp add: coord_grows_def)
next
  case (step t u)
  then show ?case using coord_step_grows [of t u] coord_grows_trans by blast
qed

section \<open>Properties\<close>



end
