(* ===== verification/Property_Tests.thy ===== *)
theory Property_Tests
  imports Key_Codec Value_Codec Wal
begin

text \<open>
  The property tests of the repository, \<open>tests/proptest_codec.rs\<close> of \<open>ferriskv-core\<close> and
  \<open>tests/proptest_wal.rs\<close> of \<open>ferriskv-node\<close>: each test is the predicate it asserts of its generated
  input. Shown here: the assertions hold of every input, not only of those drawn. A file of the
  tests is what the calls leave when none of them fails; \<open>index\<close> is \<open>prop::sample::Index::index\<close>.
\<close>

section \<open>Definitions\<close>

text \<open>\<open>unwrap\<close> in a test: an error fails it.\<close>

definition unwraps :: "'a result \<Rightarrow> ('a \<Rightarrow> bool) \<Rightarrow> bool" where
  "unwraps r P = (case r of Inl _ \<Rightarrow> False | Inr x \<Rightarrow> P x)"

text \<open>\<open>Ord::cmp\<close>.\<close>

datatype ordering = Less | Equal | Greater

definition cmp :: "bytes \<Rightarrow> bytes \<Rightarrow> ordering" where
  "cmp a b = (if a < b then Less else if a = b then Equal else Greater)"

subsection \<open>proptest\_codec.rs\<close>

definition tenant_strategy :: "str \<Rightarrow> bool" where
  "tenant_strategy t \<longleftrightarrow> 1 \<le> length t \<and> length t \<le> 64
     \<and> list_all (\<lambda>b. (0x61 \<le> b \<and> b \<le> 0x7A) \<or> (0x41 \<le> b \<and> b \<le> 0x5A) \<or> (0x30 \<le> b \<and> b \<le> 0x39) \<or> b = 0x5F \<or> b = 0x2D) t"

definition key_roundtrip :: "str \<Rightarrow> subspace \<Rightarrow> bytes \<Rightarrow> bool" where
  "key_roundtrip tenant sub payload =
     unwraps (key_encode tenant sub payload) (\<lambda>encoded.
     unwraps (key_decode encoded) (\<lambda>(t, s, p). t = tenant \<and> s = sub \<and> p = payload))"

definition encoded_key_starts_with_tenant_prefix :: "str \<Rightarrow> subspace \<Rightarrow> bytes \<Rightarrow> bool" where
  "encoded_key_starts_with_tenant_prefix tenant sub payload =
     unwraps (key_encode tenant sub payload) (\<lambda>encoded.
     unwraps (encode_tenant_prefix tenant) (\<lambda>pre. prefix pre encoded))"

definition distinct_tenants_never_overlap :: "str \<Rightarrow> str \<Rightarrow> bytes \<Rightarrow> bool" where
  "distinct_tenants_never_overlap a b payload =
     (if a = b then True
      else
        unwraps (key_encode a Data payload) (\<lambda>ka.
        unwraps (encode_tenant_prefix b) (\<lambda>pb. \<not> prefix pb ka)))"

definition subspace_ordering_within_tenant :: "str \<Rightarrow> bytes \<Rightarrow> bool" where
  "subspace_ordering_within_tenant tenant payload =
     unwraps (key_encode tenant Metadata payload) (\<lambda>meta.
     unwraps (key_encode tenant Data payload) (\<lambda>data.
     unwraps (key_encode tenant Index payload) (\<lambda>idx.
     unwraps (key_encode tenant Stats payload) (\<lambda>stats. meta < data \<and> data < idx \<and> idx < stats))))"

definition payload_ordering_preserved_within_subspace :: "str \<Rightarrow> subspace \<Rightarrow> bytes \<Rightarrow> bytes \<Rightarrow> bool" where
  "payload_ordering_preserved_within_subspace tenant sub a b =
     unwraps (key_encode tenant sub a) (\<lambda>ka.
     unwraps (key_encode tenant sub b) (\<lambda>kb. cmp ka kb = cmp a b))"

definition value_roundtrip_no_ttl :: "bytes \<Rightarrow> bool" where
  "value_roundtrip_no_ttl payload =
     (let encoded = value_encode payload None
      in unwraps (value_decode encoded) (\<lambda>decoded. expires_at_ms decoded = None \<and> sv_value decoded = payload))"

definition value_roundtrip_with_ttl :: "bytes \<Rightarrow> u64 \<Rightarrow> bool" where
  "value_roundtrip_with_ttl payload expiry =
     (let encoded = value_encode payload (Some expiry)
      in unwraps (value_decode encoded) (\<lambda>decoded. expires_at_ms decoded = Some expiry \<and> sv_value decoded = payload))"

definition is_expired_matches_decode :: "bytes \<Rightarrow> u64 \<Rightarrow> u64 \<Rightarrow> bool" where
  "is_expired_matches_decode payload expiry now =
     (let encoded = value_encode payload (Some expiry)
      in unwraps (is_expired encoded now) (\<lambda>by_helper. by_helper \<longleftrightarrow> expiry \<le> now))"

subsection \<open>proptest\_wal.rs\<close>

type_synonym entry = "wal_op \<times> bytes \<times> bytes"

fun append_all :: "(bytes \<Rightarrow> u32) \<Rightarrow> wal \<Rightarrow> entry list \<Rightarrow> wal result" where
  "append_all crc w [] = Inr w"
| "append_all crc w ((oper, key, v) # es) =
     (case append crc io_ok w oper key v of
        (Inl e, _) \<Rightarrow> Inl e
      | (Inr _, w') \<Rightarrow> append_all crc w' es)"

definition write_segment :: "(bytes \<Rightarrow> u32) \<Rightarrow> entry list \<Rightarrow> bytes result" where
  "write_segment crc recs =
     (case fst (wal_open crc io_ok []) of
        Inl e \<Rightarrow> Inl e
      | Inr (w, _) \<Rightarrow>
          (case append_all crc w recs of
             Inl e \<Rightarrow> Inl e
           | Inr w' \<Rightarrow>
               (case sync io_ok w' of
                  (Inl e, _) \<Rightarrow> Inl e
                | (Inr _, w'') \<Rightarrow> Inr (segment w''))))"

definition every_appended_record_comes_back_unchanged :: "(bytes \<Rightarrow> u32) \<Rightarrow> entry list \<Rightarrow> bool" where
  "every_appended_record_comes_back_unchanged crc recs =
     unwraps (write_segment crc recs) (\<lambda>file.
       (let (parsed, consumed) = parse_frames crc (drop HEADER_LEN file)
        in consumed = length file - HEADER_LEN
           \<and> length parsed = length recs
           \<and> list_all (\<lambda>(i, record, oper, key, v).
               seq record = word_of_nat i \<and> op record = oper \<and> rkey record = key \<and> rvalue record = v)
             (enumerate 0 (zip parsed recs))))"

definition truncating_anywhere_yields_a_prefix_of_the_records ::
    "(bytes \<Rightarrow> u32) \<Rightarrow> entry list \<Rightarrow> (nat \<Rightarrow> nat) \<Rightarrow> bool" where
  "truncating_anywhere_yields_a_prefix_of_the_records crc recs index =
     unwraps (write_segment crc recs) (\<lambda>file.
       (let (whole, _) = parse_frames crc (drop HEADER_LEN file);
            bdy = drop HEADER_LEN file;
            torn = take (index (length bdy + 1)) bdy;
            (part, consumed) = parse_frames crc torn
        in consumed \<le> length torn \<and> length part \<le> length whole \<and> part = take (length part) whole))"

definition corrupt :: "bytes \<Rightarrow> nat \<Rightarrow> u8 \<Rightarrow> bytes" where
  "corrupt file at flip = file[at := (file ! at) XOR flip]"

definition corrupting_one_byte_only_costs_the_tail ::
    "(bytes \<Rightarrow> u32) \<Rightarrow> entry list \<Rightarrow> (nat \<Rightarrow> nat) \<Rightarrow> u8 \<Rightarrow> bool" where
  "corrupting_one_byte_only_costs_the_tail crc recs index flip =
     unwraps (write_segment crc recs) (\<lambda>file.
       (let (clean, _) = parse_frames crc (drop HEADER_LEN file);
            at = HEADER_LEN + index (length file - HEADER_LEN);
            corrupted = corrupt file at flip;
            (parsed, consumed) = parse_frames crc (drop HEADER_LEN corrupted)
        in consumed \<le> length corrupted - HEADER_LEN \<and> length parsed \<le> length clean
           \<and> parsed = take (length parsed) clean))"

definition reopening_agrees_with_parsing_the_bytes :: "(bytes \<Rightarrow> u32) \<Rightarrow> entry list \<Rightarrow> bool" where
  "reopening_agrees_with_parsing_the_bytes crc recs =
     unwraps (write_segment crc recs) (\<lambda>file.
       (let (direct, _) = parse_frames crc (drop HEADER_LEN file)
        in unwraps (fst (wal_open crc io_ok file)) (\<lambda>(w, recovery).
             records recovery = direct \<and> truncated_bytes recovery = 0
             \<and> rec_next_seq recovery = word_of_nat (length recs)
             \<and> segment_bytes (winner w) = word_of_nat (length file))))"

definition arbitrary_bytes_never_panic_the_parser :: "(bytes \<Rightarrow> u32) \<Rightarrow> bytes \<Rightarrow> bool" where
  "arbitrary_bytes_never_panic_the_parser crc data =
     (let (recs, consumed) = parse_frames crc data
      in consumed \<le> length data
         \<and> list_all (\<lambda>record. length (rkey record) + length (rvalue record) \<le> consumed) recs)"

subsection \<open>What a test writes\<close>

text \<open>Inputs whose lengths fit the fields of a frame and whose file fits 64 bits.\<close>

definition fits :: "entry list \<Rightarrow> bool" where
  "fits recs \<longleftrightarrow> list_all (\<lambda>(_, key, v). length key < 2 ^ 32 \<and> length v < 2 ^ 32) recs
     \<and> HEADER_LEN + (\<Sum>(_, key, v)\<leftarrow>recs. MIN_FRAME_LEN + length key + length v) < 2 ^ 64"

definition numbered :: "entry list \<Rightarrow> wal_record list" where
  "numbered recs = map (\<lambda>(i, oper, key, v). \<lparr>seq = word_of_nat i, op = oper, rkey = key, rvalue = v\<rparr>) (enumerate 0 recs)"

text \<open>The checksum notices the flipped byte: the frame it is in does not parse where it starts.\<close>

definition notices :: "(bytes \<Rightarrow> u32) \<Rightarrow> entry list \<Rightarrow> nat \<Rightarrow> u8 \<Rightarrow> bool" where
  "notices crc recs at flip \<longleftrightarrow>
     list_all (\<lambda>i.
        (let start = length (frames_of crc (take i (numbered recs)));
             stop = length (frames_of crc (take (Suc i) (numbered recs)))
         in start \<le> at \<and> at < stop \<longrightarrow>
            parse_frame crc (drop start (corrupt (frames_of crc (numbered recs)) at flip)) = None))
       [0..<length recs]"

section \<open>Lemmas\<close>

lemma unwraps_simps [simp]: "unwraps (Inr x) P = P x" "unwraps (Inl e) P = False"
  by (simp_all add: unwraps_def)

lemma tenant_strategy_ok: "tenant_strategy t \<Longrightarrow> tenant_ok t"
proof -
  assume t: "tenant_strategy t"
  have "b < 0x80" if "b \<in> set t" for b :: u8
  proof -
    have "b \<le> 0x7A" using t that unfolding tenant_strategy_def list_all_iff by (auto dest!: bspec elim: order_trans)
    then show ?thesis by (rule le_less_trans) simp
  qed
  with t utf8_valid_ascii [of t] show "tenant_ok t"
    by (auto simp: tenant_ok_def tenant_strategy_def MAX_TENANT_LEN_def)
qed

lemma codec_tests:
  assumes "tenant_ok a" and "tenant_ok b"
  shows "key_roundtrip a s p" and "encoded_key_starts_with_tenant_prefix a s p"
    and "distinct_tenants_never_overlap a b p" and "subspace_ordering_within_tenant a p"
    and "payload_ordering_preserved_within_subspace a s p q"
proof -
  have pre: "encode_tenant_prefix t = Inr (word_of_nat (length t) # t)" if "tenant_ok t" for t
    using that by (simp add: encode_tenant_prefix_Inr_iff tenant_ok_def)
  show "key_roundtrip a s p" using assms(1) by (simp add: key_roundtrip_def key_encode_ok)
  show "encoded_key_starts_with_tenant_prefix a s p"
    using assms(1) by (simp add: encoded_key_starts_with_tenant_prefix_def key_encode_ok pre tenant_prefix_iff)
  show "distinct_tenants_never_overlap a b p"
    using assms by (simp add: distinct_tenants_never_overlap_def key_encode_ok pre tenant_prefix_iff)
  show "subspace_ordering_within_tenant a p"
    using assms(1) by (simp add: subspace_ordering_within_tenant_def key_encode_ok) (simp add: raw_key_def)
  show "payload_ordering_preserved_within_subspace a s p q"
    using assms(1) by (simp add: payload_ordering_preserved_within_subspace_def key_encode_ok cmp_def)
qed

lemma value_tests: "value_roundtrip_no_ttl p" "value_roundtrip_with_ttl p e" "is_expired_matches_decode p e now"
  by (simp_all add: value_roundtrip_no_ttl_def value_roundtrip_with_ttl_def is_expired_matches_decode_def)

lemma length_numbered [simp]: "length (numbered recs) = length recs"
  by (simp add: numbered_def)

lemma numbered_snoc: "numbered (recs @ [(oper, key, v)])
    = numbered recs @ [\<lparr>seq = word_of_nat (length recs), op = oper, rkey = key, rvalue = v\<rparr>]"
  by (simp add: numbered_def enumerate_append_eq)

lemma numbered_ok: "fits recs \<Longrightarrow> list_all record_ok (numbered recs)"
  by (auto simp: fits_def numbered_def list_all_length record_ok_def nth_enumerate_eq split: prod.splits)

lemma length_numbered_frames:
  "length (frames_of crc (numbered recs)) = (\<Sum>(_, key, v)\<leftarrow>recs. MIN_FRAME_LEN + length key + length v)"
proof (induction recs rule: rev_induct)
  case (snoc x recs)
  obtain oper key v where "x = (oper, key, v)" using prod_cases3 by blast
  with snoc show ?case by (simp add: numbered_snoc length_frame_of)
qed (simp add: numbered_def)

lemma append_all_holds:
  assumes "wal_holds crc w l" and "list_all (\<lambda>(_, key, v). length key < 2 ^ 32 \<and> length v < 2 ^ 32) recs"
  shows "\<exists>w'. append_all crc w recs = Inr w' \<and> wal_holds crc w' (foldl (\<lambda>l (oper, key, v). log_append oper key v l) l recs)"
  using assms
proof (induction recs arbitrary: w l)
  case (Cons x recs)
  obtain oper key v where x: "x = (oper, key, v)" using prod_cases3 by blast
  obtain w1 where a: "append crc io_ok w oper key v = (Inr (log_next l), w1)" using append_io_ok [OF Cons.prems(1)] by blast
  have "wal_holds crc w1 (log_append oper key v l)" using append_ok [OF Cons.prems(1) _ _ a] Cons.prems(2) by (simp add: x)
  with Cons.IH Cons.prems(2) show ?case by (simp add: x a)
qed simp

lemma numbered_log:
  assumes "length recs < 2 ^ 64"
  shows "foldl (\<lambda>l (oper, key, v). log_append oper key v l) \<lparr>base = 0, entries = []\<rparr> recs = \<lparr>base = 0, entries = numbered recs\<rparr>
    \<and> log_next \<lparr>base = 0, entries = numbered recs\<rparr> = word_of_nat (length recs)"
  using assms
proof (induction recs rule: rev_induct)
  case Nil
  then show ?case by (simp add: numbered_def log_next_def)
next
  case (snoc x recs)
  obtain oper key v where x: "x = (oper, key, v)" using prod_cases3 by blast
  let ?l = "\<lparr>base = 0, entries = numbered recs\<rparr>"
  have IH: "foldl (\<lambda>l (oper, key, v). log_append oper key v l) \<lparr>base = 0, entries = []\<rparr> recs = ?l"
    "log_next ?l = word_of_nat (length recs)" using snoc by simp_all
  have l: "log_append oper key v ?l = \<lparr>base = 0, entries = numbered (recs @ [x])\<rparr>"
    by (simp add: log_append_def IH(2) x numbered_snoc)
  have "saturating_add (word_of_nat (length recs) :: u64) 1 = word_of_nat (length recs) + 1"
    using snoc.prems by (simp add: saturating_add_def no_olen_add_nat unat_of_nat)
  then have "log_next (log_append oper key v ?l) = word_of_nat (length (recs @ [x]))"
    by (simp only: log_next_append IH(2)) (simp add: add.commute)
  moreover have "foldl (\<lambda>l (oper, key, v). log_append oper key v l) \<lparr>base = 0, entries = []\<rparr> (recs @ [x]) = log_append oper key v ?l"
    using IH(1) by (simp add: x)
  ultimately show ?case by (simp only: l)
qed

lemma fits_length: "fits recs \<Longrightarrow> length recs < 2 ^ 64"
proof -
  have "length recs \<le> (\<Sum>(_, key, v)\<leftarrow>recs. MIN_FRAME_LEN + length key + length v)"
    by (induction recs) (auto simp: MIN_FRAME_LEN_def)
  then show "fits recs \<Longrightarrow> length recs < 2 ^ 64" unfolding fits_def by linarith
qed

lemma write_segment_eq:
  assumes "fits recs"
  shows "write_segment crc recs = Inr (encode_header 0 @ frames_of crc (numbered recs))"
    and "holds crc (encode_header 0 @ frames_of crc (numbered recs)) \<lparr>base = 0, entries = numbered recs\<rparr>"
    and "log_next \<lparr>base = 0, entries = numbered recs\<rparr> = word_of_nat (length recs)"
proof -
  define w where "w = \<lparr>segment = encode_header 0, winner = \<lparr>writer = bw_new, next_seq = 0, segment_bytes = word_of_nat HEADER_LEN\<rparr>\<rparr>"
  have w: "wal_holds crc w \<lparr>base = 0, entries = []\<rparr>"
    by (simp add: w_def wal_holds_def holds_def bw_new_def log_next_def)
  have o: "\<exists>rec. fst (wal_open crc io_ok []) = Inr (w, rec)" by (simp add: wal_open_def open_recover_def w_def)
  obtain w' where w': "append_all crc w recs = Inr w'" "wal_holds crc w' \<lparr>base = 0, entries = numbered recs\<rparr>"
    using append_all_holds [OF w] assms numbered_log [OF fits_length [OF assms]] unfolding fits_def by metis
  have "sync io_ok w' = (Inr (), w')" using w'(2) by (simp add: sync_def wal_holds_def flush_buf_def Let_def)
  then have "write_segment crc recs = Inr (segment w')" using o w'(1) by (auto simp: write_segment_def)
  with w'(2) show "write_segment crc recs = Inr (encode_header 0 @ frames_of crc (numbered recs))"
    "holds crc (encode_header 0 @ frames_of crc (numbered recs)) \<lparr>base = 0, entries = numbered recs\<rparr>"
    by (auto simp: wal_holds_def holds_def)
  show "log_next \<lparr>base = 0, entries = numbered recs\<rparr> = word_of_nat (length recs)"
    using numbered_log [OF fits_length [OF assms]] by blast
qed

lemma parse_written: "fits recs \<Longrightarrow> parse_frames crc (frames_of crc (numbered recs))
    = (numbered recs, length (frames_of crc (numbered recs)))"
  using parse_frames_frames [OF numbered_ok, of recs crc "[]"] by simp

text \<open>A file cut anywhere is whole frames and a torn one.\<close>

lemma take_frames:
  assumes "list_all record_ok rs"
  shows "\<exists>j torn. take n (frames_of crc rs) = frames_of crc (take j rs) @ torn \<and> parse_frame crc torn = None"
  using assms
proof (induction rs arbitrary: n)
  case (Cons r rs)
  show ?case
  proof (cases "n < length (frame_of crc r)")
    case True
    with Cons.prems parse_frame_torn [of r n crc] show ?thesis
      by (intro exI [of _ 0] exI [of _ "take n (frame_of crc r)"]) simp
  next
    case False
    obtain j torn where "take (n - length (frame_of crc r)) (frames_of crc rs) = frames_of crc (take j rs) @ torn"
      "parse_frame crc torn = None" using Cons by force
    with False show ?thesis by (intro exI [of _ "Suc j"] exI [of _ torn]) simp
  qed
qed simp

lemma take_written:
  assumes "fits recs" and "parse_frames crc (take n (frames_of crc (numbered recs))) = (part, consumed)"
  shows "part = take (length part) (numbered recs) \<and> length part \<le> length recs"
proof -
  obtain j torn where "take n (frames_of crc (numbered recs)) = frames_of crc (take j (numbered recs)) @ torn" "parse_frame crc torn = None"
    using take_frames [OF numbered_ok [OF assms(1)]] by blast
  moreover have "list_all record_ok (take j (numbered recs))"
    using numbered_ok [OF assms(1)] by (auto simp: list_all_iff dest: in_set_takeD)
  ultimately have "part = take j (numbered recs)" using assms(2) by (simp add: parse_frames_frames)
  then show ?thesis by (cases "j \<le> length recs") simp_all
qed

lemma truncation_test:
  assumes "fits recs"
  shows "truncating_anywhere_yields_a_prefix_of_the_records crc recs index"
proof -
  let ?b = "frames_of crc (numbered recs)"
  obtain part consumed where p: "parse_frames crc (take (index (Suc (length ?b))) ?b) = (part, consumed)" by fastforce
  show ?thesis
    using take_written [OF assms p] parse_frames_sound(5) [OF p]
    by (simp add: truncating_anywhere_yields_a_prefix_of_the_records_def write_segment_eq [OF assms] parse_written [OF assms] Let_def p)
qed

lemma roundtrip_test:
  assumes "fits recs"
  shows "every_appended_record_comes_back_unchanged crc recs"
proof -
  have "list_all (\<lambda>(i, record, oper, key, v). seq record = word_of_nat i \<and> op record = oper \<and> rkey record = key \<and> rvalue record = v)
      (enumerate 0 (zip (numbered recs) recs))"
    by (simp add: list_all_length numbered_def nth_enumerate_eq split: prod.split)
  then show ?thesis
    by (simp add: every_appended_record_comes_back_unchanged_def write_segment_eq [OF assms] parse_written [OF assms])
qed

lemma reopening_test:
  assumes "fits recs"
  shows "reopening_agrees_with_parsing_the_bytes crc recs"
proof -
  let ?f = "encode_header 0 @ frames_of crc (numbered recs)"
  have "length (?f @ []) < 2 ^ 64" using assms by (simp add: fits_def length_numbered_frames)
  from open_recover_torn [OF write_segment_eq(2) [OF assms] parse_frame_Nil this]
  have "open_recover crc io_ok ?f = (Inr \<lparr>records = numbered recs, truncated_bytes = 0, rec_next_seq = word_of_nat (length recs),
      rec_segment_bytes = word_of_nat (length ?f)\<rparr>, ?f)"
    by (simp add: write_segment_eq(3) [OF assms])
  then show ?thesis
    by (simp add: reopening_agrees_with_parsing_the_bytes_def write_segment_eq(1) [OF assms] parse_written [OF assms] wal_open_def)
qed

lemma parser_test: "arbitrary_bytes_never_panic_the_parser crc data"
  using wal_fuzz_frame_passes [of crc data]
  by (auto simp: fuzz_wal_frame_def arbitrary_bytes_never_panic_the_parser_def split: prod.splits)

text \<open>The byte of a written log at a position belongs to one of its frames.\<close>

lemma frame_at:
  "at < length (frames_of crc rs) \<Longrightarrow>
     \<exists>i < length rs. length (frames_of crc (take i rs)) \<le> at \<and> at < length (frames_of crc (take (Suc i) rs))"
proof (induction rs rule: rev_induct)
  case (snoc r rs)
  show ?case
  proof (cases "at < length (frames_of crc rs)")
    case True
    with snoc.IH obtain i where "i < length rs" "length (frames_of crc (take i rs)) \<le> at" "at < length (frames_of crc (take (Suc i) rs))"
      by blast
    then show ?thesis by (intro exI [of _ i]) simp
  next
    case False
    with snoc.prems show ?thesis by (intro exI [of _ "length rs"]) simp
  qed
qed simp

lemma corruption_test:
  assumes "fits recs" and "recs \<noteq> []" and "\<forall>n>0. index n < n"
    and "notices crc recs (index (length (frames_of crc (numbered recs)))) flip"
  shows "corrupting_one_byte_only_costs_the_tail crc recs index flip"
proof -
  let ?rs = "numbered recs" and ?b = "frames_of crc (numbered recs)"
  let ?at = "index (length ?b)"
  have "0 < length ?b" using assms(2) by (cases recs) (auto simp: length_numbered_frames MIN_FRAME_LEN_def)
  then have at: "?at < length ?b" using assms(3) by blast
  then obtain i where i: "i < length ?rs" "length (frames_of crc (take i ?rs)) \<le> ?at" "?at < length (frames_of crc (take (Suc i) ?rs))"
    using frame_at by blast
  let ?pre = "frames_of crc (take i ?rs)"
  let ?c = "corrupt ?b ?at flip"
  have b: "?b = ?pre @ frames_of crc (drop i ?rs)" by (simp flip: frames_of_simps(3))
  then have "take (length ?pre) ?b = ?pre" by (metis append_eq_conv_conj)
  then have "?c = ?pre @ drop (length ?pre) ?c"
    using i(2) by (metis append_take_drop_id corrupt_def take_update_cancel)
  moreover have "parse_frame crc (drop (length ?pre) ?c) = None"
    using assms(4) i unfolding notices_def Let_def list_all_iff by simp
  moreover have "list_all record_ok (take i ?rs)"
    using numbered_ok [OF assms(1)] by (auto simp: list_all_iff dest: in_set_takeD)
  ultimately have p: "parse_frames crc ?c = (take i ?rs, length ?pre)" by (metis parse_frames_frames)
  have "drop HEADER_LEN (corrupt (encode_header 0 @ ?b) (HEADER_LEN + ?at) flip) = ?c"
    by (simp add: corrupt_def list_update_append nth_append)
  with p parse_frames_sound(5) [OF p] i(1) show ?thesis
    by (simp add: corrupting_one_byte_only_costs_the_tail_def write_segment_eq(1) [OF assms(1)] parse_written [OF assms(1)] Let_def)
      (simp add: corrupt_def)
qed

lemma nth_frame_op: "(frame_of crc r @ rest) ! 8 = wal_op_byte (op r)"
  by (simp add: frame_of_def encode_frame_def Let_def nth_append)

text \<open>A byte that is no operation is noticed whatever the checksum.\<close>

lemma notices_op:
  assumes "\<And>oper'. wal_op_byte oper XOR flip \<noteq> wal_op_byte oper'"
  shows "notices crc ((oper, key, v) # recs) 8 flip"
proof -
  let ?rs = "numbered ((oper, key, v) # recs)"
  let ?b = "frames_of crc ?rs"
  have b: "\<exists>rest. ?b = frame_of crc \<lparr>seq = 0, op = oper, rkey = key, rvalue = v\<rparr> @ rest" by (auto simp: numbered_def)
  have len: "8 < length ?b" by (simp add: length_numbered_frames MIN_FRAME_LEN_def)
  have "corrupt ?b 8 flip ! 8 = wal_op_byte oper XOR flip"
    using b len by (auto simp: corrupt_def nth_frame_op)
  then have none: "parse_frame crc (corrupt ?b 8 flip) = None"
    using assms [symmetric] by (cases "parse_frame crc (corrupt ?b 8 flip)") (auto simp: parse_frame_iff nth_frame_op)
  have "8 < length (frames_of crc (take i ?rs))" if "0 < i" for i
    using that by (cases i) (auto simp: numbered_def length_frame_of MIN_FRAME_LEN_def)
  then have "i = 0" if "length (frames_of crc (take i ?rs)) \<le> 8" for i using that by (meson leD neq0_conv)
  then show ?thesis using none unfolding notices_def list_all_iff Let_def by fastforce
qed

section \<open>Properties\<close>

text \<open>
  C34: the property tests hold of every input. For any tenant names, payloads, expiries and clocks
  every assertion of the codec tests is true; for any log whose lengths fit its format, any
  position to cut at and any bytes, so is every assertion of the tests of the log, whatever the
  checksum function. The test that flips a byte passes whenever the checksum notices the flip.
\<close>

theorem property_tests_pass:
  assumes "tenant_ok a" and "tenant_ok b" and "fits recs" and "\<forall>n>0. index n < n"
  shows "key_roundtrip a s p \<and> encoded_key_starts_with_tenant_prefix a s p \<and> distinct_tenants_never_overlap a b p
    \<and> subspace_ordering_within_tenant a p \<and> payload_ordering_preserved_within_subspace a s p q
    \<and> value_roundtrip_no_ttl p \<and> value_roundtrip_with_ttl p e \<and> is_expired_matches_decode p e now
    \<and> every_appended_record_comes_back_unchanged crc recs \<and> reopening_agrees_with_parsing_the_bytes crc recs
    \<and> truncating_anywhere_yields_a_prefix_of_the_records crc recs index \<and> arbitrary_bytes_never_panic_the_parser crc p
    \<and> (recs \<noteq> [] \<and> notices crc recs (index (length (frames_of crc (numbered recs)))) flip
         \<longrightarrow> corrupting_one_byte_only_costs_the_tail crc recs index flip)"
  by (simp add: codec_tests [OF assms(1,2)] value_tests roundtrip_test [OF assms(3)] reopening_test [OF assms(3)]
      truncation_test [OF assms(3)] parser_test corruption_test [OF assms(3) _ assms(4)])

theorem property_tests_pass_witness:
  "key_roundtrip [0x61] Data [1] \<and> distinct_tenants_never_overlap [0x61] [0x61, 0x62] [1]
   \<and> reopening_agrees_with_parsing_the_bytes (\<lambda>_. 7) [(Put, [1], [2]), (Delete, [1], [])]
   \<and> corrupting_one_byte_only_costs_the_tail (\<lambda>_. 7) [(Put, [1], [2]), (Delete, [1], [])] (\<lambda>n. min 8 (n - 1)) 0xFF"
proof -
  let ?recs = "[(Put, [1], [2]), (Delete, [1], [])]"
  have "tenant_strategy [0x61]" "tenant_strategy [0x61, 0x62]" by code_simp+
  then have t: "tenant_ok [0x61]" "tenant_ok [0x61, 0x62]" by (simp_all add: tenant_strategy_ok)
  have f: "fits ?recs" by (simp add: fits_def HEADER_LEN_def MIN_FRAME_LEN_def)
  have "wal_op_byte Put XOR 0xFF \<noteq> wal_op_byte oper'" for oper' by (cases oper') simp_all
  then have "notices (\<lambda>_. 7) ?recs 8 0xFF" by (rule notices_op)
  moreover have "min 8 (length (frames_of (\<lambda>_. 7) (numbered ?recs)) - 1) = 8"
    by (simp add: length_numbered_frames MIN_FRAME_LEN_def)
  moreover have "\<forall>n>0. min 8 (n - 1) < (n :: nat)" by auto
  ultimately show ?thesis using property_tests_pass [OF t f, of "\<lambda>n. min 8 (n - 1)" Data "[1]" "[]" 0 0 "\<lambda>_. 7" "0xFF"] by simp
qed

end
