(* ===== verification/Spec2Isabelle.thy ===== *)
theory Spec2Isabelle
  imports Server Cli Node_Main Node_Concurrent Quota_Concurrent Coord Property_Tests
begin

text \<open>
  FerrisKV is a multi-tenant key-value store in Rust. A node (\<open>crates/ferriskv-node\<close>) keeps the data
  of all tenants in one ordered keyspace, in memory or in the storage engine \<open>fjall\<close>, with a
  write-ahead log in front of it; clients reach it over gRPC, operators over a small HTTP server,
  and a background task evicts entries whose time to live is over. A coordinator
  (\<open>crates/ferriskv-coord\<close>) maps key ranges to nodes and a command-line client
  (\<open>crates/ferriskv-cli\<close>) talks to one node. This development models the program by HOL functions
  that read like the sources, and proves what makes it correct.

  \<^bold>\<open>How the parts interact.\<close> A request passes the interceptor (\<open>auth_layer.rs\<close>), which turns a token
  into a principal; the handler (\<open>grpc.rs\<close>) checks tenant and permission, charges the rate limiter
  (\<open>throttle.rs\<close>), encodes the key (\<open>key.rs\<close>) and calls the service (\<open>service.rs\<close>). A write plans what
  it does to the tenant's usage (\<open>quota.rs\<close>), is appended to the log (\<open>wal.rs\<close>), goes to the backend
  (\<open>storage.rs\<close>) framed by the value codec (\<open>value.rs\<close>), is entered in the expiry index (\<open>ttl.rs\<close>),
  charged, announced to watchers (\<open>watch.rs\<close>), and may rotate the log. A start replays the log over
  the backend and rebuilds counters and index from the data.

  \<^bold>\<open>Conventions.\<close> Machine integers are words, \<open>usize\<close> is \<open>nat\<close>, a byte string is a list of 8-bit
  words, a \<open>str\<close> is a byte string that is valid UTF-8. A \<open>DashMap\<close> is an association list with
  distinct keys. A fallible function returns \<open>error + 'a\<close>; a function that changes state takes it and
  returns it, on error paths too. Code that is not in the repository is an argument: a record of its
  functions (\<open>fjall_api\<close>, \<open>governor_api\<close>, \<open>broadcast_api\<close>, \<open>jwt_api\<close>, \<open>quota_json\<close>, \<open>tonic_api\<close>, the
  checksum, the hash, the unstable sort), with its documented behaviour as a named predicate
  (\<open>fjall_ok\<close>, \<open>fjall_durable\<close>, \<open>governor_ok\<close>, \<open>broadcast_ok\<close>, \<open>jwt_ok\<close>, \<open>quota_json_ok\<close>,
  \<open>sort_unstable_ok\<close>) and a reference instance that satisfies it. Every call of the operating system
  may fail: an oracle \<open>io\<close> says which does and how much a failing write stored.

  \<^bold>\<open>Theories.\<close>

  \<^item> \<open>Prelude\<close>: integers, slices, endianness, UTF-8, \<open>DashMap\<close>, and the locales \<open>codec\<close> and
    \<open>frame_codec\<close> that the codecs interpret. \<open>Core_Types\<close>: \<open>error.rs\<close>, \<open>clock.rs\<close>, \<open>limits.rs\<close>.
    \<open>Std_Io\<close>: files, the buffered writer and their faults.
  \<^item> \<open>Key_Codec\<close> (\<open>key.rs\<close>), \<open>Value_Codec\<close> (\<open>value.rs\<close>): encoders, decoders and their fuzz targets;
    both are bijections onto what they accept, and tenants never share a prefix.
  \<^item> \<open>Storage_Backend\<close> (\<open>storage.rs\<close>): both backends and the enum that dispatches, behind the locale
    \<open>storage\<close>; what \<open>fjall\<close> may forget in a crash.
  \<^item> \<open>Wal\<close> (\<open>wal.rs\<close>): frames, header, open with recovery, append, sync, rotate, and the abstract \<open>log\<close>
    they implement; an append is atomic under any fault, and two faults it does not survive.
  \<^item> \<open>Quota\<close>, \<open>Quota_Concurrent\<close> (\<open>quota.rs\<close>): limits, counters, persistence; the counter's
    compare-and-swap loop under concurrent updates is linearizable and ends.
  \<^item> \<open>Throttle\<close> (\<open>throttle.rs\<close>), \<open>Watch\<close> (\<open>watch.rs\<close>), \<open>Ttl\<close> (the index of \<open>ttl.rs\<close>, behind the locale
    \<open>expiry_index\<close>), \<open>Node_Config\<close> (\<open>config.rs\<close>).
  \<^item> \<open>Node_Service\<close> (\<open>service.rs\<close>, the sweeper of \<open>ttl.rs\<close>): the node as a record, opening, the write
    and read paths, one sweep. \<open>Node_Recovery\<close>: what a crash leaves and what opening gives back.
    \<open>Node_Writes\<close>: each stage of a write keeps the invariant \<open>node_ok\<close> (exact counters, a complete
    index, a log that recovers the map). \<open>Node_Correctness\<close>: what callers may rely on. \<open>Node_Sweep\<close>:
    a sweep removes the expired entries and nothing else. \<open>Node_Concurrent\<close>: writes whose calls
    interleave, with the races that lose or reorder them.
  \<^item> \<open>Auth\<close> (\<open>ferriskv-auth\<close>), \<open>Auth_Layer\<close> (\<open>auth_layer.rs\<close>, \<open>audit.rs\<close>), \<open>Grpc\<close>, \<open>Grpc_Correctness\<close>,
    \<open>Grpc_Watch\<close> (\<open>grpc.rs\<close>): every handler; tenant isolation, authorization, scans, batches, and the
    watch stream, which has no silent gap.
  \<^item> \<open>Admin\<close> (\<open>admin.rs\<close>), \<open>Node_Main\<close> (\<open>main.rs\<close>), \<open>Server\<close>: the servers and the sweeper on one node,
    one operation after another, refine a map from keys to values.
  \<^item> \<open>Coord\<close> (\<open>ferriskv-coord\<close>), \<open>Hashing\<close> (\<open>hashing.rs\<close>), \<open>Cli\<close> (\<open>ferriskv-cli\<close>).
  \<^item> \<open>Property_Tests\<close>: the property tests of the repository, proved for all inputs.

  \<^bold>\<open>What the theorems assume.\<close> The stored bytes of a tenant stay below \<open>2 ^ 63\<close> and a segment below
  \<open>2 ^ 64\<close> bytes (\<open>totals_fit\<close>, explicit premises), since the code subtracts sizes as \<open>i64\<close>; keys and
  values fit the 32-bit length fields of the log; a rotation does not fail between truncating the
  segment and writing its header (\<open>rotate_safe\<close>; \<open>wal_rotate_interrupted\<close> shows what happens then).
  \<open>Server\<close> takes operations one at a time. \<open>Node_Concurrent\<close> takes them call by call, each call being
  atomic in the code, and needs that writes are \<open>orderly\<close>; it exhibits runs of the code that are not.

  \<^bold>\<open>Loops.\<close> Every loop is structural recursion or has a termination proof (the frame parser and the
  binary search by a measure). No definition has fuel but \<open>write_alone\<close>, which takes the ten steps a
  write has at most, and \<open>apply_delta_loop\<close>, which consumes the values other threads put in between;
  that these end is proved. The loops that are meant to run for ever, the sweeper's and that of a watch
  stream, take the list of their turns as an argument, and theorems hold for every list.

  \<^bold>\<open>Not modelled.\<close> Generated protocol code (\<open>ferriskv-proto\<close>): its messages are records of \<open>Grpc\<close>.
  Logging and the metrics recorder: output only; the counters of calls and the audit trail are
  modelled. Sockets, HTTP/2, TLS handshakes, HTTP and JSON parsing, argument and TOML parsing: they
  are third-party code. Integration tests, unit tests and benchmarks: they call what is modelled.
  Memory exhaustion and panics of the allocator.
\<close>

end
